(* ===== verification/Prelude.thy ===== *)
theory Prelude
  imports Main "HOL-Library.Sublist" "HOL-Library.List_Lexorder" "HOL-Library.Char_ord"
    "HOL-Library.Word"
begin

text \<open>
  Shared vocabulary of the development: the operations of \<open>std::string\<close> that the sources use
  (\<open>find\<close>, \<open>rfind\<close> as a prefix test, \<open>find_last_of\<close>, \<open>substr\<close>, \<open>c_str\<close>, \<open>std::to_string\<close>,
  \<open>tolower\<close>), the lemma collections the component theories extend, and generic facts about
  lists. A C++ string is a \<^typ>\<open>string\<close>, that is a list of 8-bit characters; \<open>npos\<close> is
  \<^term>\<open>None\<close>.
\<close>

unbundle bit_operations_syntax

named_theorems str_simps
named_theorems http_defs
named_theorems act_simps

section \<open>Operations of std::string\<close>

abbreviation NUL :: char where "NUL \<equiv> CHR 0x00"
abbreviation SLASH :: char where "SLASH \<equiv> CHR ''/''"
abbreviation COLON :: char where "COLON \<equiv> CHR '':''"

definition CRLF :: string where
  "CRLF = [CHR 0x0D, CHR 0x0A]"

text \<open>\<open>s.c_str()\<close> read back as a C string: everything before the first NUL.\<close>

definition c_str :: "string \<Rightarrow> string" where
  "c_str s = takeWhile (\<lambda>c. c \<noteq> NUL) s"

text \<open>\<open>s.find(pat)\<close> and \<open>s.find(pat, pos)\<close>.\<close>

fun find_sub :: "string \<Rightarrow> string \<Rightarrow> nat option" where
  "find_sub pat [] = (if pat = [] then Some 0 else None)"
| "find_sub pat (c # cs) =
     (if prefix pat (c # cs) then Some 0 else map_option Suc (find_sub pat cs))"

definition str_find :: "string \<Rightarrow> string \<Rightarrow> nat \<Rightarrow> nat option" where
  "str_find s pat pos =
     (if pos \<le> length s then map_option (\<lambda>i. pos + i) (find_sub pat (drop pos s)) else None)"

text \<open>\<open>s.find_last_of(c)\<close> for one character.\<close>

fun find_last_of :: "char \<Rightarrow> string \<Rightarrow> nat option" where
  "find_last_of c [] = None"
| "find_last_of c (x # xs) =
     (case find_last_of c xs of
        Some i \<Rightarrow> Some (Suc i)
      | None \<Rightarrow> if x = c then Some 0 else None)"

text \<open>\<open>s.substr(pos, n)\<close> for \<open>pos \<le> s.size()\<close>, which every call site guarantees.\<close>

definition substr :: "string \<Rightarrow> nat \<Rightarrow> nat \<Rightarrow> string" where
  "substr s pos n = take n (drop pos s)"

text \<open>\<open>tolower\<close> and \<open>isdigit\<close> of the C locale.\<close>

definition tolower :: "char \<Rightarrow> char" where
  "tolower c = (if 65 \<le> (of_char c :: nat) \<and> (of_char c :: nat) \<le> 90
                then char_of ((of_char c :: nat) + 32) else c)"

definition isdigit :: "char \<Rightarrow> bool" where
  "isdigit c \<longleftrightarrow> 48 \<le> (of_char c :: nat) \<and> (of_char c :: nat) \<le> 57"

text \<open>\<open>std::to_string\<close> on unsigned and on signed integers.\<close>

fun nat_to_string :: "nat \<Rightarrow> string" where
  "nat_to_string n =
     (if n < 10 then [char_of (48 + n)]
      else nat_to_string (n div 10) @ [char_of (48 + n mod 10)])"

declare nat_to_string.simps [simp del]

definition int_to_string :: "int \<Rightarrow> string" where
  "int_to_string i = (if i < 0 then ''-'' @ nat_to_string (nat (- i)) else nat_to_string (nat i))"

section \<open>Lemmas on strings\<close>

lemma c_str_no_NUL [str_simps]: "NUL \<notin> set s \<Longrightarrow> c_str s = s"
  unfolding c_str_def by (rule takeWhile_eq_all_conv [THEN iffD2]) blast

lemma NUL_notin_c_str: "NUL \<notin> set (c_str s)"
  by (auto simp: c_str_def dest: set_takeWhileD)

lemma c_str_idem [simp]: "c_str (c_str s) = c_str s"
  by (rule c_str_no_NUL, rule NUL_notin_c_str)

lemma c_str_append:
  "c_str (s @ t) = (if NUL \<in> set s then c_str s else s @ c_str t)"
  by (induction s) (auto simp: c_str_def)

lemma find_sub_SomeD:
  "find_sub p s = Some i \<Longrightarrow> i + length p \<le> length s \<and> prefix p (drop i s)"
proof (induction s arbitrary: i)
  case Nil
  then show ?case by (simp split: if_splits)
next
  case (Cons c s)
  show ?case
  proof (cases "prefix p (c # s)")
    case True
    with Cons.prems show ?thesis by (auto dest: prefix_length_le)
  next
    case False
    with Cons.prems obtain j where "find_sub p s = Some j" and "i = Suc j" by auto
    with Cons.IH show ?thesis by auto
  qed
qed

lemma find_sub_first: "find_sub p s = Some i \<Longrightarrow> j < i \<Longrightarrow> \<not> prefix p (drop j s)"
proof (induction s arbitrary: i j)
  case Nil
  then show ?case by (simp split: if_splits)
next
  case (Cons c s)
  then show ?case by (cases j) (auto split: if_splits)
qed

lemma find_sub_None_iff: "find_sub p s = None \<longleftrightarrow> \<not> sublist p s"
  by (induction s) (auto simp: sublist_Cons_right)

lemma find_sub_char:
  "find_sub [c] s = (if c \<in> set s then Some (length (takeWhile (\<lambda>x. x \<noteq> c) s)) else None)"
  by (induction s) auto

lemma str_find_0 [str_simps]: "str_find s p 0 = find_sub p s"
  by (cases "find_sub p s") (simp_all add: str_find_def)

lemma str_find_SomeD:
  "str_find s p pos = Some i \<Longrightarrow> pos \<le> i \<and> i + length p \<le> length s \<and> prefix p (drop i s)"
  by (auto simp: str_find_def add.commute dest!: find_sub_SomeD split: if_splits)

lemma find_last_of_None_iff: "find_last_of c s = None \<longleftrightarrow> c \<notin> set s"
  by (induction s) (auto split: option.splits)

lemma find_last_of_SomeD:
  "find_last_of c s = Some i \<Longrightarrow> i < length s \<and> s ! i = c \<and> c \<notin> set (drop (Suc i) s)"
proof (induction s arbitrary: i)
  case Nil
  then show ?case by simp
next
  case (Cons x xs)
  show ?case
  proof (cases "find_last_of c xs")
    case None
    with Cons.prems show ?thesis by (auto simp: find_last_of_None_iff split: if_splits)
  next
    case (Some j)
    with Cons show ?thesis by auto
  qed
qed

lemma find_last_of_append:
  "find_last_of c (s @ t) =
     (case find_last_of c t of Some i \<Rightarrow> Some (length s + i) | None \<Rightarrow> find_last_of c s)"
  by (induction s) (auto split: option.splits)

lemma tolower_ascii [simp]:
  "tolower SLASH = SLASH" "tolower (CHR ''.'') = CHR ''.''"
  by (simp_all add: tolower_def)

lemma of_char_less [simp]: "(of_char (c::char) :: nat) < 256"
  using nat_of_char_less_256 [of c] by simp

lemma of_char_of_small [simp]: "n < 256 \<Longrightarrow> (of_char (char_of n :: char) :: nat) = n"
  by (simp add: of_char_of take_bit_nat_eq_self)

lemma of_char_tolower:
  "(of_char (tolower c) :: nat) =
     (if 65 \<le> (of_char c :: nat) \<and> (of_char c :: nat) \<le> 90 then of_char c + 32 else of_char c)"
  unfolding tolower_def by (simp del: of_char_of)

lemma char_eq_nat_iff: "c = d \<longleftrightarrow> (of_char c :: nat) = of_char (d :: char)"
  by simp

lemma tolower_idem [simp]: "tolower (tolower c) = tolower c"
  unfolding char_eq_nat_iff of_char_tolower by simp

lemma tolower_eq_iff: "tolower c = SLASH \<longleftrightarrow> c = SLASH" "tolower c = CHR ''.'' \<longleftrightarrow> c = CHR ''.''"
  unfolding char_eq_nat_iff of_char_tolower by simp_all

lemma find_last_of_tolower:
  "find_last_of SLASH (map tolower s) = find_last_of SLASH s"
  "find_last_of (CHR ''.'') (map tolower s) = find_last_of (CHR ''.'') s"
  by (induction s) (auto simp: tolower_eq_iff split: option.splits)

lemma nat_to_string_nonempty [simp]: "nat_to_string n \<noteq> []"
  by (subst nat_to_string.simps) simp

lemma isdigit_char_of: "d < 10 \<Longrightarrow> isdigit (char_of (48 + d :: nat))"
  by (simp add: isdigit_def del: of_char_of)

lemma nat_to_string_digits: "c \<in> set (nat_to_string n) \<Longrightarrow> isdigit c"
proof (induction n rule: nat_to_string.induct)
  case (1 n)
  show ?case
  proof (cases "n < 10")
    case True
    with 1 show ?thesis by (simp add: nat_to_string.simps [of n] isdigit_char_of del: of_char_of)
  next
    case False
    with 1 show ?thesis
      by (auto simp: nat_to_string.simps [of n] isdigit_char_of del: of_char_of)
  qed
qed

text \<open>Reading a decimal numeral back, to state that \<open>to_string\<close> loses nothing.\<close>

definition digits_val :: "string \<Rightarrow> nat" where
  "digits_val s = foldl (\<lambda>a c. 10 * a + (of_char c - 48)) 0 s"

lemma digits_val_snoc: "digits_val (s @ [c]) = 10 * digits_val s + (of_char c - 48)"
  by (simp add: digits_val_def)

lemma digits_val_nat_to_string [simp]: "digits_val (nat_to_string n) = n"
proof (induction n rule: nat_to_string.induct)
  case (1 n)
  show ?case
  proof (cases "n < 10")
    case True
    then show ?thesis by (simp add: nat_to_string.simps [of n] digits_val_def del: of_char_of)
  next
    case False
    with 1 show ?thesis
      by (simp add: nat_to_string.simps [of n] digits_val_snoc del: of_char_of)
  qed
qed

lemma nat_to_string_inject [simp]: "nat_to_string m = nat_to_string n \<longleftrightarrow> m = n"
  by (metis digits_val_nat_to_string)

section \<open>Invariants of step relations\<close>

text \<open>An invariant that holds at the start and is kept by every step holds wherever steps lead.\<close>

locale inv_system =
  fixes init :: 's and trans :: "'s \<Rightarrow> 's \<Rightarrow> bool" and inv :: "'s \<Rightarrow> bool"
  assumes inv_init: "inv init"
    and inv_step: "trans s t \<Longrightarrow> inv s \<Longrightarrow> inv t"
begin

lemma inv_steps: "trans\<^sup>*\<^sup>* s t \<Longrightarrow> inv s \<Longrightarrow> inv t"
  by (induction rule: rtranclp_induct) (auto intro: inv_step)

lemma inv_reachable: "trans\<^sup>*\<^sup>* init t \<Longrightarrow> inv t"
  using inv_steps inv_init by blast

end

text \<open>A system whose steps, from the states of an invariant on, are bounded by a measure.\<close>

locale draining_system =
  fixes trans :: "'s \<Rightarrow> 's \<Rightarrow> bool" and inv :: "'s \<Rightarrow> bool" and work :: "'s \<Rightarrow> nat"
    and final :: "'s \<Rightarrow> bool"
  assumes drain_inv: "inv s \<Longrightarrow> trans s t \<Longrightarrow> inv t"
    and drain_less: "inv s \<Longrightarrow> trans s t \<Longrightarrow> work t < work s"
    and drain_progress: "inv s \<Longrightarrow> \<not> final s \<Longrightarrow> \<exists>t. trans s t"
begin

lemma steps_bounded: "(trans ^^ n) s t \<Longrightarrow> inv s \<Longrightarrow> inv t \<and> work t + n \<le> work s"
proof (induction n arbitrary: t)
  case 0
  then show ?case by simp
next
  case (Suc n)
  then obtain u where u: "(trans ^^ n) s u" "trans u t" by auto
  with Suc have "inv u \<and> work u + n \<le> work s" by simp
  with u(2) drain_inv [of u t] drain_less [of u t] show ?case by simp
qed

lemma stuck_final: "inv s \<Longrightarrow> \<nexists>t. trans s t \<Longrightarrow> final s"
  using drain_progress by blast

lemma reaches_final: "inv s \<Longrightarrow> \<exists>t. trans\<^sup>*\<^sup>* s t \<and> final t"
proof (induction "work s" arbitrary: s rule: less_induct)
  case less
  show ?case
  proof (cases "final s")
    case False
    then obtain u where "trans s u" using less.prems drain_progress by blast
    with less show ?thesis
      using drain_inv drain_less by (meson converse_rtranclp_into_rtranclp)
  qed blast
qed

end

end
