(* ===== verification/Std_Map.thy ===== *)
theory Std_Map
  imports Prelude
begin

text \<open>
  \<open>std::map<std::string, std::string>\<close>, the container of headers, query, params and form data.
  It is iterated in key order by the sources, so it is modelled by the list of its entries in
  that order (the order of \<open>std::less<std::string>\<close>, which compares bytes as unsigned), with the
  operations the code uses: \<open>m[k] = v\<close>, \<open>m.find(k)\<close>, \<open>m.erase(k)\<close>. The interface the clients
  rely on is the locale \<open>kv_store\<close>; \<open>kv_store_canonical\<close> adds that two stores with the same
  content are the same value, which is what undoing a binding needs.
\<close>

lemma map_of_map_prod [simp]: "map_of (map (map_prod id f) xs) k = map_option f (map_of xs k)"
  by (induction xs) auto

section \<open>The interface\<close>

locale kv_store =
  fixes empty :: 'm
    and get :: "'m \<Rightarrow> 'k \<Rightarrow> 'v option"
    and put :: "'k \<Rightarrow> 'v \<Rightarrow> 'm \<Rightarrow> 'm"
    and del :: "'k \<Rightarrow> 'm \<Rightarrow> 'm"
    and invar :: "'m \<Rightarrow> bool"
  assumes get_empty: "get empty = Map.empty"
    and get_put: "invar m \<Longrightarrow> get (put k v m) = (get m)(k \<mapsto> v)"
    and get_del: "invar m \<Longrightarrow> get (del k m) = (get m)(k := None)"
    and invar_empty: "invar empty"
    and invar_put: "invar m \<Longrightarrow> invar (put k v m)"
    and invar_del: "invar m \<Longrightarrow> invar (del k m)"
begin

lemma invar_put_all: "invar m \<Longrightarrow> invar (fold (\<lambda>(k, v). put k v) kvs m)"
  by (induction kvs arbitrary: m) (auto simp: invar_put)

lemma get_put_all:
  "invar m \<Longrightarrow> get (fold (\<lambda>(k, v). put k v) kvs m) = get m ++ map_of (rev kvs)"
proof (induction kvs arbitrary: m)
  case Nil
  then show ?case by simp
next
  case (Cons kv kvs)
  obtain k v where kv: "kv = (k, v)" by (cases kv)
  from Cons.prems have "invar (put k v m)" by (rule invar_put)
  with Cons.IH [of "put k v m"] Cons.prems kv show ?case
    by (simp add: get_put map_add_def fun_eq_iff split: option.splits)
qed

lemma get_put_all_unchanged:
  "invar m \<Longrightarrow> k \<notin> fst ` set kvs \<Longrightarrow> get (fold (\<lambda>(k, v). put k v) kvs m) k = get m k"
  using map_of_eq_None_iff [of "rev kvs" k]
  by (simp add: get_put_all map_add_def split: option.splits)

end

locale kv_store_canonical = kv_store +
  assumes get_inject: "invar m \<Longrightarrow> invar m' \<Longrightarrow> get m = get m' \<Longrightarrow> m = m'"
begin

lemma put_put: "invar m \<Longrightarrow> put k v (put k w m) = put k v m"
  by (rule get_inject) (simp_all add: invar_put get_put)

lemma put_same: "invar m \<Longrightarrow> get m k = Some v \<Longrightarrow> put k v m = m"
  by (rule get_inject) (simp_all add: invar_put get_put fun_upd_idem)

lemma put_commute: "invar m \<Longrightarrow> k \<noteq> l \<Longrightarrow> put k v (put l w m) = put l w (put k v m)"
  by (rule get_inject) (simp_all add: invar_put get_put fun_upd_twist)

text \<open>Undoing a binding: put back the value that was there, or erase the key that was not.\<close>

lemma undo_bound: "invar m \<Longrightarrow> get m k = Some v \<Longrightarrow> put k v (put k w m) = m"
  by (simp add: put_put put_same)

lemma undo_unbound: "invar m \<Longrightarrow> get m k = None \<Longrightarrow> del k (put k w m) = m"
  by (rule get_inject) (auto simp: invar_put invar_del get_put get_del fun_eq_iff)

end

section \<open>The ordered map\<close>

type_synonym ('k, 'v) smap = "('k \<times> 'v) list"
type_synonym strmap = "(string, string) smap"

text \<open>\<open>m[k] = v\<close>\<close>

fun smap_set :: "'k::linorder \<Rightarrow> 'v \<Rightarrow> ('k, 'v) smap \<Rightarrow> ('k, 'v) smap" where
  "smap_set k v [] = [(k, v)]"
| "smap_set k v ((k', v') # m) =
     (if k < k' then (k, v) # (k', v') # m
      else if k = k' then (k, v) # m
      else (k', v') # smap_set k v m)"

text \<open>\<open>m.erase(k)\<close>\<close>

fun smap_erase :: "'k::linorder \<Rightarrow> ('k, 'v) smap \<Rightarrow> ('k, 'v) smap" where
  "smap_erase k [] = []"
| "smap_erase k ((k', v') # m) = (if k = k' then m else (k', v') # smap_erase k m)"

text \<open>\<open>m.find(k)\<close>; \<^term>\<open>None\<close> is \<open>m.end()\<close>.\<close>

definition smap_get :: "('k::linorder, 'v) smap \<Rightarrow> 'k \<Rightarrow> 'v option" where
  "smap_get m k = map_of m k"

definition smap_ok :: "('k::linorder, 'v) smap \<Rightarrow> bool" where
  "smap_ok m \<longleftrightarrow> sorted_wrt (<) (map fst m)"

text \<open>\<open>m[k]\<close> read as an rvalue inserts an empty string under a missing key.\<close>

definition smap_index :: "string \<Rightarrow> strmap \<Rightarrow> string \<times> strmap" where
  "smap_index k m =
     (case smap_get m k of Some v \<Rightarrow> (v, m) | None \<Rightarrow> ([], smap_set k [] m))"

definition smap_of :: "('k::linorder \<times> 'v) list \<Rightarrow> ('k, 'v) smap" where
  "smap_of kvs = fold (\<lambda>(k, v). smap_set k v) kvs []"

lemma fst_set_smap_set: "fst ` set (smap_set k v m) = insert k (fst ` set m)"
  by (induction k v m rule: smap_set.induct) auto

lemma set_smap_set: "set (smap_set k v m) \<subseteq> insert (k, v) (set m)"
  by (induction k v m rule: smap_set.induct) auto

lemma fst_set_smap_erase: "fst ` set (smap_erase k m) \<subseteq> fst ` set m"
  by (induction k m rule: smap_erase.induct) auto

lemma smap_ok_Cons:
  "smap_ok ((k, v) # m) \<longleftrightarrow> (\<forall>x \<in> fst ` set m. k < x) \<and> smap_ok m"
  by (simp add: smap_ok_def)

lemma smap_ok_Nil [simp]: "smap_ok []"
  by (simp add: smap_ok_def)

lemma smap_ok_set [simp]: "smap_ok m \<Longrightarrow> smap_ok (smap_set k v m)"
  by (induction k v m rule: smap_set.induct) (auto simp: smap_ok_Cons fst_set_smap_set)

lemma smap_ok_erase [simp]: "smap_ok m \<Longrightarrow> smap_ok (smap_erase k m)"
  by (induction k m rule: smap_erase.induct)
    (use fst_set_smap_erase in \<open>fastforce simp: smap_ok_Cons\<close>)+

lemma smap_get_set [simp]: "smap_get (smap_set k v m) k' = (if k' = k then Some v else smap_get m k')"
  by (induction k v m rule: smap_set.induct) (auto simp: smap_get_def)

lemma smap_get_notin: "k \<notin> fst ` set m \<Longrightarrow> smap_get m k = None"
  by (simp add: smap_get_def map_of_eq_None_iff)

lemma smap_get_erase [simp]:
  "smap_ok m \<Longrightarrow> smap_get (smap_erase k m) k' = (if k' = k then None else smap_get m k')"
proof (induction k m rule: smap_erase.induct)
  case (1 k)
  then show ?case by (simp add: smap_get_def)
next
  case (2 k k1 v1 m)
  from 2 have "k = k1 \<Longrightarrow> smap_get m k = None"
    by (intro smap_get_notin) (auto simp: smap_ok_Cons)
  with 2 show ?case by (auto simp: smap_ok_Cons smap_get_def)
qed

lemma smap_get_Nil [simp]: "smap_get [] k = None"
  by (simp add: smap_get_def)

lemma dom_smap_get: "dom (smap_get m) = fst ` set m"
  by (simp add: smap_get_def [abs_def] dom_map_of_conv_image_fst)

lemma smap_ok_distinct: "smap_ok m \<Longrightarrow> distinct (map fst m)"
  unfolding smap_ok_def by (induction m) auto

lemma smap_mem_iff: "smap_ok m \<Longrightarrow> kv \<in> set m \<longleftrightarrow> smap_get m (fst kv) = Some (snd kv)"
  using smap_ok_distinct [of m] by (cases kv) (simp add: smap_get_def)

lemma smap_ok_inject:
  assumes "smap_ok m" and "smap_ok m'" and "smap_get m = smap_get m'"
  shows "m = m'"
proof (rule map_sorted_distinct_set_unique [of fst])
  from assms show set_eq: "set m = set m'"
    by (auto simp: smap_mem_iff)
  show "inj_on fst (set m \<union> set m')"
    using smap_ok_distinct [OF assms(1)] set_eq by (simp add: distinct_map)
  show "sorted (map fst m)" "sorted (map fst m')"
    using assms unfolding smap_ok_def by (simp_all add: strict_sorted_iff)
  show "distinct (map fst m)" "distinct (map fst m')"
    using assms smap_ok_distinct by blast+
qed

interpretation smap: kv_store_canonical
  "[] :: ('k::linorder, 'v) smap" smap_get smap_set smap_erase smap_ok
  by unfold_locales (auto simp: fun_eq_iff intro: smap_ok_inject)

lemma smap_ok_of [simp]: "smap_ok (smap_of kvs)"
  unfolding smap_of_def by (rule smap.invar_put_all) simp

lemma smap_get_of: "smap_get (smap_of kvs) = map_of (rev kvs)"
  unfolding smap_of_def by (subst smap.get_put_all) (simp_all add: smap.get_empty)

lemma smap_index_Some: "smap_get m k = Some v \<Longrightarrow> smap_index k m = (v, m)"
  by (simp add: smap_index_def)

lemma smap_index_fst: "fst (smap_index k m) = (case smap_get m k of Some v \<Rightarrow> v | None \<Rightarrow> [])"
  by (simp add: smap_index_def split: option.splits)

lemma smap_ok_index: "smap_ok m \<Longrightarrow> smap_ok (snd (smap_index k m))"
  by (simp add: smap_index_def split: option.splits)

section \<open>The size of a map's content\<close>

text \<open>Bytes held by the keys and values, for the memory bounds of the parser.\<close>

definition smap_bytes :: "strmap \<Rightarrow> nat" where
  "smap_bytes m = sum_list (map (\<lambda>(k, v). length k + length v) m)"

lemma smap_bytes_set: "smap_bytes (smap_set k v m) \<le> smap_bytes m + length k + length v"
  by (induction k v m rule: smap_set.induct) (auto simp: smap_bytes_def)

lemma smap_bytes_Nil [simp]: "smap_bytes [] = 0"
  by (simp add: smap_bytes_def)

end
