(* ===== verification/Utils.thy ===== *)
theory Utils
  imports Prelude
begin

text \<open>
  \<open>Utils\<close> (\<open>include/PlusWeb/utils.h\<close>, \<open>src/utils.cpp\<close>): splitting, percent-decoding and
  -encoding, MIME types by extension, reading a file.
\<close>

section \<open>split\<close>

text \<open>
  The loop over \<open>str.find(delimiter, start)\<close>, with \<open>parts\<close> as its accumulator. The code
  returns before the loop when the delimiter is empty, so that guard only makes the
  definition total.
\<close>

function split_loop :: "string \<Rightarrow> string \<Rightarrow> nat \<Rightarrow> string list \<Rightarrow> string list" where
  "split_loop str delimiter start parts =
     (if delimiter = [] then parts
      else case str_find str delimiter start of
        Some stop \<Rightarrow>
          let token = substr str start (stop - start) in
          split_loop str delimiter (stop + length delimiter)
            (if token \<noteq> [] then parts @ [token] else parts)
      | None \<Rightarrow>
          let remaining = drop start str in
          if remaining \<noteq> [] then parts @ [remaining] else parts)"
  by pat_completeness auto
termination
proof (relation "measure (\<lambda>(str, delimiter, start, parts). length str - start)", goal_cases)
  case 1
  show ?case by simp
next
  case (2 str delimiter start parts stop token)
  then have "start \<le> stop" and "stop + length delimiter \<le> length str" and "0 < length delimiter"
    by (auto dest: str_find_SomeD)
  then show ?case unfolding in_measure prod.case by linarith
qed

declare split_loop.simps [simp del]

text \<open>\<open>Utils::split(buffer, delim)\<close>: both arguments are C strings.\<close>

definition split :: "string \<Rightarrow> string \<Rightarrow> string list" where
  "split buffer delim =
     (let str = c_str buffer; delimiter = c_str delim in
      if str = [] \<or> delimiter = []
      then (if str \<noteq> [] then [str] else [])
      else split_loop str delimiter 0 [])"

text \<open>The reference: the non-empty fields between the separator characters.\<close>

fun tokens_aux :: "char \<Rightarrow> string \<Rightarrow> string \<Rightarrow> string list" where
  "tokens_aux d acc [] = (if acc = [] then [] else [acc])"
| "tokens_aux d acc (c # cs) =
     (if c = d then (if acc = [] then [] else [acc]) @ tokens_aux d [] cs
      else tokens_aux d (acc @ [c]) cs)"

abbreviation tokens :: "char \<Rightarrow> string \<Rightarrow> string list" where
  "tokens d s \<equiv> tokens_aux d [] s"

lemma tokens_aux_no_sep: "d \<notin> set s \<Longrightarrow> tokens_aux d acc s = (if acc @ s = [] then [] else [acc @ s])"
  by (induction s arbitrary: acc) auto

lemma tokens_aux_sep:
  "d \<notin> set s \<Longrightarrow> tokens_aux d acc (s @ d # t) =
     (if acc @ s = [] then [] else [acc @ s]) @ tokens d t"
  by (induction s arbitrary: acc) auto

lemma str_find_char:
  assumes "start \<le> length s"
  shows "str_find s [d] start =
    (if d \<in> set (drop start s)
     then Some (start + length (takeWhile (\<lambda>x. x \<noteq> d) (drop start s))) else None)"
  using assms by (simp add: str_find_def find_sub_char)

lemma split_loop_tokens:
  "start \<le> length s \<Longrightarrow> split_loop s [d] start parts = parts @ tokens d (drop start s)"
proof (induction s "[d]" start parts rule: split_loop.induct)
  case (1 str start parts)
  show ?case
  proof (cases "d \<in> set (drop start str)")
    case False
    with 1 show ?thesis
      by (simp add: split_loop.simps [of str] str_find_char tokens_aux_no_sep Let_def)
  next
    case True
    then obtain t rest where dec: "drop start str = t @ d # rest" and t: "d \<notin> set t"
      by (meson split_list_first)
    let ?stop = "start + length t"
    let ?parts = "if t \<noteq> [] then parts @ [t] else parts"
    from t have "takeWhile (\<lambda>x. x \<noteq> d) (drop start str) = t"
      by (simp add: dec takeWhile_append)
    with True "1.prems" have found: "str_find str [d] start = Some ?stop"
      by (simp add: str_find_char)
    then have bound: "?stop + length [d] \<le> length str"
      by (auto dest: str_find_SomeD)
    have rest: "drop (?stop + length [d]) str = rest"
      using arg_cong [OF dec, of "drop (Suc (length t))"] by (simp add: add.commute)
    have token: "substr str start (?stop - start) = t"
      by (simp add: substr_def dec)
    have "split_loop str [d] start parts = split_loop str [d] (?stop + length [d]) ?parts"
      using found token by (simp add: split_loop.simps [of str "[d]" start] Let_def)
    also have "\<dots> = ?parts @ tokens d (drop (?stop + length [d]) str)"
      using "1.hyps" [OF _ found refl, unfolded token] bound by blast
    also have "\<dots> = parts @ tokens d (drop start str)"
      unfolding rest dec using t by (simp add: tokens_aux_sep)
    finally show ?thesis .
  qed
qed

lemma split_eq_tokens: "d \<noteq> NUL \<Longrightarrow> split s [d] = tokens d (c_str s)"
  by (simp add: split_def split_loop_tokens c_str_no_NUL Let_def)

lemma tokens_aux_tokens:
  "t \<in> set (tokens_aux d acc s) \<Longrightarrow> d \<notin> set acc \<Longrightarrow> t \<noteq> [] \<and> d \<notin> set t \<and> set t \<subseteq> set acc \<union> set s"
  by (induction d acc s rule: tokens_aux.induct) (fastforce split: if_splits)+

lemma split_tokens:
  "d \<noteq> NUL \<Longrightarrow> t \<in> set (split s [d]) \<Longrightarrow> t \<noteq> [] \<and> d \<notin> set t \<and> NUL \<notin> set t"
  using tokens_aux_tokens [of t d "[]" "c_str s"] NUL_notin_c_str [of s]
  by (auto simp: split_eq_tokens)

text \<open>Joining with a separator in front of every part, as a path is written.\<close>

definition join_path :: "char \<Rightarrow> string list \<Rightarrow> string" where
  "join_path d parts = concat (map (\<lambda>p. d # p) parts)"

lemma tokens_aux_join:
  "(\<forall>p \<in> set ps. p \<noteq> [] \<and> d \<notin> set p) \<Longrightarrow> d \<notin> set acc \<Longrightarrow>
   tokens_aux d acc (join_path d ps) = (if acc = [] then [] else [acc]) @ ps"
proof (induction ps arbitrary: acc)
  case Nil
  then show ?case by (simp add: join_path_def)
next
  case (Cons p ps)
  have "tokens_aux d p (join_path d ps) = p # ps"
    using Cons.IH [of p] Cons.prems by simp
  moreover have "tokens_aux d [] (p @ join_path d ps) = tokens_aux d p (join_path d ps)"
  proof -
    have "d \<notin> set q \<Longrightarrow> tokens_aux d a (q @ r) = tokens_aux d (a @ q) r" for a q r
      by (induction q arbitrary: a) auto
    from this [of p "[]"] Cons.prems show ?thesis by simp
  qed
  ultimately show ?case by (simp add: join_path_def)
qed

lemma tokens_append_sep: "tokens_aux d acc (s @ d # t) = tokens_aux d acc s @ tokens d t"
  by (induction s arbitrary: acc) auto

section \<open>from_hex, url_decode, urlEncode\<close>

definition byte_of :: "char \<Rightarrow> 8 word" where
  "byte_of c = of_nat (of_char c)"

definition char_of_byte :: "8 word \<Rightarrow> char" where
  "char_of_byte b = char_of (unat b)"

text \<open>
  \<open>isdigit(ch) ? ch - '0' : tolower(ch) - 'a' + 10\<close>, returned as a \<open>char\<close>: the arithmetic is
  modulo 256, whatever the character is.
\<close>

definition from_hex :: "char \<Rightarrow> 8 word" where
  "from_hex ch = (if isdigit ch then byte_of ch - 48 else byte_of (tolower ch) - 97 + 10)"

text \<open>
  The iteration over \<open>text\<close>: \<open>i[1]\<close> and \<open>i[2]\<close> read the terminating NUL at the end of the
  string, so a percent sign with fewer than two characters behind it (or with a NUL there) is
  dropped and the scan goes on behind it.
\<close>

fun url_decode :: "string \<Rightarrow> string" where
  "url_decode [] = []"
| "url_decode (c # cs) =
     (if c = CHR ''%'' then
        (case cs of
           a # b # rest \<Rightarrow>
             if a \<noteq> NUL \<and> b \<noteq> NUL
             then char_of_byte (push_bit 4 (from_hex a) OR from_hex b) # url_decode rest
             else url_decode cs
         | _ \<Rightarrow> url_decode cs)
      else if c = CHR ''+'' then CHR '' '' # url_decode cs
      else c # url_decode cs)"

definition hex_digit :: "nat \<Rightarrow> char" where
  "hex_digit d = (if d < 10 then char_of (48 + d) else char_of (55 + d))"

definition unreserved :: "char \<Rightarrow> bool" where
  "unreserved c \<longleftrightarrow> (let ascii = (of_char c :: nat) in
     (48 \<le> ascii \<and> ascii \<le> 57) \<or> (65 \<le> ascii \<and> ascii \<le> 90) \<or> (97 \<le> ascii \<and> ascii \<le> 122) \<or>
     ascii = 45 \<or> ascii = 46 \<or> ascii = 95 \<or> ascii = 126)"

text \<open>\<open>std::uppercase << std::hex << std::setw(2) << std::setfill('0')\<close> of a byte: two digits.\<close>

definition encode_char :: "char \<Rightarrow> string" where
  "encode_char c =
     (if unreserved c then [c]
      else [CHR ''%'', hex_digit (of_char c div 16), hex_digit (of_char c mod 16)])"

definition urlEncode :: "string \<Rightarrow> string" where
  "urlEncode input = concat (map encode_char input)"

lemma hex_digit_not_NUL: "d < 16 \<Longrightarrow> hex_digit d \<noteq> NUL"
  by (simp add: hex_digit_def char_eq_nat_iff)

lemma from_hex_digit: "d < 16 \<Longrightarrow> from_hex (hex_digit d) = of_nat d"
  unfolding from_hex_def hex_digit_def byte_of_def isdigit_def of_char_tolower
  by (auto simp del: of_char_of)

lemma nibbles_nat: "push_bit 4 (n div 16) OR (n mod 16) = (n::nat)"
proof -
  have "push_bit 4 (drop_bit 4 n) OR take_bit 4 n = n"
    by (rule bit_eqI) (auto simp: bit_simps)
  then show ?thesis by (simp add: drop_bit_eq_div take_bit_eq_mod)
qed

lemma hex_pair:
  assumes "n < 256"
  shows "char_of_byte (push_bit 4 (from_hex (hex_digit (n div 16))) OR from_hex (hex_digit (n mod 16)))
           = char_of n"
proof -
  have "push_bit 4 (of_nat (n div 16)) OR of_nat (n mod 16) = (of_nat n :: 8 word)"
    using nibbles_nat [of n] by (metis of_nat_or_eq push_bit_of_nat)
  with assms show ?thesis
    by (simp add: from_hex_digit char_of_byte_def unat_of_nat)
qed

lemma encode_char_cases:
  obtains (plain) "unreserved c" "encode_char c = [c]" "c \<noteq> CHR ''%''" "c \<noteq> CHR ''+''"
  | (escaped) "encode_char c =
      [CHR ''%'', hex_digit (of_char c div 16), hex_digit (of_char c mod 16)]"
      "hex_digit (of_char c div 16) \<noteq> NUL" "hex_digit (of_char c mod 16) \<noteq> NUL"
proof (cases "unreserved c")
  case True
  then have "c \<noteq> CHR ''%''" and "c \<noteq> CHR ''+''"
    by (auto simp: unreserved_def Let_def)
  with True show ?thesis by (intro plain) (simp_all add: encode_char_def)
next
  case False
  have "(of_char c :: nat) div 16 < 16" using of_char_less [of c] by linarith
  with False show ?thesis by (intro escaped) (simp_all add: encode_char_def hex_digit_not_NUL)
qed

lemma url_decode_encode_char: "url_decode (encode_char c @ s) = c # url_decode s"
  by (cases c rule: encode_char_cases) (simp_all add: hex_pair)

text \<open>A decoder that inverts an encoder; what follows for every such pair.\<close>

locale codec =
  fixes enc :: "'a \<Rightarrow> 'b" and dec :: "'b \<Rightarrow> 'a"
  assumes dec_enc: "dec (enc x) = x"
begin

lemma enc_inject: "enc x = enc y \<longleftrightarrow> x = y"
  by (metis dec_enc)

lemma enc_dec_on_range: "y \<in> range enc \<Longrightarrow> enc (dec y) = y"
  by (auto simp: dec_enc)

end

interpretation uri: codec urlEncode url_decode
proof
  show "url_decode (urlEncode s) = s" for s
    by (induction s) (simp_all add: urlEncode_def url_decode_encode_char)
qed

interpretation decimal: codec nat_to_string digits_val
  by unfold_locales simp

lemma url_decode_plain_append:
  "CHR ''%'' \<notin> set s \<Longrightarrow> CHR ''+'' \<notin> set s \<Longrightarrow> url_decode (s @ t) = s @ url_decode t"
  by (induction s) auto

lemma url_decode_plain:
  "CHR ''%'' \<notin> set s \<Longrightarrow> CHR ''+'' \<notin> set s \<Longrightarrow> url_decode s = s"
  using url_decode_plain_append [of s "[]"] by simp

section \<open>mimeTypeFor\<close>

definition kMimeTypes :: "(string \<times> string) list" where
  "kMimeTypes =
    [(''.txt'', ''text/plain''), (''.html'', ''text/html''), (''.htm'', ''text/html''),
     (''.css'', ''text/css''), (''.js'', ''application/javascript''),
     (''.mjs'', ''application/javascript''), (''.json'', ''application/json''),
     (''.xml'', ''text/xml''), (''.csv'', ''text/csv''), (''.md'', ''text/markdown''),
     (''.jpg'', ''image/jpeg''), (''.jpeg'', ''image/jpeg''), (''.png'', ''image/png''),
     (''.gif'', ''image/gif''), (''.svg'', ''image/svg+xml''), (''.webp'', ''image/webp''),
     (''.ico'', ''image/x-icon''), (''.mp3'', ''audio/mpeg''), (''.wav'', ''audio/wav''),
     (''.ogg'', ''audio/ogg''), (''.mp4'', ''video/mp4''), (''.webm'', ''video/webm''),
     (''.pdf'', ''application/pdf''), (''.zip'', ''application/zip''),
     (''.gz'', ''application/gzip''), (''.tar'', ''application/x-tar''),
     (''.ttf'', ''font/ttf''), (''.otf'', ''font/otf''), (''.woff'', ''font/woff''),
     (''.woff2'', ''font/woff2''), (''.wasm'', ''application/wasm''),
     (''.yaml'', ''application/x-yaml''), (''.yml'', ''application/x-yaml'')]"

definition mimeTypeFor :: "string \<Rightarrow> string" where
  "mimeTypeFor path =
     (let filename = (case find_last_of SLASH path of
                        None \<Rightarrow> path | Some slash \<Rightarrow> drop (slash + 1) path)
      in case find_last_of (CHR ''.'') filename of
           None \<Rightarrow> ''application/octet-stream''
         | Some dot \<Rightarrow>
             let ext = map tolower (drop dot filename) in
             (case map_of kMimeTypes ext of
                None \<Rightarrow> ''application/octet-stream'' | Some mime \<Rightarrow> mime))"

lemma mimeTypeFor_basename: "mimeTypeFor (dir @ SLASH # file) = mimeTypeFor file"
proof (cases "find_last_of SLASH file")
  case None
  then have "find_last_of SLASH (dir @ SLASH # file) = Some (length dir)"
    by (simp add: find_last_of_append)
  with None show ?thesis by (simp add: mimeTypeFor_def)
next
  case (Some i)
  then have "find_last_of SLASH (dir @ SLASH # file) = Some (length dir + Suc i)"
    by (simp add: find_last_of_append)
  with Some show ?thesis by (simp add: mimeTypeFor_def)
qed

lemma mimeTypeFor_tolower: "mimeTypeFor (map tolower path) = mimeTypeFor path"
  unfolding mimeTypeFor_def
  by (simp add: find_last_of_tolower drop_map Let_def comp_def split: option.splits)

section \<open>readFile\<close>

text \<open>The file system is a parameter: the content of each path that can be opened.\<close>

definition readFile :: "(string \<Rightarrow> 8 word list option) \<Rightarrow> string \<Rightarrow> 8 word list \<Rightarrow> bool \<times> 8 word list" where
  "readFile fs path out =
     (case fs path of None \<Rightarrow> (False, out) | Some bytes \<Rightarrow> (True, bytes))"

section \<open>Properties\<close>

lemma encode_char_chars:
  "set (encode_char c) \<subseteq> {x. unreserved x} \<union> {CHR ''%''}"
proof -
  have "unreserved (hex_digit d)" if "d < 16" for d
    using that by (simp add: hex_digit_def unreserved_def Let_def)
  moreover have "of_char c div 16 < (16 :: nat)"
    using of_char_less [of c] by (simp add: less_mult_imp_div_less)
  ultimately show ?thesis by (simp add: encode_char_def)
qed

text \<open>
  C35: Decoding an encoded string gives the string back, for every string, and an encoded string
  consists of unreserved characters and percent signs only.
\<close>

theorem urlEncode_roundtrip:
  "url_decode (urlEncode s) = s \<and> set (urlEncode s) \<subseteq> {c. unreserved c} \<union> {CHR ''%''}"
proof
  show "url_decode (urlEncode s) = s" by (rule uri.dec_enc)
  show "set (urlEncode s) \<subseteq> {c. unreserved c} \<union> {CHR ''%''}"
    unfolding urlEncode_def using encode_char_chars by (induction s) fastforce+
qed

text \<open>
  Splitting a path written with a slash in front of every segment gives the segments back,
  when they are non-empty and contain neither a slash nor a NUL.
\<close>

theorem split_join_path:
  assumes "\<forall>p \<in> set ps. p \<noteq> [] \<and> SLASH \<notin> set p \<and> NUL \<notin> set p"
  shows "split (join_path SLASH ps) ''/'' = ps"
proof -
  have "NUL \<notin> set (join_path SLASH ps)" using assms by (auto simp: join_path_def)
  then show ?thesis
    using assms tokens_aux_join [of ps SLASH "[]"] by (simp add: split_eq_tokens c_str_no_NUL)
qed

theorem split_join_path_witness:
  "split (join_path SLASH [''users'', ''42'']) ''/'' = [''users'', ''42'']"
  by (rule split_join_path) simp

text \<open>
  The search loop of \<open>split\<close> computes what one pass over the C string computes: the
  non-empty fields between separators, in order.
\<close>

theorem split_reference:
  assumes "d \<noteq> NUL"
  shows "split s [d] = tokens d (c_str s)"
  using assms by (rule split_eq_tokens)

theorem split_reference_witness:
  "split ''/a//b/'' ''/'' = tokens SLASH (c_str ''/a//b/'')"
  by (rule split_reference) simp

text \<open>
  The MIME type depends on the last path component only, and not on its case.
\<close>

theorem mimeTypeFor_last_component:
  "mimeTypeFor (dir @ SLASH # map tolower file) = mimeTypeFor file"
  by (simp add: mimeTypeFor_basename mimeTypeFor_tolower)

end
