(* ===== verification/Routing_Trie.thy ===== *)
theory Routing_Trie
  imports Std_Map Utils "HOL-Library.AList"
begin

text \<open>
  The routing trie (\<open>include/PlusWeb/trie.h\<close>, \<open>src/trie.cpp\<close>): the nodes, insertion of a route,
  the backtracking search, and the specification they meet. A trie denotes a partial map from
  \<^emph>\<open>patterns\<close> (lists of literal and parameter segments) to handlers; insertion updates that map
  at one pattern, and the search returns the handler of the least pattern that matches the
  path, in the order that puts a literal segment before a parameter segment.
\<close>

section \<open>Nodes\<close>

text \<open>
  \<open>handler\<close> is a \<open>std::function\<close>, which may be empty. The children are an unordered map; the
  order of the list is the order of insertion and nothing depends on it.
\<close>

datatype 'h node =
  Node (nvalue: string) (isLeaf: bool) (children: "(string \<times> 'h node) list")
    (paramChild: "'h node option") (handler: "'h option") (isParameter: bool)
    (parameterName: string)

text \<open>\<open>Node()\<close> and \<open>Node(std::string v)\<close>.\<close>

definition empty_node :: "'h node" where
  "empty_node = Node [] True [] None None False []"

definition new_node :: "string \<Rightarrow> 'h node" where
  "new_node v =
     (if v \<noteq> [] \<and> hd v = COLON then Node v False [] None None True (tl v)
      else Node v False [] None None False [])"

section \<open>Insertion\<close>

text \<open>
  \<open>insertChild(node, segment)\<close> returns a pointer to the child that \<open>insert\<close> goes on to mutate.
  Here the continuation \<open>k\<close> is what happens to the node behind that pointer, and the result is
  the whole updated \<open>node\<close>.
\<close>

fun insertChild :: "'h node \<Rightarrow> string \<Rightarrow> ('h node \<Rightarrow> 'h node) \<Rightarrow> 'h node" where
  "insertChild (Node v leaf cs pc h isp pn) segment k =
     (if segment = [] then k (Node v leaf cs pc h isp pn)
      else if hd segment = COLON then
        (case pc of
           None \<Rightarrow> Node v False cs (Some (k (new_node segment))) h isp pn
         | Some p \<Rightarrow> Node v leaf cs (Some (k p)) h isp pn)
      else
        (case map_of cs segment of
           Some existing \<Rightarrow> Node v leaf (AList.update segment (k existing) cs) pc h isp pn
         | None \<Rightarrow> Node v False (AList.update segment (k (new_node segment)) cs) pc h isp pn))"

fun insert_segments :: "'h node \<Rightarrow> string list \<Rightarrow> 'h option \<Rightarrow> 'h node" where
  "insert_segments (Node v leaf cs pc h isp pn) [] func = Node v True cs pc func isp pn"
| "insert_segments cur (segment # segments) func =
     insertChild cur segment (\<lambda>child. insert_segments child segments func)"

definition node_insert :: "'h node \<Rightarrow> string \<Rightarrow> 'h option \<Rightarrow> 'h node" where
  "node_insert cur path func = insert_segments cur (split path ''/'') func"

section \<open>Search\<close>

text \<open>
  \<open>findFrom(node, segments, index, params)\<close>; the list is \<open>segments\<close> from \<open>index\<close> on, and the
  reference parameter \<open>params\<close> is passed in and handed back.
\<close>

fun findFrom :: "'h node \<Rightarrow> string list \<Rightarrow> strmap \<Rightarrow> 'h node option \<times> strmap" where
  "findFrom node [] params = (if handler node \<noteq> None then Some node else None, params)"
| "findFrom node (segment # segments) params =
     (case (case map_of (children node) segment of
              Some literal \<Rightarrow> findFrom literal segments params
            | None \<Rightarrow> (None, params)) of
        (Some hit, params1) \<Rightarrow> (Some hit, params1)
      | (None, params1) \<Rightarrow>
          (case paramChild node of
             None \<Rightarrow> (None, params1)
           | Some child \<Rightarrow>
               let name = parameterName child; previous = smap_get params1 name in
               (case findFrom child segments (smap_set name segment params1) of
                  (Some hit, params2) \<Rightarrow> (Some hit, params2)
                | (None, params2) \<Rightarrow>
                    (None, case previous of
                             Some saved \<Rightarrow> smap_set name saved params2
                           | None \<Rightarrow> smap_erase name params2))))"

definition node_find :: "'h node \<Rightarrow> string \<Rightarrow> strmap \<Rightarrow> 'h node option \<times> strmap" where
  "node_find node path params = findFrom node (split path ''/'') params"

text \<open>The class \<open>Trie\<close>: it owns the root.\<close>

record 'h trie =
  root :: "'h node"

definition new_trie :: "'h trie" where
  "new_trie = \<lparr>root = empty_node\<rparr>"

definition trie_insert :: "'h trie \<Rightarrow> string \<Rightarrow> 'h option \<Rightarrow> 'h trie" where
  "trie_insert t path h = t\<lparr>root := node_insert (root t) path h\<rparr>"

definition searchNode :: "'h trie \<Rightarrow> string \<Rightarrow> strmap \<Rightarrow> 'h node option \<times> strmap" where
  "searchNode t path params = node_find (root t) path params"

section \<open>Patterns and the map a trie denotes\<close>

text \<open>A pattern segment; literals come before the parameter, as the search tries them.\<close>

datatype seg = Lit string | Par

fun less_eq_seg_fun :: "seg \<Rightarrow> seg \<Rightarrow> bool" where
  "less_eq_seg_fun (Lit s) (Lit t) = (s \<le> t)"
| "less_eq_seg_fun (Lit s) Par = True"
| "less_eq_seg_fun Par (Lit t) = False"
| "less_eq_seg_fun Par Par = True"

instantiation seg :: linorder
begin

definition less_eq_seg :: "seg \<Rightarrow> seg \<Rightarrow> bool" where
  "less_eq_seg = less_eq_seg_fun"

definition less_seg :: "seg \<Rightarrow> seg \<Rightarrow> bool" where
  "less_seg a b = (a \<le> b \<and> \<not> b \<le> a)" for a b :: seg

instance
proof
  fix a b c :: seg
  show "a < b \<longleftrightarrow> a \<le> b \<and> \<not> b \<le> a" by (rule less_seg_def)
  show "a \<le> a" by (cases a) (simp_all add: less_eq_seg_def)
  show "a \<le> b \<Longrightarrow> b \<le> c \<Longrightarrow> a \<le> c"
    by (cases a; cases b; cases c) (auto simp: less_eq_seg_def)
  show "a \<le> b \<Longrightarrow> b \<le> a \<Longrightarrow> a = b" by (cases a; cases b) (auto simp: less_eq_seg_def)
  show "a \<le> b \<or> b \<le> a" by (cases a; cases b) (auto simp: less_eq_seg_def)
qed

end

lemma Lit_less_Par [simp]: "Lit s < Par"
  by (simp add: less_seg_def less_eq_seg_def)

lemma not_Par_less [simp]: "\<not> Par < Lit s"
  by (simp add: less_seg_def less_eq_seg_def)

type_synonym pattern = "seg list"

definition pat_seg :: "string \<Rightarrow> seg" where
  "pat_seg s = (if hd s = COLON then Par else Lit s)"

definition pattern_of :: "string list \<Rightarrow> pattern" where
  "pattern_of segments = map pat_seg (filter (\<lambda>s. s \<noteq> []) segments)"

definition child_at :: "'h node \<Rightarrow> seg \<Rightarrow> 'h node option" where
  "child_at n p = (case p of Lit s \<Rightarrow> map_of (children n) s | Par \<Rightarrow> paramChild n)"

fun node_at :: "'h node \<Rightarrow> pattern \<Rightarrow> 'h node option" where
  "node_at n [] = Some n"
| "node_at n (p # ps) = Option.bind (child_at n p) (\<lambda>c. node_at c ps)"

definition routes :: "'h node \<Rightarrow> pattern \<Rightarrow> 'h option" where
  "routes n p = Option.bind (node_at n p) handler"

text \<open>Matching a path against patterns, and all the patterns that match it, least first.\<close>

definition covers :: "pattern \<Rightarrow> string list \<Rightarrow> bool" where
  "covers p segments \<longleftrightarrow> list_all2 (\<lambda>q s. q = Par \<or> q = Lit s) p segments"

fun candidates :: "string list \<Rightarrow> pattern list" where
  "candidates [] = [[]]"
| "candidates (s # ss) = map ((#) (Lit s)) (candidates ss) @ map ((#) Par) (candidates ss)"

definition best :: "(pattern \<Rightarrow> 'h option) \<Rightarrow> string list \<Rightarrow> pattern option" where
  "best f segments = find (\<lambda>p. f p \<noteq> None) (candidates segments)"

text \<open>The parameters a pattern binds: names are those stored in the trie's nodes.\<close>

fun binds :: "'h node \<Rightarrow> pattern \<Rightarrow> string list \<Rightarrow> (string \<times> string) list" where
  "binds n (p # ps) (s # ss) =
     (case child_at n p of
        None \<Rightarrow> []
      | Some c \<Rightarrow> (if p = Par then [(parameterName c, s)] else []) @ binds c ps ss)"
| "binds n _ _ = []"

section \<open>Insertion refines a map update\<close>

lemma new_node_fields [simp]:
  "children (new_node s) = []" "paramChild (new_node s) = None" "handler (new_node s) = None"
  "isLeaf (new_node s) = False" "nvalue (new_node s) = s"
  by (simp_all add: new_node_def)

lemma child_at_new_node [simp]: "child_at (new_node s) p = None"
  by (simp add: child_at_def split: seg.split)

lemma child_at_empty_node [simp]: "child_at empty_node p = None"
  by (simp add: child_at_def empty_node_def split: seg.split)

lemma routes_new_node [simp]: "routes (new_node s) = Map.empty"
proof
  show "routes (new_node s) p = None" for p by (cases p) (simp_all add: routes_def)
qed

lemma routes_empty_node [simp]: "routes empty_node = Map.empty"
proof
  show "routes empty_node p = None" for p
    by (cases p) (simp_all add: routes_def, simp add: empty_node_def)
qed

lemma routes_Nil [simp]: "routes n [] = handler n"
  by (simp add: routes_def)

lemma routes_Cons: "routes n (p # ps) = Option.bind (child_at n p) (\<lambda>c. routes c ps)"
  by (simp add: routes_def)

lemma handler_insertChild:
  "s \<noteq> [] \<Longrightarrow> handler (insertChild n s k) = handler n"
  by (cases n) (auto split: option.splits)

lemma child_at_insertChild:
  "s \<noteq> [] \<Longrightarrow> child_at (insertChild n s k) p =
     (if p = pat_seg s then Some (k (case child_at n p of Some c \<Rightarrow> c | None \<Rightarrow> new_node s)) else child_at n p)"
  by (cases n) (auto simp: child_at_def pat_seg_def update_conv split: option.splits seg.splits)

lemma insertChild_Nil [simp]: "insertChild n [] k = k n"
  by (cases n) simp

lemma insert_segments_Cons [simp]:
  "insert_segments n (s # ss) h = insertChild n s (\<lambda>c. insert_segments c ss h)"
  by (cases n) simp

lemma insert_segments_Nil_fields [simp]:
  "handler (insert_segments n [] h) = h" "child_at (insert_segments n [] h) p = child_at n p"
  by (cases n; simp add: child_at_def split: seg.split)+

theorem routes_insert_segments:
  "routes (insert_segments n segments h) = (routes n)(pattern_of segments := h)"
proof (induction segments arbitrary: n)
  case Nil
  show ?case
  proof
    show "routes (insert_segments n [] h) p = ((routes n)(pattern_of [] := h)) p" for p
      by (cases p) (simp_all add: pattern_of_def routes_Cons)
  qed
next
  case (Cons s ss)
  show ?case
  proof (cases "s = []")
    case True
    with Cons.IH show ?thesis by (simp add: pattern_of_def)
  next
    case False
    show ?thesis
    proof
      show "routes (insert_segments n (s # ss) h) p = ((routes n)(pattern_of (s # ss) := h)) p" for p
        using False Cons.IH
        by (cases p) (auto simp: pattern_of_def routes_Cons handler_insertChild child_at_insertChild
            split: option.splits)
    qed
  qed
qed

section \<open>The search refines the least matching pattern\<close>

lemma find_map: "find P (map f xs) = map_option f (find (P \<circ> f) xs)"
  by (induction xs) auto

lemma find_append: "find P (xs @ ys) = (case find P xs of Some x \<Rightarrow> Some x | None \<Rightarrow> find P ys)"
  by (induction xs) auto

lemma find_cong_pred: "(\<And>x. P x \<longleftrightarrow> Q x) \<Longrightarrow> find P xs = find Q xs"
  by (induction xs) auto

lemma best_Nil [simp]: "best f [] = (if f [] = None then None else Some [])"
  by (simp add: best_def)

lemma best_Cons:
  "best f (s # ss) =
     (case best (\<lambda>p. f (Lit s # p)) ss of
        Some p \<Rightarrow> Some (Lit s # p)
      | None \<Rightarrow> map_option ((#) Par) (best (\<lambda>p. f (Par # p)) ss))"
  by (simp add: best_def find_append find_map comp_def split: option.splits)

lemma best_empty [simp]: "best (\<lambda>p. None) ss = None"
  by (induction ss) (simp_all add: best_Cons)

lemma best_routes_child:
  "best (\<lambda>p. routes n (q # p)) ss =
     (case child_at n q of None \<Rightarrow> None | Some c \<Rightarrow> best (routes c) ss)"
  by (cases "child_at n q") (simp_all add: routes_Cons)

lemma find_SomeD: "find P xs = Some x \<Longrightarrow> P x \<and> x \<in> set xs"
  by (induction xs) (auto split: if_splits)

lemma best_SomeD: "best f ss = Some p \<Longrightarrow> f p \<noteq> None \<and> p \<in> set (candidates ss)"
  unfolding best_def by (blast dest: find_SomeD)

text \<open>What the search returns and what it leaves in \<open>params\<close>, as a function of the denoted map.\<close>

definition find_spec :: "'h node \<Rightarrow> string list \<Rightarrow> strmap \<Rightarrow> 'h node option \<times> strmap" where
  "find_spec n ss params =
     (case best (routes n) ss of
        None \<Rightarrow> (None, params)
      | Some p \<Rightarrow> (node_at n p, fold (\<lambda>(k, v). smap_set k v) (binds n p ss) params))"

lemma find_spec_Nil:
  "find_spec n [] params = (if handler n \<noteq> None then Some n else None, params)"
  by (simp add: find_spec_def)

lemma best_node_at: "best (routes n) ss = Some p \<Longrightarrow> \<exists>c. node_at n p = Some c"
  using best_SomeD [of "routes n" ss p] by (auto simp: routes_def bind_eq_Some_conv)

lemma find_spec_None_iff:
  "find_spec n ss params = (None, params') \<longleftrightarrow> best (routes n) ss = None \<and> params' = params"
  using best_node_at [of n ss] by (auto simp: find_spec_def split: option.splits)

lemma find_spec_SomeD: "find_spec n ss params = (Some hit, params') \<Longrightarrow> best (routes n) ss \<noteq> None"
  by (auto simp: find_spec_def split: option.splits)

lemma find_spec_Cons:
  "find_spec n (s # ss) params =
     (case (case child_at n (Lit s) of Some c \<Rightarrow> find_spec c ss params | None \<Rightarrow> (None, params)) of
        (Some hit, ps) \<Rightarrow> (Some hit, ps)
      | (None, ps) \<Rightarrow>
          (case child_at n Par of
             None \<Rightarrow> (None, params)
           | Some c \<Rightarrow>
               (case find_spec c ss (smap_set (parameterName c) s params) of
                  (Some hit, ps) \<Rightarrow> (Some hit, ps)
                | (None, _) \<Rightarrow> (None, params))))"
  unfolding find_spec_def best_Cons best_routes_child
  by (auto dest: best_node_at split: option.splits)

theorem findFrom_spec:
  "smap_ok params \<Longrightarrow> findFrom n segments params = find_spec n segments params"
proof (induction segments arbitrary: n params)
  case Nil
  then show ?case by (simp add: find_spec_Nil)
next
  case (Cons s ss)
  show ?case
    using Cons.prems
    by (auto simp: find_spec_Cons child_at_def Cons.IH Let_def find_spec_None_iff
        smap.undo_bound smap.undo_unbound dest: find_spec_SomeD split: option.splits prod.splits)
qed

section \<open>The least matching pattern\<close>

lemma candidates_covers: "p \<in> set (candidates ss) \<longleftrightarrow> covers p ss"
proof (induction ss arbitrary: p)
  case Nil
  show ?case by (simp add: covers_def)
next
  case (Cons s ss)
  then show ?case by (cases p) (auto simp: covers_def)
qed

lemma sorted_candidates: "sorted_wrt (<) (candidates ss)"
  by (induction ss) (auto simp: sorted_wrt_append sorted_wrt_map)

lemma find_sorted_least:
  "sorted_wrt (<) xs \<Longrightarrow> find P xs = Some x \<Longrightarrow> y \<in> set xs \<Longrightarrow> P y \<Longrightarrow> x \<le> (y::'a::linorder)"
  by (induction xs) (auto split: if_splits)

lemma best_least: "best f ss = Some p \<Longrightarrow> covers q ss \<Longrightarrow> f q \<noteq> None \<Longrightarrow> p \<le> q"
  unfolding best_def using find_sorted_least [OF sorted_candidates, of "\<lambda>p. f p \<noteq> None"]
  by (simp add: candidates_covers)

lemma best_None_iff: "best f ss = None \<longleftrightarrow> (\<forall>p. covers p ss \<longrightarrow> f p = None)"
  by (auto simp: best_def find_None_iff candidates_covers)

lemma best_eq_Min:
  "best f ss =
     (if \<exists>p. covers p ss \<and> f p \<noteq> None then Some (Min {p. covers p ss \<and> f p \<noteq> None}) else None)"
proof (cases "best f ss")
  case None
  then show ?thesis using best_None_iff [of f ss] by auto
next
  case (Some p)
  then have p: "covers p ss" "f p \<noteq> None"
    by (auto dest: best_SomeD simp: candidates_covers)
  have "finite {p. covers p ss \<and> f p \<noteq> None}"
    by (rule finite_subset [of _ "set (candidates ss)"]) (auto simp: candidates_covers)
  then have "Min {p. covers p ss \<and> f p \<noteq> None} = p"
    using p best_least [OF Some] by (intro Min_eqI) auto
  with Some p show ?thesis by auto
qed

lemma covers_literals: "covers (map Lit ss) ss"
  by (simp add: covers_def list_all2_conv_all_nth)

lemma literals_least: "covers p ss \<Longrightarrow> map Lit ss \<le> p"
proof (induction ss arbitrary: p)
  case Nil
  then show ?case by (simp add: covers_def)
next
  case (Cons s ss)
  then obtain q p' where p: "p = q # p'" "q = Par \<or> q = Lit s" "covers p' ss"
    by (auto simp: covers_def list_all2_Cons2)
  with Cons.IH show ?case by auto
qed

lemma best_literals: "f (map Lit ss) \<noteq> None \<Longrightarrow> best f ss = Some (map Lit ss)"
proof -
  assume f: "f (map Lit ss) \<noteq> None"
  then obtain p where p: "best f ss = Some p"
    using best_None_iff [of f ss] covers_literals [of ss] by (cases "best f ss") auto
  then have "p \<le> map Lit ss" using best_least covers_literals f by blast
  moreover have "map Lit ss \<le> p"
    using p by (intro literals_least) (auto dest: best_SomeD simp: candidates_covers)
  ultimately show "best f ss = Some (map Lit ss)" using p by simp
qed

section \<open>The shape invariant of the node graph\<close>

text \<open>
  Literal children are stored under their own value, which is a non-empty segment that does
  not start a parameter; the parameter child is held apart and knows its name.
\<close>

definition literal_key :: "string \<Rightarrow> bool" where
  "literal_key k \<longleftrightarrow> k \<noteq> [] \<and> hd k \<noteq> COLON \<and> SLASH \<notin> set k \<and> NUL \<notin> set k"

fun node_ok :: "'h node \<Rightarrow> bool" where
  "node_ok (Node v leaf cs pc h isp pn) \<longleftrightarrow>
     distinct (map fst cs) \<and>
     (\<forall>kc \<in> set cs. literal_key (fst kc) \<and> nvalue (snd kc) = fst kc \<and>
        \<not> isParameter (snd kc) \<and> node_ok (snd kc)) \<and>
     (case pc of None \<Rightarrow> True
      | Some p \<Rightarrow> isParameter p \<and> nvalue p = COLON # parameterName p \<and> node_ok p)"

definition node_tag :: "'h node \<Rightarrow> string \<times> bool \<times> string" where
  "node_tag n = (nvalue n, isParameter n, parameterName n)"

lemma node_ok_new_node [simp]: "node_ok (new_node s)"
  by (simp add: new_node_def)

lemma node_ok_empty_node [simp]: "node_ok empty_node"
  by (simp add: empty_node_def)

lemma node_tag_insertChild: "s \<noteq> [] \<Longrightarrow> node_tag (insertChild n s k) = node_tag n"
  by (cases n) (auto simp: node_tag_def split: option.splits)

lemma node_tag_insert_segments: "node_tag (insert_segments n ss h) = node_tag n"
proof (induction ss arbitrary: n)
  case Nil
  then show ?case by (cases n) (simp add: node_tag_def)
next
  case (Cons s ss)
  then show ?case by (cases "s = []") (simp_all add: node_tag_insertChild)
qed

lemma set_AList_update:
  "kc \<in> set (AList.update k v cs) \<Longrightarrow> kc = (k, v) \<or> kc \<in> set cs"
  by (induction cs) (auto split: if_splits)

lemma node_ok_insertChild:
  assumes "node_ok n" and "s \<noteq> []" and "SLASH \<notin> set s" and "NUL \<notin> set s"
    and k: "\<And>c. node_ok c \<Longrightarrow> node_ok (k c)" "\<And>c. node_tag (k c) = node_tag c"
  shows "node_ok (insertChild n s k)"
proof -
  have tag: "nvalue (k c) = nvalue c" "isParameter (k c) = isParameter c"
    "parameterName (k c) = parameterName c" for c
    using k(2) [of c] by (simp_all add: node_tag_def)
  obtain a s' where s: "s = a # s'" using assms(2) by (cases s) simp_all
  show ?thesis
    using assms(1-4) unfolding s
    by (cases n)
      (auto simp: tag k(1) distinct_update literal_key_def new_node_def map_of_eq_None_iff
        dest!: set_AList_update dest: map_of_SomeD split: option.splits)
qed

lemma node_ok_insert_segments:
  "node_ok n \<Longrightarrow> (\<forall>s \<in> set ss. SLASH \<notin> set s \<and> NUL \<notin> set s) \<Longrightarrow> node_ok (insert_segments n ss h)"
proof (induction ss arbitrary: n)
  case Nil
  then show ?case by (cases n) simp
next
  case (Cons s ss)
  then show ?case
    by (cases "s = []") (auto intro!: node_ok_insertChild simp: node_tag_insert_segments)
qed

lemma node_ok_insert: "node_ok n \<Longrightarrow> node_ok (node_insert n path h)"
  unfolding node_insert_def
  using split_tokens [of SLASH _ path] by (intro node_ok_insert_segments) auto

section \<open>The trie\<close>

definition key_pattern :: "string \<Rightarrow> pattern" where
  "key_pattern path = pattern_of (split path ''/'')"

definition trie_routes :: "'h trie \<Rightarrow> pattern \<Rightarrow> 'h option" where
  "trie_routes t = routes (root t)"

definition trie_ok :: "'h trie \<Rightarrow> bool" where
  "trie_ok t = node_ok (root t)"

lemma trie_ok_new [simp]: "trie_ok new_trie"
  by (simp add: trie_ok_def new_trie_def)

lemma trie_ok_insert [simp]: "trie_ok t \<Longrightarrow> trie_ok (trie_insert t path h)"
  by (simp add: trie_ok_def trie_insert_def node_ok_insert)

lemma trie_routes_new [simp]: "trie_routes new_trie = Map.empty"
  by (simp add: trie_routes_def new_trie_def)

lemma trie_routes_insert:
  "trie_routes (trie_insert t path h) = (trie_routes t)(key_pattern path := h)"
  by (simp add: trie_routes_def trie_insert_def node_insert_def key_pattern_def
      routes_insert_segments)

lemma searchNode_spec:
  "smap_ok params \<Longrightarrow> searchNode t path params = find_spec (root t) (split path ''/'') params"
  by (simp add: searchNode_def node_find_def findFrom_spec)

definition search_handler :: "'h trie \<Rightarrow> string \<Rightarrow> 'h option" where
  "search_handler t path = Option.bind (fst (searchNode t path [])) handler"

lemma search_handler_best:
  "search_handler t path =
     Option.bind (best (trie_routes t) (split path ''/'')) (trie_routes t)"
  using best_node_at [of "root t"]
  by (auto simp: search_handler_def searchNode_spec find_spec_def trie_routes_def routes_def
      split: option.splits)

section \<open>Properties\<close>

text \<open>
  C7: The search returns the node of the least registered pattern that matches the path, in the
  order that puts literal segments before parameters, with the parameters that pattern binds
  written over \<open>params\<close>; when nothing matches it returns nothing and leaves \<open>params\<close> as it was,
  however far it backtracked.
\<close>

theorem searchNode_least_match:
  assumes "smap_ok params"
  shows "searchNode t path params =
    (let segments = split path ''/'';
         M = {p. covers p segments \<and> trie_routes t p \<noteq> None} in
     if M = {} then (None, params)
     else (node_at (root t) (Min M),
           fold (\<lambda>(k, v). smap_set k v) (binds (root t) (Min M) segments) params))"
proof -
  let ?ss = "split path ''/''"
  let ?M = "{p. covers p ?ss \<and> trie_routes t p \<noteq> None}"
  have "best (routes (root t)) ?ss = (if ?M = {} then None else Some (Min ?M))"
    unfolding best_eq_Min trie_routes_def by simp
  then show ?thesis
    using assms by (cases "?M = {}") (simp_all only: searchNode_spec find_spec_def Let_def if_True
        if_False option.case refl)
qed

definition sample_trie :: "nat trie" where
  "sample_trie = trie_insert (trie_insert new_trie ''/users/:id'' (Some 1)) ''/users/new'' (Some 2)"

theorem searchNode_least_match_witness:
  "searchNode sample_trie ''/users/new'' [] =
    (let segments = split ''/users/new'' ''/'';
         M = {p. covers p segments \<and> trie_routes sample_trie p \<noteq> None} in
     if M = {} then (None, [])
     else (node_at (root sample_trie) (Min M),
           fold (\<lambda>(k, v). smap_set k v) (binds (root sample_trie) (Min M) segments) []))"
  by (rule searchNode_least_match) simp

definition insert_all :: "(string \<times> 'h option) list \<Rightarrow> 'h trie \<Rightarrow> 'h trie" where
  "insert_all regs t = fold (\<lambda>(path, h) t. trie_insert t path h) regs t"

text \<open>
  C18: Registering routes one after the other keeps the node graph well formed, and the trie then
  denotes the table in which the last registration of each pattern counts.
\<close>

theorem trie_inserts_refine_updates:
  "trie_ok (insert_all regs new_trie) \<and>
   trie_routes (insert_all regs new_trie) p =
     Option.bind (map_of (rev (map (\<lambda>(path, h). (key_pattern path, h)) regs)) p) id"
proof -
  have "trie_ok s \<Longrightarrow> trie_ok (insert_all regs s)" for s
    unfolding insert_all_def by (induction regs arbitrary: s) auto
  moreover have "trie_routes (insert_all regs s) p =
      (case map_of (rev (map (\<lambda>(path, h). (key_pattern path, h)) regs)) p of
         None \<Rightarrow> trie_routes s p | Some h \<Rightarrow> h)" for s
    unfolding insert_all_def
    by (induction regs arbitrary: s)
      (auto simp: trie_routes_insert map_add_def split: option.splits)
  ultimately show ?thesis by (simp split: option.split)
qed

end
