(* ===== verification/Http_Message.thy ===== *)
theory Http_Message
  imports Std_Map Utils
begin

text \<open>
  \<open>HttpBody\<close>, \<open>HttpRequest\<close> and \<open>HttpResponse\<close> (\<open>src/HttpBody.cpp\<close>, \<open>src/HttpRequest.cpp\<close>,
  \<open>src/HttpResponse.cpp\<close> and their headers): the state of a message, the setters and \<open>send\<close>
  overloads, and the serialisation of a response.
\<close>

section \<open>Exceptions\<close>

text \<open>
  What a \<open>throw\<close> of the program or of a handler can carry: an object derived from
  \<open>std::exception\<close>, with the text of its \<open>what()\<close>, or a value of any other type. The only
  \<open>catch\<close> clauses of the program name \<open>const std::exception&\<close> and let the second kind pass.
\<close>

datatype exn = Std string | Foreign

section \<open>The JSON library\<close>

text \<open>
  \<open>nlohmann::json\<close> is not part of the repository. Its values are a type parameter, and the
  operations the sources call are the fields of a record that is an argument of every definition
  that uses them. \<open>dump\<close> may throw (\<open>type_error\<close>, on text that is not UTF-8) and \<open>parse\<close> may
  throw (\<open>parse_error\<close>): \<^term>\<open>Inl\<close> carries \<open>what()\<close>.
\<close>

record 'j json_lib =
  j_dump :: "'j \<Rightarrow> string + string"
  j_parse :: "string \<Rightarrow> string + 'j"
  j_null :: 'j
  j_bool :: "bool \<Rightarrow> 'j"
  j_int :: "int \<Rightarrow> 'j"
  j_string :: "string \<Rightarrow> 'j"
  j_array :: "'j list \<Rightarrow> 'j"
  j_object :: "(string \<times> 'j) list \<Rightarrow> 'j"

section \<open>HttpBody\<close>

datatype body_type = EMPTY | TEXT | JSON | FORM_DATA | MULTIPART | BINARY

record 'j http_body =
  body_type :: body_type
  raw_data :: string
  json_data :: 'j
  form_data :: strmap
  binary_data :: "8 word list"

definition new_body :: "'j json_lib \<Rightarrow> 'j http_body" where
  "new_body J =
     \<lparr>body_type = EMPTY, raw_data = [], json_data = j_null J, form_data = [], binary_data = []\<rparr>"

text \<open>\<open>setJson\<close>: when \<open>dump\<close> throws, the type and the value have already been assigned.\<close>

definition setJson :: "'j json_lib \<Rightarrow> 'j \<Rightarrow> 'j http_body \<Rightarrow> string option \<times> 'j http_body" where
  "setJson J j b =
     (let b1 = b\<lparr>body_type := JSON, json_data := j\<rparr> in
      case j_dump J j of
        Inl what \<Rightarrow> (Some what, b1)
      | Inr text \<Rightarrow> (None, b1\<lparr>raw_data := text\<rparr>))"

definition setText :: "string \<Rightarrow> 'j http_body \<Rightarrow> 'j http_body" where
  "setText text b = b\<lparr>body_type := TEXT, raw_data := text\<rparr>"

fun encodeFormData_loop :: "strmap \<Rightarrow> string \<Rightarrow> string" where
  "encodeFormData_loop [] result = result"
| "encodeFormData_loop ((k, v) # form) result =
     encodeFormData_loop form
       ((if result \<noteq> [] then result @ ''&'' else result) @ k @ ''='' @ v)"

definition encodeFormData :: "strmap \<Rightarrow> string" where
  "encodeFormData form = encodeFormData_loop form []"

definition setFormData :: "strmap \<Rightarrow> 'j http_body \<Rightarrow> 'j http_body" where
  "setFormData form b =
     b\<lparr>body_type := FORM_DATA, form_data := form, raw_data := encodeFormData form\<rparr>"

definition setBinary :: "8 word list \<Rightarrow> 'j http_body \<Rightarrow> 'j http_body" where
  "setBinary data b = b\<lparr>body_type := BINARY, binary_data := data\<rparr>"

definition body_length :: "'j http_body \<Rightarrow> nat" where
  "body_length b =
     (case body_type b of
        JSON \<Rightarrow> length (raw_data b)
      | TEXT \<Rightarrow> length (raw_data b)
      | FORM_DATA \<Rightarrow> length (raw_data b)
      | MULTIPART \<Rightarrow> length (raw_data b)
      | BINARY \<Rightarrow> length (binary_data b)
      | EMPTY \<Rightarrow> 0)"

section \<open>HttpRequest\<close>

record 'j request =
  req_method :: string
  req_path :: string
  req_protocol :: string
  req_headers :: strmap
  req_body :: "'j http_body"
  params :: strmap
  query :: strmap
  cookies :: strmap

definition new_request :: "'j json_lib \<Rightarrow> 'j request" where
  "new_request J =
     \<lparr>req_method = [], req_path = [], req_protocol = [], req_headers = [], req_body = new_body J,
      params = [], query = [], cookies = []\<rparr>"

definition make_request ::
  "'j json_lib \<Rightarrow> string \<Rightarrow> string \<Rightarrow> string \<Rightarrow> strmap \<Rightarrow> 'j http_body \<Rightarrow> 'j request" where
  "make_request J m path protocol headers body =
     (new_request J)\<lparr>req_method := m, req_path := path, req_protocol := protocol,
        req_headers := headers, req_body := body\<rparr>"

definition getParam :: "'j request \<Rightarrow> string \<Rightarrow> string" where
  "getParam r name = (case smap_get (params r) name of Some v \<Rightarrow> v | None \<Rightarrow> [])"

text \<open>\<open>printRequestInfo\<close>: the text written to standard output.\<close>

definition NEWLINE :: string where "NEWLINE = [CHR 0x0A]"

definition print_entries :: "strmap \<Rightarrow> string" where
  "print_entries m = concat (map (\<lambda>(k, v). ''  '' @ k @ '': '' @ v @ NEWLINE) m)"

definition printRequestInfo :: "'j request \<Rightarrow> string" where
  "printRequestInfo r =
     ''Method: '' @ req_method r @ NEWLINE @ ''Path: '' @ req_path r @ NEWLINE @
     ''Protocol: '' @ req_protocol r @ NEWLINE @
     ''Headers:'' @ NEWLINE @ print_entries (req_headers r) @
     ''Query:'' @ NEWLINE @ print_entries (query r)"

section \<open>HttpResponse\<close>

record 'j response =
  message :: string
  status :: int
  res_protocol :: string
  res_headers :: strmap
  res_body :: "'j http_body"

text \<open>
  The constructor is empty, so \<open>$status\<close> starts with whatever the memory holds: the argument
  \<open>junk\<close> of the model.
\<close>

definition new_response :: "'j json_lib \<Rightarrow> int \<Rightarrow> 'j response" where
  "new_response J junk =
     \<lparr>message = [], status = junk, res_protocol = [], res_headers = [], res_body = new_body J\<rparr>"

definition set_status :: "int \<Rightarrow> 'j response \<Rightarrow> 'j response" where
  "set_status s r = r\<lparr>status := s\<rparr>"

definition setHeader :: "string \<Rightarrow> string \<Rightarrow> 'j response \<Rightarrow> 'j response" where
  "setHeader k v r = r\<lparr>res_headers := smap_set k v (res_headers r)\<rparr>"

fun setHeaders :: "strmap \<Rightarrow> 'j response \<Rightarrow> 'j response" where
  "setHeaders [] r = r"
| "setHeaders ((k, v) # pairs) r = setHeaders pairs (setHeader k v r)"

definition set_content_length :: "'j response \<Rightarrow> 'j response" where
  "set_content_length r =
     setHeader ''Content-Length'' (nat_to_string (body_length (res_body r))) r"

text \<open>\<open>send(const HttpBody&)\<close> and \<open>send(HttpBody&&)\<close>.\<close>

definition send_body :: "'j http_body \<Rightarrow> 'j response \<Rightarrow> 'j response" where
  "send_body b r =
     (let r1 = r\<lparr>res_body := b\<rparr> in
      case body_type b of
        JSON \<Rightarrow> setHeader ''Content-Type'' ''application/json'' r1
      | TEXT \<Rightarrow> setHeader ''Content-Type'' ''text/plain; charset=utf-8'' r1
      | FORM_DATA \<Rightarrow> setHeader ''Content-Type'' ''application/x-www-form-urlencoded'' r1
      | MULTIPART \<Rightarrow> setHeader ''Content-Type'' ''multipart/form-data'' r1
      | BINARY \<Rightarrow> setHeader ''Content-Type'' ''application/octet-stream'' r1
      | EMPTY \<Rightarrow> r1)"

definition send_body_move :: "'j http_body \<Rightarrow> 'j response \<Rightarrow> 'j response" where
  "send_body_move b r =
     (let r1 = r\<lparr>res_body := b\<rparr> in
      case body_type b of
        JSON \<Rightarrow> setHeader ''Content-Type'' ''application/json'' r1
      | TEXT \<Rightarrow> setHeader ''Content-Type'' ''text/plain; charset=utf-8'' r1
      | FORM_DATA \<Rightarrow> setHeader ''Content-Type'' ''application/x-www-form-urlencoded'' r1
      | MULTIPART \<Rightarrow> setHeader ''Content-Type'' ''multipart/form-data'' r1
      | BINARY \<Rightarrow> setHeader ''Content-Type'' ''application/octet-stream'' r1
      | EMPTY \<Rightarrow> setHeader ''Content-Type'' ''text/plain; charset=utf-8'' r1)"

text \<open>The \<open>send\<close> overloads that build the body. \<open>send(json)\<close> passes on what \<open>setJson\<close> throws.\<close>

definition send_json :: "'j json_lib \<Rightarrow> 'j \<Rightarrow> 'j response \<Rightarrow> string option \<times> 'j response" where
  "send_json J j r =
     (case setJson J j (res_body r) of
        (Some what, b) \<Rightarrow> (Some what, r\<lparr>res_body := b\<rparr>)
      | (None, b) \<Rightarrow>
          (None, set_content_length
             (setHeader ''Content-Type'' ''application/json'' (r\<lparr>res_body := b\<rparr>))))"

definition send_text :: "string \<Rightarrow> 'j response \<Rightarrow> 'j response" where
  "send_text text r =
     set_content_length (setHeader ''Content-Type'' ''text/html; charset=utf-8''
       (r\<lparr>res_body := setText text (res_body r)\<rparr>))"

definition send_cstr :: "string \<Rightarrow> 'j response \<Rightarrow> 'j response" where
  "send_cstr text r =
     set_content_length (setHeader ''Content-Type'' ''text/html; charset=utf-8''
       (r\<lparr>res_body := setText (c_str text) (res_body r)\<rparr>))"

definition send_form :: "strmap \<Rightarrow> 'j response \<Rightarrow> 'j response" where
  "send_form form r =
     set_content_length (setHeader ''Content-Type'' ''application/x-www-form-urlencoded''
       (r\<lparr>res_body := setFormData form (res_body r)\<rparr>))"

definition send_binary :: "8 word list \<Rightarrow> 'j response \<Rightarrow> 'j response" where
  "send_binary data r =
     set_content_length (setHeader ''Content-Type'' ''application/octet-stream''
       (r\<lparr>res_body := setBinary data (res_body r)\<rparr>))"

section \<open>Serialisation\<close>

definition defaultResponseCodes :: "(int \<times> string) list" where
  "defaultResponseCodes =
    [(100, ''Continue''), (101, ''Switching Protocols''), (102, ''Processing''),
     (103, ''Early Hints''), (200, ''OK''), (201, ''Created''), (202, ''Accepted''),
     (203, ''Non-Authoritative Information''), (204, ''No Content''), (205, ''Reset Content''),
     (206, ''Partial Content''), (207, ''Multi-Status''), (208, ''Already Reported''),
     (218, ''This is fine (Apache Web Server)''), (226, ''IM Used''),
     (300, ''Multiple Choices''), (301, ''Moved Permanently''), (302, ''Found''),
     (303, ''See Other''), (304, ''Not Modified''), (306, ''Switch Proxy''),
     (307, ''Temporary Redirect''), (308, ''Resume Incomplete''), (400, ''Bad Request''),
     (401, ''Unauthorized''), (402, ''Payment Required''), (403, ''Forbidden''),
     (404, ''Not Found''), (405, ''Method Not Allowed''), (406, ''Not Acceptable''),
     (407, ''Proxy Authentication Required''), (408, ''Request Timeout''), (409, ''Conflict''),
     (410, ''Gone''), (411, ''Length Required''), (412, ''Precondition Failed''),
     (413, ''Request Entity Too Large''), (414, ''Request-URI Too Long''),
     (415, ''Unsupported Media Type''), (416, ''Requested Range Not Satisfiable''),
     (417, ''Expectation Failed''), (418, ''I'' @ CHR 0x27 # ''m a teapot''),
     (419, ''Page Expired (Laravel Framework)''), (420, ''Method Failure (Spring Framework)''),
     (421, ''Misdirected Request''), (422, ''Unprocessable Entity''), (423, ''Locked''),
     (424, ''Failed Dependency''), (426, ''Upgrade Required''), (428, ''Precondition Required''),
     (429, ''Too Many Requests''), (431, ''Request Header Fields Too Large''),
     (440, ''Login Time-out''), (444, ''Connection Closed Without HttpResponse''),
     (449, ''Retry With''), (450, ''Blocked by Windows Parental Controls''),
     (451, ''Unavailable For Legal Reasons''), (494, ''Request Header Too Large''),
     (495, ''SSL Certificate Error''), (496, ''SSL Certificate Required''),
     (497, ''HTTP Request Sent to HTTPS Port''), (498, ''Invalid Token (Esri)''),
     (499, ''Client Closed Request''), (500, ''Internal Server Error''),
     (501, ''Not Implemented''), (502, ''Bad Gateway''), (503, ''Service Unavailable''),
     (504, ''Gateway Timeout''), (505, ''HTTP Version Not Supported''),
     (506, ''Variant Also Negotiates''), (507, ''Insufficient Storage''),
     (508, ''Loop Detected''), (509, ''Bandwidth Limit Exceeded''), (510, ''Not Extended''),
     (511, ''Network Authentication Required''), (520, ''Unknown Error''),
     (521, ''Web Server Is Down''), (522, ''Connection Timed Out''),
     (523, ''Origin Is Unreachable''), (524, ''A Timeout Occurred''),
     (525, ''SSL Handshake Failed''), (526, ''Invalid SSL Certificate''),
     (527, ''Railgun Listener to Origin Error''), (530, ''Origin DNS Error''),
     (598, ''Network Read Timeout Error'')]"

definition getResponseMessage :: "int \<Rightarrow> string" where
  "getResponseMessage s =
     (case map_of defaultResponseCodes s of None \<Rightarrow> ''An error occured'' | Some msg \<Rightarrow> msg)"

definition header_line :: "string \<times> string \<Rightarrow> string" where
  "header_line kv = fst kv @ '': '' @ snd kv @ CRLF"

definition status_line :: "'j response \<Rightarrow> string" where
  "status_line r =
     res_protocol r @ '' '' @ int_to_string (status r) @ '' '' @ getResponseMessage (status r)"

definition head_text :: "'j response \<Rightarrow> string" where
  "head_text r = status_line r @ CRLF @ concat (map header_line (res_headers r)) @ CRLF"

text \<open>What \<open>serialize\<close> appends to its sink; \<open>getJson().dump()\<close> may throw.\<close>

definition body_payload :: "'j json_lib \<Rightarrow> 'j http_body \<Rightarrow> string + string" where
  "body_payload J b =
     (if body_type b = TEXT then Inr (raw_data b)
      else if body_type b = JSON then j_dump J (json_data b)
      else if body_type b = BINARY then Inr (map char_of_byte (binary_data b))
      else Inr [])"

text \<open>\<open>serialize(head, body, splitAbove, includeBody)\<close>: the pair of the two buffers.\<close>

definition serialize ::
  "'j json_lib \<Rightarrow> 'j response \<Rightarrow> nat \<Rightarrow> bool \<Rightarrow> string + (string \<times> string)" where
  "serialize J r splitAbove includeBody =
     (let bodyLength = body_length (res_body r);
          two_parts = includeBody \<and> bodyLength > splitAbove;
          head = head_text r in
      if \<not> includeBody then Inr (head, [])
      else case body_payload J (res_body r) of
             Inl what \<Rightarrow> Inl what
           | Inr sink \<Rightarrow> Inr (if two_parts then (head, sink) else (head @ sink, [])))"

definition SIZE_MAX :: nat where
  "SIZE_MAX = 2 ^ 64 - 1"

definition prepareResponse :: "'j json_lib \<Rightarrow> 'j response \<Rightarrow> string + string" where
  "prepareResponse J r =
     (case serialize J r SIZE_MAX True of Inl what \<Rightarrow> Inl what | Inr (head, body) \<Rightarrow> Inr head)"

text \<open>The bytes that go out: the two buffers in order.\<close>

definition wire :: "string \<times> string \<Rightarrow> string" where
  "wire hb = fst hb @ snd hb"

section \<open>Body invariant and framing\<close>

text \<open>
  The setters keep the raw text in step with the value it was made from, which is what makes
  \<open>length()\<close> the length of what \<open>serialize\<close> writes.
\<close>

definition body_ok :: "'j json_lib \<Rightarrow> 'j http_body \<Rightarrow> bool" where
  "body_ok J b \<longleftrightarrow>
     (body_type b = JSON \<longrightarrow> j_dump J (json_data b) = Inr (raw_data b)) \<and>
     (body_type b = FORM_DATA \<longrightarrow> raw_data b = encodeFormData (form_data b))"

lemma body_ok_new [simp]: "body_ok J (new_body J)"
  by (simp add: body_ok_def new_body_def)

lemma body_ok_setText [simp]: "body_ok J (setText t b)"
  by (simp add: body_ok_def setText_def)

lemma body_ok_setFormData [simp]: "body_ok J (setFormData f b)"
  by (simp add: body_ok_def setFormData_def)

lemma body_ok_setBinary [simp]: "body_ok J (setBinary d b)"
  by (simp add: body_ok_def setBinary_def)

lemma body_ok_setJson: "setJson J j b = (None, b') \<Longrightarrow> body_ok J b'"
  by (auto simp: body_ok_def setJson_def Let_def split: sum.splits)

text \<open>The body types whose bytes \<open>serialize\<close> writes.\<close>

definition written_type :: "body_type \<Rightarrow> bool" where
  "written_type t \<longleftrightarrow> t = EMPTY \<or> t = TEXT \<or> t = JSON \<or> t = BINARY"

lemma payload_length:
  "body_ok J b \<Longrightarrow> written_type (body_type b) \<Longrightarrow>
   \<exists>p. body_payload J b = Inr p \<and> length p = body_length b"
  by (auto simp: body_ok_def written_type_def body_payload_def body_length_def)

lemma serialize_wire:
  "map_sum id wire (serialize J r n True) =
     map_sum id (\<lambda>p. head_text r @ p) (body_payload J (res_body r))"
  by (simp add: serialize_def wire_def Let_def split: sum.splits)

lemma serialize_no_body: "serialize J r n False = Inr (head_text r, [])"
  by (simp add: serialize_def)

section \<open>Reading a response back\<close>

text \<open>
  A reader of response heads, as a client has it: the status line, then header lines of the
  form \<open>name: value\<close> up to the empty line, then the rest of the stream.
\<close>

definition read_line :: "string \<Rightarrow> (string \<times> string) option" where
  "read_line s = (case find_sub CRLF s of None \<Rightarrow> None | Some i \<Rightarrow> Some (take i s, drop (i + 2) s))"

lemma read_line_shorter: "read_line s = Some (l, rest) \<Longrightarrow> length rest < length s"
  by (auto simp: read_line_def CRLF_def dest!: find_sub_SomeD split: option.splits)

function read_headers :: "string \<Rightarrow> ((string \<times> string) list \<times> string) option" where
  "read_headers s =
     (case read_line s of
        None \<Rightarrow> None
      | Some (line, rest) \<Rightarrow>
          if line = [] then Some ([], rest)
          else case find_sub '': '' line of
                 None \<Rightarrow> None
               | Some i \<Rightarrow>
                   map_option (\<lambda>(hs, r). ((take i line, drop (i + 2) line) # hs, r))
                     (read_headers rest))"
  by pat_completeness auto
termination
  by (relation "measure length") (auto dest: read_line_shorter)

declare read_headers.simps [simp del]

definition read_head :: "string \<Rightarrow> (string \<times> (string \<times> string) list \<times> string) option" where
  "read_head s =
     (case read_line s of None \<Rightarrow> None
      | Some (line, rest) \<Rightarrow> map_option (\<lambda>(hs, r). (line, hs, r)) (read_headers rest))"

text \<open>Text that cannot be taken for a line end, and header names without a colon.\<close>

definition line_safe :: "string \<Rightarrow> bool" where
  "line_safe s \<longleftrightarrow> CHR 0x0D \<notin> set s \<and> CHR 0x0A \<notin> set s"

definition header_safe :: "string \<times> string \<Rightarrow> bool" where
  "header_safe kv \<longleftrightarrow> line_safe (fst kv) \<and> line_safe (snd kv) \<and> COLON \<notin> set (fst kv)"

lemma find_sub_CRLF: "line_safe s \<Longrightarrow> find_sub CRLF (s @ CRLF @ t) = Some (length s)"
  by (induction s) (auto simp: line_safe_def CRLF_def)

lemma read_line_safe [simp]: "line_safe s \<Longrightarrow> read_line (s @ CRLF @ t) = Some (s, t)"
  by (simp add: read_line_def find_sub_CRLF) (simp add: CRLF_def)

lemma find_sub_colon: "COLON \<notin> set k \<Longrightarrow> find_sub '': '' (k @ '': '' @ v) = Some (length k)"
  by (induction k) auto

lemma read_headers_back:
  "\<forall>kv \<in> set hs. header_safe kv \<Longrightarrow>
   read_headers (concat (map header_line hs) @ CRLF @ rest) = Some (hs, rest)"
proof (induction hs)
  case Nil
  have "read_line ([] @ CRLF @ rest) = Some ([], rest)"
    by (rule read_line_safe) (simp add: line_safe_def)
  then show ?case by (subst read_headers.simps) simp
next
  case (Cons kv hs)
  obtain k v where kv: "kv = (k, v)" by (cases kv)
  let ?rest = "concat (map header_line hs) @ CRLF @ rest"
  have line: "concat (map header_line (kv # hs)) @ CRLF @ rest = (k @ '': '' @ v) @ CRLF @ ?rest"
    by (simp add: header_line_def kv)
  have colon: "COLON \<notin> set k"
    using Cons.prems by (auto simp: header_safe_def kv)
  have "line_safe (k @ '': '' @ v)"
    using Cons.prems by (auto simp: header_safe_def line_safe_def kv)
  then have "read_line ((k @ '': '' @ v) @ CRLF @ ?rest) = Some (k @ '': '' @ v, ?rest)"
    by (rule read_line_safe)
  then show ?case
    unfolding line using Cons find_sub_colon [OF colon, of v]
    by (subst read_headers.simps) (simp add: kv)
qed

lemma read_head_back:
  assumes "line_safe (status_line r)" and "\<forall>kv \<in> set (res_headers r). header_safe kv"
  shows "read_head (head_text r @ rest) = Some (status_line r, res_headers r, rest)"
proof -
  have "head_text r @ rest =
      status_line r @ CRLF @ (concat (map header_line (res_headers r)) @ CRLF @ rest)"
    by (simp add: head_text_def)
  then show ?thesis
    using assms read_headers_back [OF assms(2), of rest] by (simp add: read_head_def)
qed

text \<open>The whole message: the body is as long as \<open>Content-Length\<close> says.\<close>

definition read_message ::
  "string \<Rightarrow> (string \<times> (string \<times> string) list \<times> string \<times> string) option" where
  "read_message s =
     (case read_head s of None \<Rightarrow> None
      | Some (line, hs, rest) \<Rightarrow>
          (case map_of hs ''Content-Length'' of None \<Rightarrow> None
           | Some n \<Rightarrow>
               if digits_val n \<le> length rest
               then Some (line, hs, take (digits_val n) rest, drop (digits_val n) rest)
               else None))"

lemma read_message_back:
  assumes "line_safe (status_line r)" and "\<forall>kv \<in> set (res_headers r). header_safe kv"
    and "smap_get (res_headers r) ''Content-Length'' = Some (nat_to_string (length body))"
  shows "read_message (head_text r @ body @ rest) = Some (status_line r, res_headers r, body, rest)"
  using assms by (simp add: read_message_def read_head_back smap_get_def)

section \<open>Heads the server writes are readable\<close>

lemma line_safe_append [simp]: "line_safe (s @ t) \<longleftrightarrow> line_safe s \<and> line_safe t"
  by (auto simp: line_safe_def)

lemma isdigit_line_safe: "(\<And>c. c \<in> set s \<Longrightarrow> isdigit c) \<Longrightarrow> line_safe s"
  by (fastforce simp: line_safe_def isdigit_def)

lemma line_safe_nat_to_string [simp]: "line_safe (nat_to_string n)"
  by (rule isdigit_line_safe) (rule nat_to_string_digits)

lemma line_safe_int_to_string [simp]: "line_safe (int_to_string i)"
  using line_safe_nat_to_string by (auto simp: int_to_string_def line_safe_def)

lemma codes_line_safe: "list_all (\<lambda>cm. line_safe (snd cm)) defaultResponseCodes"
  by (simp add: defaultResponseCodes_def line_safe_def)

lemma line_safe_getResponseMessage [simp]: "line_safe (getResponseMessage s)"
proof (cases "map_of defaultResponseCodes s")
  case None
  then show ?thesis by (simp add: getResponseMessage_def line_safe_def)
next
  case (Some msg)
  then have "(s, msg) \<in> set defaultResponseCodes" by (rule map_of_SomeD)
  with codes_line_safe have "line_safe msg" by (auto simp: list_all_iff)
  with Some show ?thesis by (simp add: getResponseMessage_def)
qed

lemma line_safe_blank [simp]: "line_safe '' ''"
  by (simp add: line_safe_def)

lemma line_safe_status_line [simp]: "line_safe (status_line r) \<longleftrightarrow> line_safe (res_protocol r)"
  by (simp add: status_line_def del: append.simps)

lemma setHeader_simps [simp]:
  "status (setHeader k v r) = status r" "res_protocol (setHeader k v r) = res_protocol r"
  "res_body (setHeader k v r) = res_body r"
  "res_headers (setHeader k v r) = smap_set k v (res_headers r)"
  by (simp_all add: setHeader_def)

lemma set_content_length_simps [simp]:
  "status (set_content_length r) = status r" "res_protocol (set_content_length r) = res_protocol r"
  "res_body (set_content_length r) = res_body r"
  "res_headers (set_content_length r) =
     smap_set ''Content-Length'' (nat_to_string (body_length (res_body r))) (res_headers r)"
  by (simp_all add: set_content_length_def)

lemma header_safe_set:
  "header_safe (k, v) \<Longrightarrow> \<forall>kv \<in> set m. header_safe kv \<Longrightarrow> \<forall>kv \<in> set (smap_set k v m). header_safe kv"
  using set_smap_set [of k v m] by blast

section \<open>A plain request\<close>

text \<open>A request without headers or body, for examples.\<close>

definition plain_request :: "string \<Rightarrow> string \<Rightarrow> unit request" where
  "plain_request m path =
     \<lparr>req_method = m, req_path = path, req_protocol = ''HTTP/1.1'', req_headers = [],
      req_body = \<lparr>body_type = EMPTY, raw_data = [], json_data = (), form_data = [], binary_data = []\<rparr>,
      params = [], query = [], cookies = []\<rparr>"

lemma plain_request_simps [simp]:
  "req_method (plain_request m path) = m" "req_path (plain_request m path) = path"
  by (simp_all add: plain_request_def)

section \<open>An instance of the JSON library\<close>

text \<open>
  The operations of the JSON library instantiated with plain texts, for examples: a value is the
  text it dumps to, and parsing rejects the empty text.
\<close>

definition text_json :: "string json_lib" where
  "text_json =
     \<lparr>j_dump = Inr, j_parse = (\<lambda>s. if s = [] then Inl ''empty'' else Inr s), j_null = ''null'',
      j_bool = (\<lambda>b. if b then ''true'' else ''false''), j_int = int_to_string, j_string = id,
      j_array = concat, j_object = (\<lambda>kvs. concat (map (\<lambda>(k, v). k @ '':'' @ v) kvs))\<rparr>"

lemma text_json_simps [simp]:
  "j_dump text_json s = Inr s" "j_string text_json s = s"
  "j_object text_json kvs = concat (map (\<lambda>(k, v). k @ '':'' @ v) kvs)"
  "j_null text_json = ''null''"
  by (simp_all add: text_json_def)

definition hello_response :: "string response" where
  "hello_response =
     send_text ''hello'' (set_status 200 ((new_response text_json 0)\<lparr>res_protocol := ''HTTP/1.1''\<rparr>))"

lemma nat_to_string_5:
  "nat_to_string 5 = ''5''" "nat_to_string (Suc (Suc (Suc (Suc (Suc 0))))) = ''5''"
  by code_simp+

lemma hello_response_eq:
  "hello_response =
     \<lparr>message = [], status = 200, res_protocol = ''HTTP/1.1'',
      res_headers = [(''Content-Length'', ''5''), (''Content-Type'', ''text/html; charset=utf-8'')],
      res_body = setText ''hello'' (new_body text_json)\<rparr>"
  by (simp add: hello_response_def send_text_def set_status_def new_response_def set_content_length_def
      setHeader_def body_length_def setText_def nat_to_string_5)

section \<open>Properties\<close>

text \<open>
  A response whose headers carry its body's length can be read back from the wire, whatever
  follows it: the status line, the headers, exactly the body, and the rest of the stream.
\<close>

theorem response_framing:
  assumes "body_ok J (res_body r)" and "written_type (body_type (res_body r))"
    and "line_safe (res_protocol r)" and "\<forall>kv \<in> set (res_headers r). header_safe kv"
    and "smap_get (res_headers r) ''Content-Length'' = Some (nat_to_string (body_length (res_body r)))"
  shows "\<exists>hb p. serialize J r n True = Inr hb \<and> body_payload J (res_body r) = Inr p \<and>
    read_message (wire hb @ rest) = Some (status_line r, res_headers r, p, rest)"
proof -
  obtain p where p: "body_payload J (res_body r) = Inr p" "length p = body_length (res_body r)"
    using payload_length [OF assms(1,2)] by blast
  have "read_message (head_text r @ p @ rest) = Some (status_line r, res_headers r, p, rest)"
    using assms(3-5) p(2) by (intro read_message_back) simp_all
  then show ?thesis using p(1) by (auto simp: serialize_def wire_def Let_def)
qed

theorem response_framing_witness:
  "\<exists>hb p. serialize text_json hello_response 3 True = Inr hb \<and>
    body_payload text_json (res_body hello_response) = Inr p \<and>
    read_message (wire hb @ ''HTTP/1.1 ...'') =
      Some (status_line hello_response, res_headers hello_response, p, ''HTTP/1.1 ...'')"
  by (rule response_framing)
    (simp_all add: hello_response_eq header_safe_def line_safe_def smap_get_def,
     simp_all add: written_type_def body_length_def setText_def nat_to_string_5)

text \<open>
  Cutting a response into head and body does not change the bytes sent: a body up to the
  threshold rides in the first buffer, a larger one fills the second, and the concatenation is the
  head followed by the payload either way.
\<close>

theorem serialize_split:
  assumes "serialize J r n True = Inr (h, b)"
  shows "body_payload J (res_body r) = Inr (drop (length (head_text r)) (h @ b)) \<and>
    prefix (head_text r) (h @ b) \<and>
    (if body_length (res_body r) \<le> n then b = [] else h = head_text r)"
  using assms by (auto simp: serialize_def Let_def split: sum.splits if_splits)

theorem serialize_split_witness:
  "body_payload text_json (res_body hello_response) =
     Inr (drop (length (head_text hello_response)) (head_text hello_response @ ''hello''))"
  using serialize_split [of text_json hello_response 3 "head_text hello_response" "''hello''"]
  by (simp add: hello_response_eq serialize_def body_payload_def body_length_def setText_def Let_def)

text \<open>
  Without the body, as for HEAD, a response consists of the head the full response starts
  with, and of nothing else.
\<close>

theorem head_response_is_head_of_full:
  assumes "serialize J r n True = Inr full"
  shows "\<exists>h. serialize J r n' False = Inr (h, []) \<and> h = head_text r \<and>
    (\<exists>p. wire full = h @ p \<and> body_payload J (res_body r) = Inr p)"
  using assms by (auto simp: serialize_def wire_def Let_def split: sum.splits)

theorem head_response_is_head_of_full_witness:
  "\<exists>h. serialize text_json hello_response 0 False = Inr (h, []) \<and> h = head_text hello_response \<and>
    (\<exists>p. wire (head_text hello_response @ ''hello'', []) = h @ p \<and>
      body_payload text_json (res_body hello_response) = Inr p)"
  by (rule head_response_is_head_of_full [where n = 100])
    (simp add: hello_response_eq serialize_def body_payload_def body_length_def setText_def Let_def)

text \<open>What \<open>send\<close> leaves behind, and what framing needs.\<close>

definition framed :: "'j json_lib \<Rightarrow> 'j response \<Rightarrow> bool" where
  "framed J r \<longleftrightarrow>
     body_ok J (res_body r) \<and>
     smap_get (res_headers r) ''Content-Length'' = Some (nat_to_string (body_length (res_body r)))"

text \<open>
  Every \<open>send\<close> overload that builds the body leaves a body whose text is in step with its
  value, and a Content-Length that is the length of the body.
\<close>

theorem send_announces_length:
  "framed J (send_text t r) \<and> framed J (send_cstr t r) \<and> framed J (send_form f r) \<and>
   framed J (send_binary d r) \<and> (\<forall>r'. send_json J j r = (None, r') \<longrightarrow> framed J r')"
  using body_ok_setJson [of J j "res_body r"]
  by (auto simp: framed_def send_text_def send_cstr_def send_form_def send_binary_def send_json_def
      split: prod.splits option.splits)

theorem send_announces_length_witness:
  "framed text_json (snd (send_json text_json ''{}'' hello_response))"
  using send_announces_length [of text_json "[]" hello_response "[]" "[]" "''{}''"]
  by (simp add: send_json_def setJson_def)

text \<open>
  A form body is announced but never written: after \<open>send\<close> with form data the head carries
  the length of the encoded form, the serialised response ends with the head, and a client that
  reads the message waits for a body that does not come.
\<close>

theorem form_body_not_written:
  assumes "encodeFormData form \<noteq> []" and "line_safe (res_protocol r)"
    and "\<forall>kv \<in> set (res_headers (send_form form r)). header_safe kv"
  shows "\<exists>h b. serialize J (send_form form r) n True = Inr (h, b) \<and> h @ b = head_text (send_form form r) \<and>
    smap_get (res_headers (send_form form r)) ''Content-Length'' =
      Some (nat_to_string (length (encodeFormData form))) \<and>
    read_message (h @ b) = None"
proof -
  let ?r = "send_form form r"
  have body: "body_type (res_body ?r) = FORM_DATA" "raw_data (res_body ?r) = encodeFormData form"
    by (simp_all add: send_form_def setFormData_def)
  have len: "smap_get (res_headers ?r) ''Content-Length'' =
      Some (nat_to_string (length (encodeFormData form)))"
    using body by (simp add: send_form_def body_length_def setFormData_def)
  have "read_head (head_text ?r @ []) = Some (status_line ?r, res_headers ?r, [])"
    using assms(2,3) by (intro read_head_back) (simp_all add: send_form_def)
  with len assms(1) have "read_message (head_text ?r) = None"
    by (simp add: read_message_def smap_get_def)
  with body len show ?thesis by (simp add: serialize_def body_payload_def Let_def)
qed

theorem form_body_not_written_witness:
  "\<exists>h b. serialize text_json (send_form [(''a'', ''1'')] hello_response) 100 True = Inr (h, b) \<and>
    h @ b = head_text (send_form [(''a'', ''1'')] hello_response) \<and>
    smap_get (res_headers (send_form [(''a'', ''1'')] hello_response)) ''Content-Length'' =
      Some (nat_to_string (length (encodeFormData [(''a'', ''1'')]))) \<and>
    read_message (h @ b) = None"
proof (rule form_body_not_written)
  have "header_safe (''Content-Length'', nat_to_string n)" for n
    by (simp add: header_safe_def) (simp add: line_safe_def)
  then show "\<forall>kv \<in> set (res_headers (send_form [(''a'', ''1'')] hello_response)). header_safe kv"
    by (simp add: hello_response_eq send_form_def) (simp add: header_safe_def line_safe_def)
qed (simp_all add: hello_response_eq encodeFormData_def line_safe_def)

text \<open>
  The two \<open>send\<close> overloads that take a body agree for every type of body except the empty
  one: the one that copies leaves the Content-Type alone, the one that moves sets a text type.
\<close>

theorem send_body_overloads:
  "send_body b r = send_body_move b r \<longleftrightarrow>
     body_type b \<noteq> EMPTY \<or>
     setHeader ''Content-Type'' ''text/plain; charset=utf-8'' (r\<lparr>res_body := b\<rparr>) = r\<lparr>res_body := b\<rparr>"
  by (cases "body_type b") (auto simp: send_body_def send_body_move_def)

end
