(* ===== verification/Registry.thy ===== *)
theory Registry
  imports Routing_Trie Http_Message
begin

text \<open>
  Handlers, middleware and the registry (\<open>Types.h\<close>, \<open>RouteRegistry\<close>, \<open>RoutingBase\<close>).

  A handler mutates the request, the response and whatever else it can reach (the \<open>world\<close>), and
  returns or throws a \<open>std::exception\<close>. \<open>next\<close> captures the request and response by reference,
  so it is an action on the same context, and a middleware is a function from the action \<open>next\<close>
  to an action: it may run \<open>next\<close> never, once or several times, before or after its own work.
\<close>

section \<open>Handlers and middleware\<close>

record ('j, 'w) ctx =
  req :: "'j request"
  res :: "'j response"
  world :: 'w

datatype ('j, 'w) outcome = Ret "('j, 'w) ctx" | Exc exn "('j, 'w) ctx"

type_synonym ('j, 'w) act = "('j, 'w) ctx \<Rightarrow> ('j, 'w) outcome"
type_synonym ('j, 'w) mw_fun = "('j, 'w) act \<Rightarrow> ('j, 'w) act"

text \<open>Sequencing; the rest is skipped when the first part throws.\<close>

fun and_then :: "('j, 'w) outcome \<Rightarrow> ('j, 'w) act \<Rightarrow> ('j, 'w) outcome" where
  "and_then (Ret c) k = k c"
| "and_then (Exc e c) k = Exc e c"

text \<open>
  The middleware values the sources build, with what their closures capture: a user's function;
  the path wrapper of \<open>use(path, mw)\<close>; the route-matching middleware that
  \<open>Router::getMiddlewares\<close> appends, which holds a pointer to its router; the middleware of
  \<open>Router::use(path, subRouter)\<close>; the middleware of \<open>HttpServer::use(path, router)\<close>, which holds
  the router's middleware list of the time of mounting. Routers are named by an identifier.
\<close>

type_synonym rid = nat

datatype ('j, 'w) middleware =
  UserMw "('j, 'w) mw_fun"
| ScopedMw string "('j, 'w) middleware"
| RouterRoutes rid
| SubRouter string rid
| MountedRouter string "('j, 'w) middleware list"

abbreviation cpath :: "('j, 'w) ctx \<Rightarrow> string" where
  "cpath c \<equiv> req_path (req c)"

definition set_path :: "string \<Rightarrow> ('j, 'w) ctx \<Rightarrow> ('j, 'w) ctx" where
  "set_path p c = c\<lparr>req := (req c)\<lparr>req_path := p\<rparr>\<rparr>"

lemma set_path_simps [simp]:
  "cpath (set_path p c) = p" "set_path p (set_path q c) = set_path p c"
  "set_path (cpath c) c = c" "res (set_path p c) = res c" "world (set_path p c) = world c"
  "req_method (req (set_path p c)) = req_method (req c)"
  by (simp_all add: set_path_def)

section \<open>RouteRegistry\<close>

record ('j, 'w) registry =
  trie :: "('j, 'w) act trie"
  queue :: "('j, 'w) middleware list"

definition new_registry :: "('j, 'w) registry" where
  "new_registry = \<lparr>trie = new_trie, queue = []\<rparr>"

definition Register ::
  "('j, 'w) registry \<Rightarrow> string \<Rightarrow> string \<Rightarrow> ('j, 'w) act option \<Rightarrow> ('j, 'w) registry" where
  "Register reg m path h = reg\<lparr>trie := trie_insert (trie reg) (m @ '':'' @ path) h\<rparr>"

definition RegisterMiddleWare ::
  "('j, 'w) registry \<Rightarrow> ('j, 'w) middleware \<Rightarrow> ('j, 'w) registry" where
  "RegisterMiddleWare reg mw = reg\<lparr>queue := queue reg @ [mw]\<rparr>"

definition getMiddleWares :: "('j, 'w) registry \<Rightarrow> ('j, 'w) middleware list" where
  "getMiddleWares reg = queue reg"

text \<open>\<open>getHandler\<close>: the handler if there is one, and the request with its \<open>params\<close> set.\<close>

definition getHandler ::
  "('j, 'w) registry \<Rightarrow> 'j request \<Rightarrow> ('j, 'w) act option \<times> 'j request" where
  "getHandler reg r =
     (case searchNode (trie reg) (req_method r @ '':'' @ req_path r) [] of
        (Some node, ps) \<Rightarrow>
          (case handler node of
             Some h \<Rightarrow> (Some h, r\<lparr>params := ps\<rparr>)
           | None \<Rightarrow> (None, r))
      | (None, _) \<Rightarrow> (None, r))"

definition HandleRequest ::
  "('j, 'w) registry \<Rightarrow> ('j, 'w) ctx \<Rightarrow> bool \<times> ('j, 'w) outcome" where
  "HandleRequest reg c =
     (case getHandler reg (req c) of
        (Some h, r) \<Rightarrow> (True, h (c\<lparr>req := r\<rparr>))
      | (None, r) \<Rightarrow> (False, Ret (c\<lparr>req := r\<rparr>)))"

section \<open>RoutingBase: the verbs and use\<close>

definition GET
  :: "('j, 'w) registry \<Rightarrow> string \<Rightarrow> ('j, 'w) act option \<Rightarrow> ('j, 'w) registry" where
  "GET reg path h = Register (Register reg ''GET'' path h) ''HEAD'' path h"
definition POST
  :: "('j, 'w) registry \<Rightarrow> string \<Rightarrow> ('j, 'w) act option \<Rightarrow> ('j, 'w) registry" where
  "POST reg path h = Register reg ''POST'' path h"
definition PUT
  :: "('j, 'w) registry \<Rightarrow> string \<Rightarrow> ('j, 'w) act option \<Rightarrow> ('j, 'w) registry" where
  "PUT reg path h = Register reg ''PUT'' path h"
definition DELETE
  :: "('j, 'w) registry \<Rightarrow> string \<Rightarrow> ('j, 'w) act option \<Rightarrow> ('j, 'w) registry" where
  "DELETE reg path h = Register reg ''DELETE'' path h"
definition PATCH
  :: "('j, 'w) registry \<Rightarrow> string \<Rightarrow> ('j, 'w) act option \<Rightarrow> ('j, 'w) registry" where
  "PATCH reg path h = Register reg ''PATCH'' path h"
definition OPTIONS
  :: "('j, 'w) registry \<Rightarrow> string \<Rightarrow> ('j, 'w) act option \<Rightarrow> ('j, 'w) registry" where
  "OPTIONS reg path h = Register reg ''OPTIONS'' path h"
definition HEAD
  :: "('j, 'w) registry \<Rightarrow> string \<Rightarrow> ('j, 'w) act option \<Rightarrow> ('j, 'w) registry" where
  "HEAD reg path h = Register reg ''HEAD'' path h"
definition ALL_verbs
  :: "('j, 'w) registry \<Rightarrow> string \<Rightarrow> ('j, 'w) act option \<Rightarrow> ('j, 'w) registry" where
  "ALL_verbs reg path h =
     Register (Register (Register (Register (Register (Register (Register reg
       ''GET'' path h) ''POST'' path h) ''PUT'' path h) ''DELETE'' path h)
       ''PATCH'' path h) ''OPTIONS'' path h) ''HEAD'' path h"

text \<open>The lower-case versions.\<close>

definition get_route
  :: "('j, 'w) registry \<Rightarrow> string \<Rightarrow> ('j, 'w) act option \<Rightarrow> ('j, 'w) registry" where
  "get_route reg path h = GET reg path h"
definition post_route
  :: "('j, 'w) registry \<Rightarrow> string \<Rightarrow> ('j, 'w) act option \<Rightarrow> ('j, 'w) registry" where
  "post_route reg path h = POST reg path h"
definition put_route
  :: "('j, 'w) registry \<Rightarrow> string \<Rightarrow> ('j, 'w) act option \<Rightarrow> ('j, 'w) registry" where
  "put_route reg path h = PUT reg path h"
definition del_route
  :: "('j, 'w) registry \<Rightarrow> string \<Rightarrow> ('j, 'w) act option \<Rightarrow> ('j, 'w) registry" where
  "del_route reg path h = DELETE reg path h"
definition patch_route
  :: "('j, 'w) registry \<Rightarrow> string \<Rightarrow> ('j, 'w) act option \<Rightarrow> ('j, 'w) registry" where
  "patch_route reg path h = PATCH reg path h"
definition options_route
  :: "('j, 'w) registry \<Rightarrow> string \<Rightarrow> ('j, 'w) act option \<Rightarrow> ('j, 'w) registry" where
  "options_route reg path h = OPTIONS reg path h"
definition head_route
  :: "('j, 'w) registry \<Rightarrow> string \<Rightarrow> ('j, 'w) act option \<Rightarrow> ('j, 'w) registry" where
  "head_route reg path h = HEAD reg path h"
definition all_route
  :: "('j, 'w) registry \<Rightarrow> string \<Rightarrow> ('j, 'w) act option \<Rightarrow> ('j, 'w) registry" where
  "all_route reg path h = ALL_verbs reg path h"

text \<open>\<open>use(mw)\<close>, \<open>use(mw, args...)\<close> and \<open>use(path, mw, args...)\<close>.\<close>

definition use_mw :: "('j, 'w) registry \<Rightarrow> ('j, 'w) middleware \<Rightarrow> ('j, 'w) registry" where
  "use_mw reg mw = RegisterMiddleWare reg mw"

fun use_all :: "('j, 'w) registry \<Rightarrow> ('j, 'w) middleware list \<Rightarrow> ('j, 'w) registry" where
  "use_all reg [] = reg"
| "use_all reg (mw # mws) = use_all (RegisterMiddleWare reg mw) mws"

fun use_path :: "('j, 'w) registry \<Rightarrow> string \<Rightarrow> ('j, 'w) middleware list \<Rightarrow> ('j, 'w) registry" where
  "use_path reg path [] = reg"
| "use_path reg path (mw # mws) = use_path (RegisterMiddleWare reg (ScopedMw path mw)) path mws"

text \<open>\<open>executeMiddlewareChain(index, mws, req, res, finalHandler)\<close>.\<close>

function executeMiddlewareChain ::
  "nat \<Rightarrow> ('j, 'w) mw_fun list \<Rightarrow> ('j, 'w) act \<Rightarrow> ('j, 'w) act" where
  "executeMiddlewareChain index mws finalHandler =
     (if length mws \<le> index then finalHandler
      else (mws ! index) (executeMiddlewareChain (index + 1) mws finalHandler))"
  by pat_completeness auto
termination
  by (relation "measure (\<lambda>(index, mws, finalHandler). length mws - index)") auto

declare executeMiddlewareChain.simps [simp del]

lemma executeMiddlewareChain_foldr:
  "executeMiddlewareChain i mws final = foldr (\<lambda>mw k. mw k) (drop i mws) final"
proof (induction i mws final rule: executeMiddlewareChain.induct)
  case (1 i mws final)
  then show ?case
    by (simp add: executeMiddlewareChain.simps [of i] Cons_nth_drop_Suc [symmetric])
qed

lemma chain_Nil [simp]: "executeMiddlewareChain 0 [] final = final"
  by (simp add: executeMiddlewareChain_foldr)

lemma chain_Cons [simp]:
  "executeMiddlewareChain 0 (mw # mws) final = mw (executeMiddlewareChain 0 mws final)"
  by (simp add: executeMiddlewareChain_foldr)

lemma chain_append:
  "executeMiddlewareChain 0 (xs @ ys) final =
     executeMiddlewareChain 0 xs (executeMiddlewareChain 0 ys final)"
  by (simp add: executeMiddlewareChain_foldr)

section \<open>Keys and lookups\<close>

definition route_key :: "string \<Rightarrow> string \<Rightarrow> pattern" where
  "route_key m path = key_pattern (m @ '':'' @ path)"

definition route_segments :: "string \<Rightarrow> string \<Rightarrow> string list" where
  "route_segments m path = split (m @ '':'' @ path) ''/''"

definition table :: "('j, 'w) registry \<Rightarrow> pattern \<Rightarrow> ('j, 'w) act option" where
  "table reg = trie_routes (trie reg)"

definition resolve :: "('j, 'w) registry \<Rightarrow> string \<Rightarrow> string \<Rightarrow> ('j, 'w) act option" where
  "resolve reg m path = Option.bind (best (table reg) (route_segments m path)) (table reg)"

definition bindings :: "('j, 'w) registry \<Rightarrow> string \<Rightarrow> string \<Rightarrow> strmap" where
  "bindings reg m path =
     (case best (table reg) (route_segments m path) of
        None \<Rightarrow> []
      | Some p \<Rightarrow> smap_of (binds (root (trie reg)) p (route_segments m path)))"

lemma table_new [simp]: "table new_registry = Map.empty"
  by (simp add: table_def new_registry_def)

lemma table_Register [simp]: "table (Register reg m path h) = (table reg)(route_key m path := h)"
  by (simp add: table_def Register_def trie_routes_insert route_key_def)

lemma table_RegisterMiddleWare [simp]: "table (RegisterMiddleWare reg mw) = table reg"
  by (simp add: table_def RegisterMiddleWare_def)

lemma queue_simps [simp]:
  "queue (Register reg m path h) = queue reg"
  "queue (RegisterMiddleWare reg mw) = queue reg @ [mw]"
  by (simp_all add: Register_def RegisterMiddleWare_def)

theorem getHandler_resolve:
  "getHandler reg r =
     (case resolve reg (req_method r) (req_path r) of
        None \<Rightarrow> (None, r)
      | Some h \<Rightarrow> (Some h, r\<lparr>params := bindings reg (req_method r) (req_path r)\<rparr>))"
proof -
  let ?ss = "route_segments (req_method r) (req_path r)"
  let ?n = "root (trie reg)"
  have search: "searchNode (trie reg) (req_method r @ '':'' @ req_path r) [] = find_spec ?n ?ss []"
    by (simp add: searchNode_spec route_segments_def)
  show ?thesis
  proof (cases "best (table reg) ?ss")
    case None
    then show ?thesis
      unfolding getHandler_def search find_spec_def
      by (simp add: resolve_def table_def trie_routes_def)
  next
    case (Some p)
    then obtain n h where "node_at ?n p = Some n" and "handler n = Some h"
      by (auto simp: table_def trie_routes_def routes_def bind_eq_Some_conv dest!: best_SomeD)
    with Some show ?thesis
      unfolding getHandler_def search find_spec_def
      by (simp add: resolve_def table_def trie_routes_def routes_def bindings_def smap_of_def)
  qed
qed

lemma HandleRequest_resolve:
  "HandleRequest reg c =
     (case resolve reg (req_method (req c)) (cpath c) of
        None \<Rightarrow> (False, Ret c)
      | Some h \<Rightarrow>
          (True, h (c\<lparr>req := (req c)\<lparr>params := bindings reg (req_method (req c)) (cpath c)\<rparr>\<rparr>)))"
  by (simp add: HandleRequest_def getHandler_resolve split: option.splits)

section \<open>The route table as an interface\<close>

text \<open>
  What the verbs of \<open>RoutingBase\<close> rely on: registration overwrites the entry of its key and no
  other, and two different methods never share a key.
\<close>

locale route_table =
  fixes insert_route :: "'r \<Rightarrow> string \<Rightarrow> string \<Rightarrow> 'h option \<Rightarrow> 'r"
    and entry :: "'r \<Rightarrow> 'k \<Rightarrow> 'h option"
    and key :: "string \<Rightarrow> string \<Rightarrow> 'k"
    and verb :: "string \<Rightarrow> bool"
  assumes entry_insert: "entry (insert_route r m p h) = (entry r)(key m p := h)"
    and key_verb: "verb m \<Longrightarrow> verb m' \<Longrightarrow> key m p = key m' p' \<Longrightarrow> m = m'"
begin

lemma entry_insert_same: "entry (insert_route r m p h) (key m p) = h"
  by (simp add: entry_insert)

lemma entry_insert_other_verb:
  "verb m \<Longrightarrow> verb m' \<Longrightarrow> m \<noteq> m' \<Longrightarrow> entry (insert_route r m p h) (key m' p') = entry r (key m' p')"
  by (auto simp: entry_insert dest: key_verb)

lemma insert_insert: "entry (insert_route (insert_route r m p h) m p h') = entry (insert_route r m p h')"
  by (simp add: entry_insert)

lemma insert_commute:
  "verb m \<Longrightarrow> verb m' \<Longrightarrow> m \<noteq> m' \<Longrightarrow>
   entry (insert_route (insert_route r m p h) m' p' h') = entry (insert_route (insert_route r m' p' h') m p h)"
  by (auto simp: entry_insert fun_eq_iff dest: key_verb)

lemma entry_insert_all:
  "(\<forall>m \<in> set ms. verb m) \<Longrightarrow> verb m \<Longrightarrow>
   entry (fold (\<lambda>m r. insert_route r m p h) ms r) (key m p) =
     (if m \<in> set ms then h else entry r (key m p))"
  by (induction ms arbitrary: r) (auto simp: entry_insert dest: key_verb)

end

definition method_ok :: "string \<Rightarrow> bool" where
  "method_ok m \<longleftrightarrow> m \<noteq> [] \<and> COLON \<notin> set m \<and> SLASH \<notin> set m \<and> NUL \<notin> set m"

lemma tokens_first:
  "SLASH \<notin> set m \<Longrightarrow> m \<noteq> [] \<Longrightarrow> \<exists>x ss. tokens SLASH (m @ COLON # t) = (m @ COLON # x) # ss"
proof -
  assume m: "SLASH \<notin> set m" "m \<noteq> []"
  show ?thesis
  proof (cases "SLASH \<in> set t")
    case True
    then obtain u v where t: "t = u @ SLASH # v" "SLASH \<notin> set u" by (meson split_list_first)
    then have "SLASH \<notin> set (m @ COLON # u)" using m by simp
    from tokens_aux_sep [OF this, of "[]" v] show ?thesis using t by simp
  next
    case False
    then have "SLASH \<notin> set (m @ COLON # t)" using m by simp
    from tokens_aux_no_sep [OF this, of "[]"] show ?thesis by simp
  qed
qed

lemma route_segments_first:
  assumes "method_ok m"
  shows "\<exists>x ss. route_segments m path = (m @ COLON # x) # ss"
proof -
  have "NUL \<notin> set m" "SLASH \<notin> set m" "m \<noteq> []" using assms by (simp_all add: method_ok_def)
  then have "c_str (m @ '':'' @ path) = m @ COLON # c_str path"
    by (simp add: c_str_append) (simp add: c_str_def)
  then show ?thesis
    using tokens_first [of m "c_str path"] \<open>SLASH \<notin> set m\<close> \<open>m \<noteq> []\<close>
    by (simp add: route_segments_def split_eq_tokens)
qed

lemma route_segments_slash:
  assumes "method_ok m"
  shows "route_segments m (SLASH # path) = (m @ '':'') # split path ''/''"
proof -
  have m: "NUL \<notin> set m" "SLASH \<notin> set (m @ '':'')" using assms by (simp_all add: method_ok_def)
  then have "c_str (m @ '':'' @ SLASH # path) = (m @ '':'') @ SLASH # c_str path"
    by (simp add: c_str_append) (simp add: c_str_def)
  then show ?thesis
    using tokens_aux_sep [OF m(2), of "[]" "c_str path"]
    by (simp add: route_segments_def split_eq_tokens)
qed

lemma split_slash: "split (SLASH # path) ''/'' = split path ''/''"
  by (simp add: split_eq_tokens) (simp add: c_str_def)

lemma pattern_of_split: "pattern_of (split s ''/'') = map pat_seg (split s ''/'')"
  unfolding pattern_of_def using split_tokens [of SLASH _ s]
  by (subst filter_True) auto

lemma route_key_first:
  assumes "method_ok m"
  shows "\<exists>x ps. route_key m path = Lit (m @ COLON # x) # ps"
proof -
  obtain x ss where "route_segments m path = (m @ COLON # x) # ss"
    using route_segments_first [OF assms] by blast
  then have "route_key m path = pat_seg (m @ COLON # x) # map pat_seg ss"
    by (metis key_pattern_def list.simps(9) pattern_of_split route_key_def route_segments_def)
  moreover have "pat_seg (m @ COLON # x) = Lit (m @ COLON # x)"
    using assms by (cases m) (auto simp: pat_seg_def method_ok_def)
  ultimately show ?thesis by simp
qed

lemma route_key_slash:
  assumes "method_ok m"
  shows "route_key m (SLASH # path) = Lit (m @ '':'') # map pat_seg (split path ''/'')"
proof -
  have "pat_seg (m @ '':'') = Lit (m @ '':'')"
    using assms by (cases m) (auto simp: pat_seg_def method_ok_def)
  then show ?thesis
    using pattern_of_split [of "m @ '':'' @ SLASH # path"] route_segments_slash [OF assms, of path]
    by (simp add: route_key_def key_pattern_def route_segments_def)
qed

lemma method_colon_unique:
  "m @ COLON # x = m' @ COLON # x' \<Longrightarrow> COLON \<notin> set m \<Longrightarrow> COLON \<notin> set m' \<Longrightarrow> m = m'"
proof (induction m arbitrary: m')
  case Nil
  then show ?case by (cases m') auto
next
  case (Cons c m)
  then show ?case by (cases m') auto
qed

interpretation rt: route_table Register table route_key method_ok
proof
  fix m m' p p'
  assume "method_ok m" "method_ok m'" "route_key m p = route_key m' p'"
  then obtain x x' where "m @ COLON # x = m' @ COLON # x'"
    using route_key_first [of m p] route_key_first [of m' p'] by (metis list.inject seg.inject)
  with \<open>method_ok m\<close> \<open>method_ok m'\<close> show "m = m'"
    by (intro method_colon_unique [of m x m' x']) (simp_all add: method_ok_def)
qed simp

lemma method_ok_verbs [simp]:
  "method_ok ''GET''" "method_ok ''POST''" "method_ok ''PUT''" "method_ok ''DELETE''"
  "method_ok ''PATCH''" "method_ok ''OPTIONS''" "method_ok ''HEAD''"
  by (simp_all add: method_ok_def)

definition all_verbs :: "string list" where
  "all_verbs = [''GET'', ''POST'', ''PUT'', ''DELETE'', ''PATCH'', ''OPTIONS'', ''HEAD'']"

lemma ALL_verbs_fold: "ALL_verbs reg path h = fold (\<lambda>m r. Register r m path h) all_verbs reg"
  by (simp add: ALL_verbs_def all_verbs_def)

section \<open>Resolution\<close>

text \<open>A registered pattern that matches makes the request resolve, to it or to a smaller one.\<close>

lemma resolve_covered:
  assumes "table reg p = Some h" and "covers p (route_segments m path)"
  shows "\<exists>q h'. q \<le> p \<and> covers q (route_segments m path) \<and> table reg q = Some h' \<and>
           resolve reg m path = Some h'"
proof -
  obtain q where q: "best (table reg) (route_segments m path) = Some q"
    using assms best_None_iff [of "table reg" "route_segments m path"]
    by (cases "best (table reg) (route_segments m path)") auto
  then have "q \<le> p" using best_least assms by fastforce
  moreover obtain h' where "table reg q = Some h'" and "covers q (route_segments m path)"
    using best_SomeD [OF q] by (auto simp: candidates_covers)
  ultimately show ?thesis using q by (auto simp: resolve_def)
qed

lemma resolve_literals:
  "table reg (map Lit (route_segments m path)) = Some h \<Longrightarrow> resolve reg m path = Some h"
  by (simp add: resolve_def best_literals)

lemma resolve_None_iff:
  "resolve reg m path = None \<longleftrightarrow> (\<forall>p. covers p (route_segments m path) \<longrightarrow> table reg p = None)"
  using best_None_iff [of "table reg" "route_segments m path"]
    best_SomeD [of "table reg" "route_segments m path"]
  by (cases "best (table reg) (route_segments m path)")
    (fastforce simp: resolve_def candidates_covers)+

lemma covers_first:
  "covers p (s # ss) \<Longrightarrow> \<exists>q p'. p = q # p' \<and> (q = Par \<or> q = Lit s) \<and> covers p' ss"
  by (auto simp: covers_def list_all2_Cons2)

lemma resolve_cong:
  assumes "\<And>q. covers q (route_segments m path) \<Longrightarrow> table reg q = table reg' q"
  shows "resolve reg m path = resolve reg' m path"
proof -
  have eq: "best (table reg) (route_segments m path) = best (table reg') (route_segments m path)"
    unfolding best_def using assms by (intro find_cong) (auto simp: candidates_covers)
  show ?thesis
  proof (cases "best (table reg) (route_segments m path)")
    case None
    with eq show ?thesis by (simp add: resolve_def)
  next
    case (Some q)
    then have "covers q (route_segments m path)"
      using best_SomeD [OF Some] by (simp add: candidates_covers)
    with Some eq assms [of q] show ?thesis by (simp add: resolve_def)
  qed
qed

text \<open>Registering under one method does not change what another method resolves to.\<close>

lemma resolve_Register_other:
  assumes "method_ok m" and "method_ok m'" and "m \<noteq> m'"
  shows "resolve (Register reg m p h) m' path = resolve reg m' path"
proof (rule resolve_cong)
  fix q assume c: "covers q (route_segments m' path)"
  obtain x ps where "route_key m p = Lit (m @ COLON # x) # ps"
    using route_key_first [OF assms(1)] by blast
  moreover obtain x' ss where "route_segments m' path = (m' @ COLON # x') # ss"
    using route_segments_first [OF assms(2)] by blast
  ultimately have "q \<noteq> route_key m p"
    using c assms method_colon_unique [of m x m' x']
    by (auto dest!: covers_first simp: method_ok_def)
  then show "table (Register reg m p h) q = table reg q" by simp
qed

section \<open>Routes that are found\<close>

text \<open>A route is reached unless a smaller pattern that matches is registered as well.\<close>

lemma resolve_Register_least:
  assumes "covers (route_key m pat) (route_segments m path)"
    and "\<forall>q. covers q (route_segments m path) \<longrightarrow> q < route_key m pat \<longrightarrow> table reg q = None"
  shows "resolve (Register reg m pat (Some h)) m path = Some h"
proof -
  let ?reg = "Register reg m pat (Some h)"
  obtain q h' where q: "q \<le> route_key m pat" "covers q (route_segments m path)"
    "table ?reg q = Some h'" "resolve ?reg m path = Some h'"
    using resolve_covered [of ?reg "route_key m pat" h m path] assms(1) by auto
  have "q = route_key m pat"
  proof (rule ccontr)
    assume "q \<noteq> route_key m pat"
    with q(1) have "q < route_key m pat" by simp
    with assms(2) q(2,3) \<open>q \<noteq> route_key m pat\<close> show False by simp
  qed
  with q show ?thesis by simp
qed

definition literal_path :: "string \<Rightarrow> bool" where
  "literal_path path \<longleftrightarrow>
     path \<noteq> [] \<and> hd path = SLASH \<and> list_all (\<lambda>s. hd s \<noteq> COLON) (split path ''/'')"

lemma literal_key_segments:
  assumes "method_ok m" and "literal_path p"
  shows "route_key m p = map Lit (route_segments m p)"
proof -
  obtain t where p: "p = SLASH # t" using assms(2) by (cases p) (auto simp: literal_path_def)
  have "list_all (\<lambda>s. hd s \<noteq> COLON) (split t ''/'')"
    using assms(2) by (simp add: literal_path_def p split_slash)
  then show ?thesis
    unfolding p route_key_slash [OF assms(1)] route_segments_slash [OF assms(1)]
    by (simp add: pat_seg_def list_all_iff)
qed

lemma segments_cong:
  assumes "method_ok m" and "hd p = SLASH" "p \<noteq> []" and "hd p' = SLASH" "p' \<noteq> []"
    and "split p ''/'' = split p' ''/''"
  shows "route_segments m p = route_segments m p'"
proof -
  obtain t t' where "p = SLASH # t" "p' = SLASH # t'" using assms by (cases p; cases p') auto
  with assms(6) show ?thesis by (simp add: route_segments_slash [OF assms(1)] split_slash)
qed

lemma resolve_literal_route:
  assumes "method_ok m" and "literal_path p"
    and "table reg (route_key m p) = Some h"
    and "hd p' = SLASH" "p' \<noteq> []" and "split p' ''/'' = split p ''/''"
  shows "resolve reg m p' = Some h"
proof -
  have "route_segments m p' = route_segments m p"
    using assms by (intro segments_cong) (auto simp: literal_path_def)
  with assms(3) show ?thesis
    using resolve_literals [of reg m p'] literal_key_segments [OF assms(1,2)] by simp
qed

section \<open>Parameters bound by a route\<close>

lemma child_at_insert_fresh:
  assumes "s \<noteq> []" and "child_at n (pat_seg s) = None"
  shows "child_at (insert_segments n (s # ss) h) (pat_seg s) = Some (insert_segments (new_node s) ss h)"
  using assms by (simp add: child_at_insertChild)

lemma parameterName_insert [simp]: "parameterName (insert_segments (new_node s) ss h) =
    (if s \<noteq> [] \<and> hd s = COLON then tl s else [])"
  using node_tag_insert_segments [of "new_node s" ss h]
  by (simp add: node_tag_def new_node_def split: if_splits)

lemma binds_insert_fresh:
  "(\<forall>s \<in> set ss. s \<noteq> []) \<Longrightarrow> (\<And>p. child_at n p = None) \<Longrightarrow> length vs = length ss \<Longrightarrow>
   binds (insert_segments n ss h) (map pat_seg ss) vs =
     map (\<lambda>(s, v). (tl s, v)) (filter (\<lambda>(s, v). hd s = COLON) (zip ss vs))"
proof (induction ss arbitrary: n vs)
  case Nil
  then show ?case by simp
next
  case (Cons s ss)
  then obtain v vs' where vs: "vs = v # vs'" by (cases vs) auto
  have step: "binds (insert_segments n (s # ss) h) (map pat_seg (s # ss)) vs =
      (if pat_seg s = Par then [(tl s, v)] else []) @
      binds (insert_segments (new_node s) ss h) (map pat_seg ss) vs'"
    using Cons.prems child_at_insert_fresh [of s n ss h]
    by (auto simp: vs pat_seg_def simp del: insert_segments_Cons)
  have rest: "binds (insert_segments (new_node s) ss h) (map pat_seg ss) vs' =
      map (\<lambda>(s, v). (tl s, v)) (filter (\<lambda>(s, v). hd s = COLON) (zip ss vs'))"
    using Cons.prems by (intro Cons.IH) (simp_all add: vs)
  show ?case unfolding step rest by (simp add: vs pat_seg_def)
qed

lemma best_single:
  assumes "covers p ss" and "f p \<noteq> None" and "\<And>q. f q \<noteq> None \<Longrightarrow> q = p"
  shows "best f ss = Some p"
proof (cases "best f ss")
  case None
  with assms(1,2) show ?thesis by (simp add: best_None_iff)
next
  case (Some q)
  with assms(3) [of q] best_SomeD [OF Some] show ?thesis by simp
qed

lemma root_Register: "root (trie (Register reg m path h)) =
    insert_segments (root (trie reg)) (route_segments m path) h"
  by (simp add: Register_def trie_insert_def node_insert_def route_segments_def)

lemma child_at_new_registry [simp]: "child_at (root (trie new_registry)) p = None"
  by (simp add: new_registry_def new_trie_def)

lemma bindings_single:
  assumes m: "method_ok m" and pat: "hd pat = SLASH" "pat \<noteq> []" and path: "hd path = SLASH" "path \<noteq> []"
    and covers: "covers (map pat_seg (split pat ''/'')) (split path ''/'')"
  shows "resolve (Register new_registry m pat (Some h)) m path = Some h \<and>
    bindings (Register new_registry m pat (Some h)) m path =
      smap_of (map (\<lambda>(s, v). (tl s, v))
        (filter (\<lambda>(s, v). hd s = COLON) (zip (split pat ''/'') (split path ''/''))))"
proof -
  let ?reg = "Register new_registry m pat (Some h)"
  let ?ss = "route_segments m pat" and ?vs = "route_segments m path"
  obtain t t' where "pat = SLASH # t" "path = SLASH # t'" using pat path by (cases pat; cases path) auto
  then have ss: "?ss = (m @ '':'') # split pat ''/''" "?vs = (m @ '':'') # split path ''/''"
    using m by (simp_all add: route_segments_slash split_slash)
  have first: "pat_seg (m @ '':'') = Lit (m @ '':'')" "hd (m @ '':'') \<noteq> COLON"
    using m by (cases m; auto simp: pat_seg_def method_ok_def)+
  have key: "route_key m pat = map pat_seg ?ss"
    using pattern_of_split [of "m @ '':'' @ pat"] by (simp add: route_key_def key_pattern_def route_segments_def)
  have cov: "covers (map pat_seg ?ss) ?vs" using covers first ss by (simp add: covers_def)
  then have best: "best (table ?reg) ?vs = Some (map pat_seg ?ss)"
    by (intro best_single) (auto simp: key split: if_splits)
  have "\<forall>s \<in> set ?ss. s \<noteq> []" using split_tokens [of SLASH _ "m @ '':'' @ pat"] by (auto simp: route_segments_def)
  then have "binds (root (trie ?reg)) (map pat_seg ?ss) ?vs =
      map (\<lambda>(s, v). (tl s, v)) (filter (\<lambda>(s, v). hd s = COLON) (zip ?ss ?vs))"
    unfolding root_Register using cov
    by (intro binds_insert_fresh) (auto simp: covers_def dest: list_all2_lengthD)
  with best first ss show ?thesis by (simp add: bindings_def resolve_def key)
qed

lemma binds_insert_other:
  "s \<noteq> [] \<Longrightarrow> p \<noteq> pat_seg s \<Longrightarrow> binds (insert_segments n (s # ss) h) (p # ps) vs = binds n (p # ps) vs"
  by (cases vs) (simp_all add: child_at_insertChild)

lemma bindings_Register_other:
  assumes "method_ok m" and "method_ok m'" and "m \<noteq> m'"
  shows "bindings (Register reg m p h) m' path = bindings reg m' path"
proof -
  obtain x ss where ss: "route_segments m p = (m @ COLON # x) # ss"
    using route_segments_first [OF assms(1)] by blast
  obtain x' vs where vs: "route_segments m' path = (m' @ COLON # x') # vs"
    using route_segments_first [OF assms(2)] by blast
  have seg: "pat_seg (m @ COLON # x) = Lit (m @ COLON # x)"
    using assms(1) by (cases m) (auto simp: pat_seg_def method_ok_def)
  have ne: "m @ COLON # x \<noteq> m' @ COLON # x'"
    using assms method_colon_unique [of m x m' x'] by (auto simp: method_ok_def)
  have other: "q \<noteq> route_key m p" if "covers q (route_segments m' path)" for q
  proof -
    have "route_key m p = map pat_seg (route_segments m p)"
      using pattern_of_split [of "m @ '':'' @ p"] by (simp add: route_key_def key_pattern_def route_segments_def)
    with that ne seg show ?thesis by (auto simp: ss vs dest!: covers_first)
  qed
  have best: "best (table (Register reg m p h)) (route_segments m' path) =
      best (table reg) (route_segments m' path)"
    unfolding best_def using other by (intro find_cong) (auto simp: candidates_covers)
  show ?thesis
  proof (cases "best (table reg) (route_segments m' path)")
    case None
    with best show ?thesis by (simp add: bindings_def)
  next
    case (Some q)
    then have "covers q (route_segments m' path)" using best_SomeD [OF Some] by (simp add: candidates_covers)
    then obtain a q' where q: "q = a # q'" "a = Par \<or> a = Lit (m' @ COLON # x')"
      unfolding vs by (auto dest: covers_first)
    with ne seg have "a \<noteq> pat_seg (m @ COLON # x)" by auto
    then have "binds (root (trie (Register reg m p h))) q vs' = binds (root (trie reg)) q vs'" for vs'
      unfolding root_Register ss q by (intro binds_insert_other) simp_all
    with Some best show ?thesis by (simp add: bindings_def)
  qed
qed


lemma resolve_fold_other:
  "(\<forall>m \<in> set ms. method_ok m \<and> m \<noteq> m') \<Longrightarrow> method_ok m' \<Longrightarrow>
   resolve (fold (\<lambda>m r. Register r m p h) ms reg) m' path = resolve reg m' path"
  by (induction ms arbitrary: reg) (simp_all add: resolve_Register_other)

section \<open>Properties\<close>

text \<open>A small table for examples: a parameter route and a literal route beside it.\<close>

definition users_table :: "(unit, unit) registry" where
  "users_table =
     Register (Register new_registry ''GET'' ''/users/:id'' (Some Ret))
       ''GET'' ''/users/new'' (Some (\<lambda>c. Exc (Std ''new'') c))"

lemmas segment_eval = split_eq_tokens c_str_def route_segments_def route_key_def key_pattern_def
  pattern_of_def pat_seg_def covers_def

text \<open>
  A registered route serves every request it matches unless a smaller pattern that also
  matches is registered: neither earlier routes nor dead ends in the search hide it.
\<close>

theorem route_served_unless_smaller:
  assumes "covers (route_key m pat) (route_segments m (req_path r))" and "req_method r = m"
    and "\<forall>q. covers q (route_segments m (req_path r)) \<longrightarrow> q < route_key m pat \<longrightarrow> table reg q = None"
  shows "fst (getHandler (Register reg m pat (Some h)) r) = Some h"
  using resolve_Register_least [OF assms(1,3), of h] assms(2) by (simp add: getHandler_resolve)

theorem route_served_unless_smaller_witness:
  "fst (getHandler (Register (Register new_registry ''GET'' ''/users/:id'' (Some (\<lambda>c. Exc (Std ''param'') c)))
     ''GET'' ''/users/new'' (Some Ret)) (plain_request ''GET'' ''/users//new/'')) = Some Ret"
  by (rule route_served_unless_smaller) (auto simp: segment_eval)

text \<open>
  A route without parameters is served whatever else is registered, parameter routes
  included, and the request may write its path with doubled or trailing slashes.
\<close>

theorem literal_route_wins:
  assumes "method_ok m" and "literal_path p" and "table reg (route_key m p) = Some h"
    and "req_method r = m" and "hd (req_path r) = SLASH" and "req_path r \<noteq> []"
    and "split (req_path r) ''/'' = split p ''/''"
  shows "fst (getHandler reg r) = Some h"
  using resolve_literal_route [of m p reg h "req_path r"] assms by (simp add: getHandler_resolve)

theorem literal_route_wins_witness:
  "fst (getHandler users_table (plain_request ''GET'' ''/users//new/'')) = Some (\<lambda>c. Exc (Std ''new'') c)"
  by (rule literal_route_wins [where m = "''GET''" and p = "''/users/new''"])
    (simp_all add: users_table_def literal_path_def segment_eval)

text \<open>
  The parameters of a request are the names of the pattern's parameter segments paired with
  the path segments at their places; anything else in the request stays as it was.
\<close>

theorem params_of_single_route:
  assumes "method_ok (req_method r)" and "hd pat = SLASH" and "pat \<noteq> []"
    and "hd (req_path r) = SLASH" and "req_path r \<noteq> []"
    and "covers (map pat_seg (split pat ''/'')) (split (req_path r) ''/'')"
  shows "getHandler (Register new_registry (req_method r) pat (Some h)) r =
    (Some h, r\<lparr>params := smap_of (map (\<lambda>(s, v). (tl s, v))
       (filter (\<lambda>(s, v). hd s = COLON) (zip (split pat ''/'') (split (req_path r) ''/''))))\<rparr>)"
  using bindings_single [OF assms, of h] by (simp add: getHandler_resolve)

theorem params_of_single_route_witness:
  "getHandler (Register new_registry ''GET'' ''/a/:x/:y'' (Some Ret)) (plain_request ''GET'' ''/a/1/2'') =
    (Some Ret, (plain_request ''GET'' ''/a/1/2'')\<lparr>params := [(''x'', ''1''), (''y'', ''2'')]\<rparr>)"
  using params_of_single_route [of "plain_request ''GET'' ''/a/1/2''" "''/a/:x/:y''" Ret]
  by (simp add: segment_eval smap_of_def)

text \<open>
  A GET route answers HEAD. An explicit HEAD registered afterwards takes over HEAD and leaves
  GET alone; a GET registered after an explicit HEAD replaces it.
\<close>

theorem get_route_answers_head:
  assumes "literal_path p"
  shows "resolve (GET reg p (Some h)) ''GET'' p = Some h \<and>
    resolve (GET reg p (Some h)) ''HEAD'' p = Some h \<and>
    resolve (HEAD (GET reg p (Some h)) p (Some h')) ''HEAD'' p = Some h' \<and>
    resolve (HEAD (GET reg p (Some h)) p (Some h')) ''GET'' p = Some h \<and>
    resolve (GET (HEAD reg p (Some h')) p (Some h)) ''HEAD'' p = Some h"
proof -
  have p: "hd p = SLASH" "p \<noteq> []" using assms by (auto simp: literal_path_def)
  have ne: "route_key ''GET'' p \<noteq> route_key ''HEAD'' p"
    using rt.key_verb [of "''GET''" "''HEAD''" p p] by auto
  note lit = resolve_literal_route [OF _ assms _ p refl]
  show ?thesis
  proof (intro conjI)
    show "resolve (GET reg p (Some h)) ''GET'' p = Some h"
      using ne by (intro lit) (simp_all add: GET_def)
    show "resolve (GET reg p (Some h)) ''HEAD'' p = Some h" by (intro lit) (simp_all add: GET_def)
    show "resolve (HEAD (GET reg p (Some h)) p (Some h')) ''HEAD'' p = Some h'"
      by (intro lit) (simp_all add: HEAD_def)
    show "resolve (HEAD (GET reg p (Some h)) p (Some h')) ''GET'' p = Some h"
      using ne by (intro lit) (simp_all add: GET_def HEAD_def)
    show "resolve (GET (HEAD reg p (Some h')) p (Some h)) ''HEAD'' p = Some h"
      by (intro lit) (simp_all add: GET_def HEAD_def)
  qed
qed

theorem get_route_answers_head_witness:
  "resolve (GET users_table ''/a'' (Some Ret)) ''HEAD'' ''/a'' = Some Ret"
  using get_route_answers_head [of "''/a''" users_table Ret Ret]
  by (simp add: literal_path_def segment_eval)

text \<open>
  Registration under one method changes neither the handler nor the parameters of requests
  with another method.
\<close>

theorem methods_are_separate:
  assumes "method_ok m" and "method_ok (req_method r)" and "m \<noteq> req_method r"
  shows "getHandler (Register reg m pat h) r = getHandler reg r"
  using assms by (simp add: getHandler_resolve resolve_Register_other bindings_Register_other
      split: option.split)

theorem methods_are_separate_witness:
  "getHandler (Register users_table ''POST'' ''/users/:name'' (Some Ret)) (plain_request ''GET'' ''/users/7'') =
   getHandler users_table (plain_request ''GET'' ''/users/7'')"
  by (rule methods_are_separate) simp_all

text \<open>
  ALL registers the handler for each of the seven verbs and for no other method.
\<close>

theorem ALL_registers_all_verbs:
  assumes "literal_path p"
  shows "(\<forall>m \<in> set all_verbs. resolve (ALL_verbs reg p (Some h)) m p = Some h) \<and>
    (method_ok m' \<longrightarrow> m' \<notin> set all_verbs \<longrightarrow>
       resolve (ALL_verbs reg p (Some h)) m' path = resolve reg m' path)"
proof (intro conjI ballI impI)
  fix m assume m: "m \<in> set all_verbs"
  have ok: "\<forall>m \<in> set all_verbs. method_ok m" by (simp add: all_verbs_def)
  have "table (ALL_verbs reg p (Some h)) (route_key m p) = Some h"
    unfolding ALL_verbs_fold using rt.entry_insert_all [OF ok, of m] ok m by simp
  then show "resolve (ALL_verbs reg p (Some h)) m p = Some h"
    using ok m assms by (intro resolve_literal_route) (auto simp: literal_path_def)
next
  assume m': "method_ok m'" "m' \<notin> set all_verbs"
  show "resolve (ALL_verbs reg p (Some h)) m' path = resolve reg m' path"
    unfolding ALL_verbs_fold using m' by (intro resolve_fold_other) (auto simp: all_verbs_def)
qed

theorem ALL_registers_all_verbs_witness:
  "resolve (ALL_verbs users_table ''/a'' (Some Ret)) ''PATCH'' ''/a'' = Some Ret \<and>
   resolve (ALL_verbs users_table ''/a'' (Some Ret)) ''TRACE'' ''/a'' = resolve users_table ''TRACE'' ''/a''"
  using ALL_registers_all_verbs [of "''/a''" users_table Ret "''TRACE''" "''/a''"]
  by (simp add: literal_path_def segment_eval all_verbs_def method_ok_def)

text \<open>
  The recursive walk by index is the composition of the middleware from that index on, in
  order, around the final handler.
\<close>

theorem chain_is_composition:
  "executeMiddlewareChain i mws final = foldr (\<lambda>mw k. mw k) (drop i mws) final"
  by (rule executeMiddlewareChain_foldr)

text \<open>
  A middleware that does not call \<open>next\<close> on a request ends the chain there: what comes after
  it, and the route, have no influence on the outcome.
\<close>

theorem chain_short_circuit:
  assumes "\<forall>k c. stop k c = answer c"
  shows "executeMiddlewareChain 0 (before @ stop # after) final =
    executeMiddlewareChain 0 before answer"
proof -
  have "stop k = answer" for k using assms by (simp add: fun_eq_iff)
  then show ?thesis by (simp add: chain_append)
qed

theorem chain_short_circuit_witness:
  "executeMiddlewareChain 0 ([\<lambda>k. k] @ (\<lambda>k c. Exc (Std ''denied'') c) # [\<lambda>k. k]) Ret =
   executeMiddlewareChain 0 [\<lambda>k. k] (\<lambda>c. Exc (Std ''denied'') c :: (unit, unit) outcome)"
  by (rule chain_short_circuit) simp

end
