(* ===== verification/Http_Parser.thy ===== *)
theory Http_Parser
  imports Http_Message
begin

text \<open>
  \<open>HttpParser\<close> (\<open>src/HttpParser.h\<close>, \<open>src/HttpParser.cpp\<close>): the callbacks that assemble a request
  from the pieces llhttp hands over, the header budget, and \<open>execute\<close>. llhttp itself is not part
  of the repository: it is a parameter, the sequence of callbacks it would make for a chunk of
  input, its next state and its return code.
\<close>

section \<open>applyTarget\<close>

fun add_query_pairs :: "string list \<Rightarrow> strmap \<Rightarrow> strmap" where
  "add_query_pairs [] q = q"
| "add_query_pairs (pair # pairs) q =
     add_query_pairs pairs
       (case str_find pair ''='' 0 of
          Some eq \<Rightarrow> smap_set (take eq pair) (drop (eq + 1) pair) q
        | None \<Rightarrow> q)"

text \<open>The scheme and the authority of an absolute-form target are stripped.\<close>

definition strip_authority :: "string \<Rightarrow> string" where
  "strip_authority decoded =
     (case str_find decoded ''://'' 0 of
        Some scheme \<Rightarrow>
          (case str_find decoded ''/'' (scheme + 3) of
             None \<Rightarrow> ''/''
           | Some pathStart \<Rightarrow> drop pathStart decoded)
      | None \<Rightarrow> decoded)"

definition applyTarget :: "string \<Rightarrow> 'j request \<Rightarrow> 'j request" where
  "applyTarget target r =
     (let decoded = strip_authority (url_decode target);
          q = str_find decoded ''?'' 0;
          path = (case q of None \<Rightarrow> decoded | Some i \<Rightarrow> take i decoded);
          r1 = r\<lparr>req_path := (if path = [] then ''/'' else path)\<rparr> in
      case q of
        None \<Rightarrow> r1
      | Some i \<Rightarrow> r1\<lparr>query := add_query_pairs (split (drop (i + 1) decoded) ''&'') (query r1)\<rparr>)"

section \<open>The callbacks\<close>

text \<open>What llhttp reports, in the order it reports it; the last one carries the method name, the
  version numbers and the verdict of \<open>llhttp_should_keep_alive\<close>.\<close>

datatype event =
  OnUrl string
| OnHeaderField string
| OnHeaderValue string
| OnHeadersComplete
| OnBody string
| OnMessageComplete string nat nat bool

type_synonym size_t = "64 word"

definition size_of :: "string \<Rightarrow> size_t" where
  "size_of s = of_nat (length s)"

text \<open>
  The members of \<open>Impl\<close>, and \<open>escaping\<close>, which is not a member: it says that an exception a
  handler threw was not caught and is leaving the callback through llhttp's C frames.
\<close>

record impl =
  target :: string
  hfield :: string
  hvalue :: string
  ibody :: string
  iheaders :: strmap
  readingValue :: bool
  maxHeaderBytes :: size_t
  headerBytes :: size_t
  headerLimitHit :: bool
  failure :: string
  escaping :: bool

definition kMaxHeaderBytes :: size_t where
  "kMaxHeaderBytes = 16 * 1024"

definition new_impl :: "size_t \<Rightarrow> impl" where
  "new_impl n =
     \<lparr>target = [], hfield = [], hvalue = [], ibody = [], iheaders = [], readingValue = False,
      maxHeaderBytes = n, headerBytes = 0, headerLimitHit = False, failure = [],
      escaping = False\<rparr>"

definition commitHeader :: "impl \<Rightarrow> impl" where
  "commitHeader i =
     (if hfield i \<noteq> [] then i\<lparr>iheaders := smap_set (hfield i) (hvalue i) (iheaders i)\<rparr> else i)
       \<lparr>hfield := [], hvalue := []\<rparr>"

definition charge :: "impl \<Rightarrow> size_t \<Rightarrow> bool \<times> impl" where
  "charge i len =
     (let i1 = i\<lparr>headerBytes := headerBytes i + len\<rparr> in
      if headerBytes i1 > maxHeaderBytes i1
      then (False, i1\<lparr>headerLimitHit := True,
              failure := ''header section exceeds '' @ nat_to_string (unat (maxHeaderBytes i1)) @
                         '' bytes''\<rparr>)
      else (True, i1))"

definition resetRequest :: "impl \<Rightarrow> impl" where
  "resetRequest i =
     i\<lparr>target := [], hfield := [], hvalue := [], ibody := [], iheaders := [],
       readingValue := False, headerBytes := 0\<rparr>"

text \<open>A callback returns 0 (here \<^term>\<open>True\<close>) or \<open>HPE_USER\<close> (\<^term>\<open>False\<close>).\<close>

definition onUrl :: "string \<Rightarrow> impl \<Rightarrow> bool \<times> impl" where
  "onUrl at i =
     (case charge i (size_of at) of
        (False, i1) \<Rightarrow> (False, i1)
      | (True, i1) \<Rightarrow> (True, i1\<lparr>target := target i1 @ at\<rparr>))"

definition onHeaderField :: "string \<Rightarrow> impl \<Rightarrow> bool \<times> impl" where
  "onHeaderField at i =
     (case charge i (size_of at) of
        (False, i1) \<Rightarrow> (False, i1)
      | (True, i1) \<Rightarrow>
          let i2 = (if readingValue i1 then (commitHeader i1)\<lparr>readingValue := False\<rparr> else i1)
          in (True, i2\<lparr>hfield := hfield i2 @ at\<rparr>))"

definition onHeaderValue :: "string \<Rightarrow> impl \<Rightarrow> bool \<times> impl" where
  "onHeaderValue at i =
     (case charge i (size_of at) of
        (False, i1) \<Rightarrow> (False, i1)
      | (True, i1) \<Rightarrow> (True, i1\<lparr>readingValue := True, hvalue := hvalue i1 @ at\<rparr>))"

definition onHeadersComplete :: "impl \<Rightarrow> bool \<times> impl" where
  "onHeadersComplete i = (True, commitHeader i)"

definition onBody :: "string \<Rightarrow> impl \<Rightarrow> bool \<times> impl" where
  "onBody at i = (True, i\<lparr>ibody := ibody i @ at\<rparr>)"

text \<open>
  The request built from the assembled pieces, or what the JSON parser threw. Reading
  \<open>request.headers["Content-Type"]\<close> inserts an empty entry when the header is missing.
\<close>

definition build_request ::
  "'j json_lib \<Rightarrow> string \<Rightarrow> nat \<Rightarrow> nat \<Rightarrow> string \<Rightarrow> strmap \<Rightarrow> string \<Rightarrow> string + 'j request" where
  "build_request J meth major minor tgt hdrs bdy =
     (let r0 = (new_request J)\<lparr>req_method := meth,
                 req_protocol := ''HTTP/'' @ nat_to_string major @ ''.'' @ nat_to_string minor,
                 req_headers := hdrs\<rparr>;
          r1 = applyTarget tgt r0 in
      if bdy = [] then Inr r1
      else
        let (contentType, hs) = smap_index ''Content-Type'' (req_headers r1);
            r2 = r1\<lparr>req_headers := hs\<rparr> in
        if contentType = ''application/json'' then
          (case j_parse J bdy of
             Inl what \<Rightarrow> Inl what
           | Inr j \<Rightarrow>
               (case setJson J j (req_body r2) of
                  (Some what, _) \<Rightarrow> Inl what
                | (None, b) \<Rightarrow> Inr (r2\<lparr>req_body := b\<rparr>)))
        else Inr (r2\<lparr>req_body := setText bdy (req_body r2)\<rparr>))"

text \<open>
  The request handler the owner of the parser passes to \<open>execute\<close>: it runs on the owner's state
  and returns or throws.
\<close>

type_synonym ('j, 's) request_handler = "'j request \<Rightarrow> bool \<Rightarrow> 's \<Rightarrow> exn option \<times> 's"

definition onMessageComplete ::
  "'j json_lib \<Rightarrow> ('j, 's) request_handler \<Rightarrow> string \<Rightarrow> nat \<Rightarrow> nat \<Rightarrow> bool \<Rightarrow>
   impl \<Rightarrow> 's \<Rightarrow> bool \<times> impl \<times> 's" where
  "onMessageComplete J h meth major minor keepAlive i s =
     (case build_request J meth major minor (target i) (iheaders i) (ibody i) of
        Inl what \<Rightarrow> (False, i\<lparr>failure := ''invalid JSON body: '' @ what\<rparr>, s)
      | Inr request \<Rightarrow>
          let i1 = resetRequest i in
          (case h request keepAlive s of
             (Some (Std what), s1) \<Rightarrow> (False, i1\<lparr>failure := ''handler threw: '' @ what\<rparr>, s1)
           | (Some Foreign, s1) \<Rightarrow> (False, i1\<lparr>escaping := True\<rparr>, s1)
           | (None, s1) \<Rightarrow> (True, i1, s1)))"

fun callback ::
  "'j json_lib \<Rightarrow> ('j, 's) request_handler \<Rightarrow> event \<Rightarrow> impl \<Rightarrow> 's \<Rightarrow> bool \<times> impl \<times> 's" where
  "callback J h (OnUrl at) i s = (case onUrl at i of (ok, i1) \<Rightarrow> (ok, i1, s))"
| "callback J h (OnHeaderField at) i s = (case onHeaderField at i of (ok, i1) \<Rightarrow> (ok, i1, s))"
| "callback J h (OnHeaderValue at) i s = (case onHeaderValue at i of (ok, i1) \<Rightarrow> (ok, i1, s))"
| "callback J h OnHeadersComplete i s = (case onHeadersComplete i of (ok, i1) \<Rightarrow> (ok, i1, s))"
| "callback J h (OnBody at) i s = (case onBody at i of (ok, i1) \<Rightarrow> (ok, i1, s))"
| "callback J h (OnMessageComplete m ma mi ka) i s = onMessageComplete J h m ma mi ka i s"

text \<open>llhttp stops at the first callback that does not return 0.\<close>

fun run_events ::
  "'j json_lib \<Rightarrow> ('j, 's) request_handler \<Rightarrow> event list \<Rightarrow> impl \<Rightarrow> 's \<Rightarrow> bool \<times> impl \<times> 's" where
  "run_events J h [] i s = (True, i, s)"
| "run_events J h (e # es) i s =
     (case callback J h e i s of
        (True, i1, s1) \<Rightarrow> run_events J h es i1 s1
      | (False, i1, s1) \<Rightarrow> (False, i1, s1))"

section \<open>execute\<close>

text \<open>
  llhttp as a parameter: for its state and a chunk of input, the callbacks it makes as long as
  they return 0, its next state, its return code and reason; its state after a callback stopped
  it; the names of its error codes.
\<close>

datatype llerrno = HPE_OK | HPE_USER | HPE_ERROR nat

record 'l llhttp =
  ll_init :: 'l
  ll_execute :: "'l \<Rightarrow> string \<Rightarrow> event list \<times> 'l \<times> llerrno \<times> string"
  ll_stopped :: "'l \<Rightarrow> 'l"
  ll_errno_name :: "llerrno \<Rightarrow> string"

record 'l http_parser =
  impl :: impl
  lex :: 'l
  errorReason :: string
  errorStatus :: int

definition new_parser :: "'l llhttp \<Rightarrow> size_t \<Rightarrow> 'l http_parser" where
  "new_parser L n = \<lparr>impl = new_impl n, lex = ll_init L, errorReason = [], errorStatus = 400\<rparr>"

text \<open>
  With \<open>escaping\<close> set the call does not return: the first component is \<^term>\<open>False\<close>, the
  verdict is not touched, and the caller looks at the flag first.
\<close>

definition execute ::
  "'j json_lib \<Rightarrow> 'l llhttp \<Rightarrow> ('j, 's) request_handler \<Rightarrow> string \<Rightarrow> 'l http_parser \<Rightarrow> 's \<Rightarrow>
   bool \<times> 'l http_parser \<times> 's" where
  "execute J L h data p s =
     (let i0 = (impl p)\<lparr>failure := [], headerLimitHit := False, escaping := False\<rparr>;
          (events, l1, code, reason) = ll_execute L (lex p) data;
          (ok, i1, s1) = run_events J h events i0 s;
          rc = (if ok then code else HPE_USER);
          p1 = p\<lparr>impl := i1, lex := (if ok then l1 else ll_stopped L l1)\<rparr> in
      if rc = HPE_OK then (True, p1, s1)
      else if escaping i1 then (False, p1, s1)
      else (False,
            p1\<lparr>errorStatus := (if headerLimitHit i1 then 431 else 400),
               errorReason := (if failure i1 \<noteq> [] then failure i1
                               else ll_errno_name L rc @ '': '' @ reason)\<rparr>,
            s1))"

section \<open>The header budget\<close>

abbreviation used :: "impl \<Rightarrow> nat" where "used i \<equiv> unat (headerBytes i)"
abbreviation limit :: "impl \<Rightarrow> nat" where "limit i \<equiv> unat (maxHeaderBytes i)"

lemma size_of_append: "size_of (a @ b) = size_of a + size_of b"
  by (simp add: size_of_def)

lemma size_of_Nil [simp]: "size_of [] = 0"
  by (simp add: size_of_def)

lemma limit_less: "limit i < 2 ^ 64"
  using unsigned_less [of "maxHeaderBytes i"] by simp

lemma unat_add_size:
  "unat (a::size_t) + length s < 2 ^ 64 \<Longrightarrow> unat (a + size_of s) = unat a + length s"
  by (simp add: size_of_def unat_word_ariths unat_of_nat)

text \<open>The test of \<open>charge\<close> read on natural numbers; the addition does not wrap.\<close>

lemma charge_eq:
  assumes "used i + length at < 2 ^ 64"
  shows "charge i (size_of at) =
    (if used i + length at \<le> limit i then (True, i\<lparr>headerBytes := headerBytes i + size_of at\<rparr>)
     else (False, i\<lparr>headerBytes := headerBytes i + size_of at, headerLimitHit := True,
             failure := ''header section exceeds '' @ nat_to_string (limit i) @ '' bytes''\<rparr>))"
  using unat_add_size [OF assms] by (simp add: charge_def Let_def word_less_nat_alt)

lemma charge_within:
  "used i + length at \<le> limit i \<Longrightarrow>
   charge i (size_of at) = (True, i\<lparr>headerBytes := headerBytes i + size_of at\<rparr>)"
  using limit_less [of i] by (subst charge_eq) auto

fun cost :: "event \<Rightarrow> nat" where
  "cost (OnUrl at) = length at"
| "cost (OnHeaderField at) = length at"
| "cost (OnHeaderValue at) = length at"
| "cost _ = 0"

fun is_complete :: "event \<Rightarrow> bool" where
  "is_complete (OnMessageComplete _ _ _ _) = True"
| "is_complete _ = False"

definition costs :: "event list \<Rightarrow> nat" where
  "costs es = sum_list (map cost es)"

lemma costs_simps [simp]: "costs [] = 0" "costs (e # es) = cost e + costs es"
  by (simp_all add: costs_def)

text \<open>A single chunk is shorter than what separates the limit from \<open>SIZE_MAX\<close>.\<close>

definition chunk_ok :: "impl \<Rightarrow> event \<Rightarrow> bool" where
  "chunk_ok i e \<longleftrightarrow> limit i + cost e < 2 ^ 64"

lemma commitHeader_simps [simp]:
  "headerBytes (commitHeader i) = headerBytes i" "maxHeaderBytes (commitHeader i) = maxHeaderBytes i"
  "headerLimitHit (commitHeader i) = headerLimitHit i" "failure (commitHeader i) = failure i"
  "escaping (commitHeader i) = escaping i"
  "target (commitHeader i) = target i" "ibody (commitHeader i) = ibody i"
  "hfield (commitHeader i) = []" "hvalue (commitHeader i) = []"
  "readingValue (commitHeader i) = readingValue i"
  by (simp_all add: commitHeader_def)

text \<open>A callback other than the completion of a message: what it returns and what it charges.\<close>

lemma callback_budget:
  assumes "\<not> is_complete e" and "used i \<le> limit i" and "chunk_ok i e"
    and "callback J h e i s = (ok, i1, s1)"
  shows "s1 = s \<and> (ok \<longleftrightarrow> used i + cost e \<le> limit i) \<and> maxHeaderBytes i1 = maxHeaderBytes i \<and>
    (ok \<longrightarrow> used i1 = used i + cost e \<and> headerLimitHit i1 = headerLimitHit i) \<and>
    (\<not> ok \<longrightarrow> headerLimitHit i1 \<and> failure i1 \<noteq> []) \<and> escaping i1 = escaping i"
proof -
  have bound: "used i + cost e < 2 ^ 64" using assms(2,3) by (simp add: chunk_ok_def)
  then show ?thesis
    using assms
    by (cases e)
      (auto simp: onUrl_def onHeaderField_def onHeaderValue_def onHeadersComplete_def onBody_def
        charge_eq unat_add_size Let_def split: if_splits)
qed

lemma chunk_ok_max: "maxHeaderBytes i1 = maxHeaderBytes i \<Longrightarrow> chunk_ok i1 e = chunk_ok i e"
  by (simp add: chunk_ok_def)

theorem run_events_budget:
  assumes "\<forall>e \<in> set es. \<not> is_complete e" and "used i \<le> limit i" and "\<forall>e \<in> set es. chunk_ok i e"
    and "run_events J h es i s = (ok, i1, s1)"
  shows "s1 = s \<and> (ok \<longleftrightarrow> used i + costs es \<le> limit i) \<and> (\<not> ok \<longrightarrow> headerLimitHit i1 \<and> failure i1 \<noteq> []) \<and>
    escaping i1 = escaping i"
  using assms
proof (induction es arbitrary: i)
  case Nil
  then show ?case by simp
next
  case (Cons e es)
  obtain ok2 i2 s2 where cb: "callback J h e i s = (ok2, i2, s2)" by (cases "callback J h e i s")
  from Cons.prems have step: "s2 = s \<and> (ok2 \<longleftrightarrow> used i + cost e \<le> limit i) \<and>
      maxHeaderBytes i2 = maxHeaderBytes i \<and>
      (ok2 \<longrightarrow> used i2 = used i + cost e \<and> headerLimitHit i2 = headerLimitHit i) \<and>
      (\<not> ok2 \<longrightarrow> headerLimitHit i2 \<and> failure i2 \<noteq> []) \<and> escaping i2 = escaping i"
    by (intro callback_budget [OF _ _ _ cb]) auto
  show ?case
  proof (cases ok2)
    case True
    have "\<forall>e \<in> set es. chunk_ok i2 e"
      using Cons.prems(3) step by (simp add: chunk_ok_max [of i2 i])
    with True step Cons.prems cb Cons.IH [of i2] show ?thesis by auto
  next
    case False
    with step Cons.prems(4) cb show ?thesis by auto
  qed
qed

section \<open>The memory the parser holds\<close>

text \<open>
  Target, header under construction and committed headers are paid for out of the budget, so
  what they hold never exceeds the limit.
\<close>

definition held :: "impl \<Rightarrow> nat" where
  "held i = length (target i) + length (hfield i) + length (hvalue i) + smap_bytes (iheaders i)"

definition budget_ok :: "impl \<Rightarrow> bool" where
  "budget_ok i \<longleftrightarrow> held i \<le> used i \<and> used i \<le> limit i"

lemma budget_ok_new [simp]: "budget_ok (new_impl n)"
  by (simp add: budget_ok_def held_def new_impl_def)

lemma held_commitHeader: "held (commitHeader i) \<le> held i"
  using smap_bytes_set [of "hfield i" "hvalue i" "iheaders i"]
  by (simp add: held_def commitHeader_def)

lemma budget_ok_reset [simp]: "budget_ok (resetRequest i)"
  by (simp add: budget_ok_def held_def resetRequest_def)

lemma callback_budget_ok:
  assumes "budget_ok i" and "chunk_ok i e" and "callback J h e i s = (True, i1, s1)"
  shows "budget_ok i1 \<and> maxHeaderBytes i1 = maxHeaderBytes i"
proof (cases "is_complete e")
  case True
  then obtain m ma mi ka where e: "e = OnMessageComplete m ma mi ka" by (cases e) auto
  have "maxHeaderBytes (resetRequest i) = maxHeaderBytes i" by (simp add: resetRequest_def)
  with assms(3) show ?thesis
    by (auto simp: e onMessageComplete_def Let_def split: sum.splits prod.splits option.splits exn.splits)
next
  case False
  from assms(1) have "used i \<le> limit i" by (simp add: budget_ok_def)
  from callback_budget [OF False this assms(2,3)]
  have b: "used i1 \<le> limit i1" "used i1 = used i + cost e" "maxHeaderBytes i1 = maxHeaderBytes i"
    by auto
  have "held i1 \<le> held i + cost e"
    using assms(3) False held_commitHeader [of i]
    by (cases e)
      (auto simp: onUrl_def onHeaderField_def onHeaderValue_def onHeadersComplete_def onBody_def
        charge_def held_def commitHeader_def Let_def split: if_splits)
  with b assms(1) show ?thesis by (simp add: budget_ok_def)
qed

lemma run_events_budget_ok:
  assumes "budget_ok i" and "\<forall>e \<in> set es. chunk_ok i e" and "run_events J h es i s = (True, i1, s1)"
  shows "budget_ok i1 \<and> maxHeaderBytes i1 = maxHeaderBytes i"
  using assms
proof (induction es arbitrary: i s)
  case Nil
  then show ?case by simp
next
  case (Cons e es)
  then obtain i2 s2 where cb: "callback J h e i s = (True, i2, s2)"
    and rest: "run_events J h es i2 s2 = (True, i1, s1)"
    by (auto split: prod.splits bool.splits)
  have "budget_ok i2 \<and> maxHeaderBytes i2 = maxHeaderBytes i"
    using Cons.prems callback_budget_ok [OF _ _ cb] by simp
  with Cons.IH [of i2 s2] Cons.prems rest show ?case by (simp add: chunk_ok_max [of i2 i])
qed

section \<open>Messages cut into pieces\<close>

text \<open>
  A message as it comes over the wire: its target, header names and values and body each in any
  number of pieces, and the sequence of callbacks llhttp makes for it.
\<close>

record msg =
  m_target :: "string list"
  m_headers :: "(string list \<times> string list) list"
  m_body :: "string list"
  m_method :: string
  m_major :: nat
  m_minor :: nat
  m_keep :: bool

definition header_events :: "string list \<times> string list \<Rightarrow> event list" where
  "header_events fv = map OnHeaderField (fst fv) @ map OnHeaderValue (snd fv)"

definition msg_events :: "msg \<Rightarrow> event list" where
  "msg_events m =
     map OnUrl (m_target m) @ concat (map header_events (m_headers m)) @ [OnHeadersComplete] @
     map OnBody (m_body m) @ [OnMessageComplete (m_method m) (m_major m) (m_minor m) (m_keep m)]"

text \<open>Every header has a non-empty name, and at least one value callback.\<close>

definition headers_ok :: "(string list \<times> string list) list \<Rightarrow> bool" where
  "headers_ok hs \<longleftrightarrow> (\<forall>fv \<in> set hs. concat (fst fv) \<noteq> [] \<and> snd fv \<noteq> [])"

definition header_bytes :: "(string list \<times> string list) list \<Rightarrow> nat" where
  "header_bytes hs = sum_list (map (\<lambda>fv. length (concat (fst fv)) + length (concat (snd fv))) hs)"

definition msg_ok :: "nat \<Rightarrow> msg \<Rightarrow> bool" where
  "msg_ok n m \<longleftrightarrow>
     headers_ok (m_headers m) \<and> length (concat (m_target m)) + header_bytes (m_headers m) \<le> n"

definition join_headers :: "(string list \<times> string list) list \<Rightarrow> (string \<times> string) list" where
  "join_headers hs = map (\<lambda>fv. (concat (fst fv), concat (snd fv))) hs"

text \<open>The request a message stands for, without any parser in between.\<close>

definition request_of :: "'j json_lib \<Rightarrow> msg \<Rightarrow> string + 'j request" where
  "request_of J m =
     build_request J (m_method m) (m_major m) (m_minor m) (concat (m_target m))
       (smap_of (join_headers (m_headers m))) (concat (m_body m))"

lemma run_events_append:
  "run_events J h (es @ fs) i s =
     (case run_events J h es i s of
        (True, i1, s1) \<Rightarrow> run_events J h fs i1 s1
      | (False, i1, s1) \<Rightarrow> (False, i1, s1))"
  by (induction es arbitrary: i s) (auto split: prod.splits bool.splits)

lemma run_urls:
  "used i + length (concat us) \<le> limit i \<Longrightarrow>
   run_events J h (map OnUrl us) i s =
     (True, i\<lparr>target := target i @ concat us, headerBytes := headerBytes i + size_of (concat us)\<rparr>, s)"
proof (induction us arbitrary: i)
  case Nil
  then show ?case by simp
next
  case (Cons u us)
  have "used i + length u < 2 ^ 64" using Cons.prems limit_less [of i] by simp
  with Cons show ?case
    by (simp add: onUrl_def charge_within unat_add_size size_of_append add.assoc)
qed

lemma run_values:
  "used i + length (concat vs) \<le> limit i \<Longrightarrow> vs \<noteq> [] \<Longrightarrow>
   run_events J h (map OnHeaderValue vs) i s =
     (True, i\<lparr>readingValue := True, hvalue := hvalue i @ concat vs,
        headerBytes := headerBytes i + size_of (concat vs)\<rparr>, s)"
proof (induction vs arbitrary: i)
  case Nil
  then show ?case by simp
next
  case (Cons v vs)
  have "used i + length v < 2 ^ 64" using Cons.prems limit_less [of i] by simp
  with Cons show ?case
    by (cases "vs = []")
      (simp_all add: onHeaderValue_def charge_within unat_add_size size_of_append add.assoc)
qed

lemma run_fields_more:
  "used i + length (concat fs) \<le> limit i \<Longrightarrow> \<not> readingValue i \<Longrightarrow>
   run_events J h (map OnHeaderField fs) i s =
     (True, i\<lparr>hfield := hfield i @ concat fs, headerBytes := headerBytes i + size_of (concat fs)\<rparr>, s)"
proof (induction fs arbitrary: i)
  case Nil
  then show ?case by simp
next
  case (Cons f fs)
  have "used i + length f < 2 ^ 64" using Cons.prems limit_less [of i] by simp
  with Cons show ?case
    by (simp add: onHeaderField_def charge_within unat_add_size size_of_append add.assoc)
qed

text \<open>Between two headers: either the previous value is pending, or nothing is.\<close>

definition between :: "impl \<Rightarrow> bool" where
  "between i \<longleftrightarrow> readingValue i \<or> (hfield i = [] \<and> hvalue i = [])"

definition pending :: "impl \<Rightarrow> strmap" where
  "pending i = iheaders (commitHeader i)"

lemma run_fields:
  assumes "used i + length (concat fs) \<le> limit i" and "between i" and "fs \<noteq> []"
  shows "run_events J h (map OnHeaderField fs) i s =
    (True, i\<lparr>iheaders := pending i, hfield := concat fs, hvalue := [], readingValue := False,
       headerBytes := headerBytes i + size_of (concat fs)\<rparr>, s)"
proof -
  obtain f fs' where fs: "fs = f # fs'" using assms(3) by (cases fs) auto
  let ?i = "i\<lparr>iheaders := pending i, hfield := f, hvalue := [], readingValue := False,
       headerBytes := headerBytes i + size_of f\<rparr>"
  have no_wrap: "used i + length f < 2 ^ 64" using assms(1) limit_less [of i] by (simp add: fs)
  have "callback J h (OnHeaderField f) i s = (True, ?i, s)"
    using assms(1,2) by (auto simp: fs onHeaderField_def charge_within between_def pending_def
        commitHeader_def Let_def)
  moreover have "used ?i + length (concat fs') \<le> limit ?i"
    using assms(1) unat_add_size [OF no_wrap] by (simp add: fs)
  ultimately show ?thesis
    using run_fields_more [of ?i fs' J h s] by (simp add: fs size_of_append add.assoc)
qed

lemma run_header:
  assumes "used i + length (concat (fst fv)) + length (concat (snd fv)) \<le> limit i"
    and "between i" and "concat (fst fv) \<noteq> []" and "snd fv \<noteq> []"
  shows "run_events J h (header_events fv) i s =
    (True, i\<lparr>iheaders := pending i, hfield := concat (fst fv), hvalue := concat (snd fv),
       readingValue := True,
       headerBytes := headerBytes i + size_of (concat (fst fv)) + size_of (concat (snd fv))\<rparr>, s)"
proof -
  have "fst fv \<noteq> []" using assms(3) by auto
  moreover have "used i + length (concat (fst fv)) < 2 ^ 64"
    using assms(1) limit_less [of i] by simp
  ultimately show ?thesis
    using assms
    by (simp add: header_events_def run_events_append run_fields run_values unat_add_size)
qed

lemma header_bytes_Cons [simp]:
  "header_bytes (fv # hs) = length (concat (fst fv)) + length (concat (snd fv)) + header_bytes hs"
  by (simp add: header_bytes_def)

lemma run_headers:
  assumes "used i + header_bytes hs \<le> limit i" and "between i" and "headers_ok hs"
  shows "\<exists>i1. run_events J h (concat (map header_events hs)) i s = (True, i1, s) \<and> between i1 \<and>
    pending i1 = fold (\<lambda>(k, v). smap_set k v) (join_headers hs) (pending i) \<and>
    target i1 = target i \<and> ibody i1 = ibody i \<and> maxHeaderBytes i1 = maxHeaderBytes i \<and>
    failure i1 = failure i \<and> headerLimitHit i1 = headerLimitHit i \<and> escaping i1 = escaping i"
  using assms
proof (induction hs arbitrary: i)
  case Nil
  then show ?case by (simp add: join_headers_def)
next
  case (Cons fv hs)
  let ?i = "i\<lparr>iheaders := pending i, hfield := concat (fst fv), hvalue := concat (snd fv),
       readingValue := True,
       headerBytes := headerBytes i + size_of (concat (fst fv)) + size_of (concat (snd fv))\<rparr>"
  have fv: "concat (fst fv) \<noteq> []" "snd fv \<noteq> []" "headers_ok hs"
    using Cons.prems(3) by (auto simp: headers_ok_def)
  have run: "run_events J h (header_events fv) i s = (True, ?i, s)"
    using Cons.prems fv by (intro run_header) auto
  have "used i + length (concat (fst fv)) + length (concat (snd fv)) < 2 ^ 64"
    using Cons.prems(1) limit_less [of i] by simp
  then have "used ?i = used i + length (concat (fst fv)) + length (concat (snd fv))"
    by (simp add: unat_add_size)
  then have room: "used ?i + header_bytes hs \<le> limit ?i" using Cons.prems(1) by simp
  have "between ?i" by (simp add: between_def)
  moreover have "pending ?i = smap_set (concat (fst fv)) (concat (snd fv)) (pending i)"
    using fv by (simp add: pending_def commitHeader_def)
  ultimately show ?case
    using Cons.IH [OF room _ fv(3)] run by (auto simp: run_events_append join_headers_def)
qed

lemma run_bodies:
  "run_events J h (map OnBody bs) i s = (True, i\<lparr>ibody := ibody i @ concat bs\<rparr>, s)"
  by (induction bs arbitrary: i) (simp_all add: onBody_def)

text \<open>The parser at the start of a message.\<close>

definition at_start :: "impl \<Rightarrow> bool" where
  "at_start i \<longleftrightarrow> resetRequest i = i"

lemma at_start_new [simp]: "at_start (new_impl n)"
  by (simp add: at_start_def resetRequest_def new_impl_def)

lemma at_start_reset [simp]: "at_start (resetRequest i)"
  by (simp add: at_start_def resetRequest_def)

lemma at_startD:
  assumes "at_start i"
  shows "target i = []" "hfield i = []" "hvalue i = []" "ibody i = []" "iheaders i = []"
    "readingValue i = False" "headerBytes i = 0"
proof -
  have eq: "i = resetRequest i" using assms by (simp add: at_start_def)
  show "target i = []" by (subst eq) (simp add: resetRequest_def)
  show "hfield i = []" by (subst eq) (simp add: resetRequest_def)
  show "hvalue i = []" by (subst eq) (simp add: resetRequest_def)
  show "ibody i = []" by (subst eq) (simp add: resetRequest_def)
  show "iheaders i = []" by (subst eq) (simp add: resetRequest_def)
  show "readingValue i = False" by (subst eq) (simp add: resetRequest_def)
  show "headerBytes i = 0" by (subst eq) (simp add: resetRequest_def)
qed

text \<open>What serving one message does, and what serving a pipeline of messages does.\<close>

definition serve_msg ::
  "'j json_lib \<Rightarrow> ('j, 's) request_handler \<Rightarrow> msg \<Rightarrow> 's \<Rightarrow> bool \<times> 's" where
  "serve_msg J h m s =
     (case request_of J m of
        Inl _ \<Rightarrow> (False, s)
      | Inr r \<Rightarrow> (case h r (m_keep m) s of (Some _, s1) \<Rightarrow> (False, s1) | (None, s1) \<Rightarrow> (True, s1)))"

fun serve_msgs ::
  "'j json_lib \<Rightarrow> ('j, 's) request_handler \<Rightarrow> msg list \<Rightarrow> 's \<Rightarrow> bool \<times> 's" where
  "serve_msgs J h [] s = (True, s)"
| "serve_msgs J h (m # ms) s =
     (case serve_msg J h m s of
        (True, s1) \<Rightarrow> serve_msgs J h ms s1
      | (False, s1) \<Rightarrow> (False, s1))"

text \<open>The handler throws what the parser does not catch.\<close>

definition lets_escape :: "'j json_lib \<Rightarrow> ('j, 's) request_handler \<Rightarrow> msg \<Rightarrow> 's \<Rightarrow> bool" where
  "lets_escape J h m s \<longleftrightarrow>
     (case request_of J m of Inl _ \<Rightarrow> False | Inr r \<Rightarrow> fst (h r (m_keep m) s) = Some Foreign)"

lemma run_msg:
  assumes "at_start i" and "msg_ok (limit i) m"
  shows "\<exists>i1. run_events J h (msg_events m) i s = (fst (serve_msg J h m s), i1, snd (serve_msg J h m s)) \<and>
    maxHeaderBytes i1 = maxHeaderBytes i \<and> headerLimitHit i1 = headerLimitHit i \<and>
    escaping i1 = (escaping i \<or> lets_escape J h m s) \<and> (fst (serve_msg J h m s) \<longrightarrow> at_start i1)"
proof -
  note start = at_startD [OF assms(1)]
  have room: "length (concat (m_target m)) + header_bytes (m_headers m) \<le> limit i"
    and hs: "headers_ok (m_headers m)"
    using assms(2) by (simp_all add: msg_ok_def)
  let ?i = "i\<lparr>target := concat (m_target m), headerBytes := size_of (concat (m_target m))\<rparr>"
  have urls: "run_events J h (map OnUrl (m_target m)) i s = (True, ?i, s)"
    using room start by (simp add: run_urls)
  have "used ?i = length (concat (m_target m))"
    using unat_add_size [of 0 "concat (m_target m)"] room limit_less [of i] by simp
  moreover have "between ?i" "pending ?i = []"
    using start by (simp_all add: between_def pending_def commitHeader_def)
  ultimately obtain i2 where i2:
    "run_events J h (concat (map header_events (m_headers m))) ?i s = (True, i2, s)"
    "pending i2 = smap_of (join_headers (m_headers m))"
    "target i2 = concat (m_target m)" "ibody i2 = []" "maxHeaderBytes i2 = maxHeaderBytes i"
    "headerLimitHit i2 = headerLimitHit i" "escaping i2 = escaping i"
    using run_headers [of ?i "m_headers m" J h s] room hs start by (auto simp: smap_of_def)
  let ?i3 = "(commitHeader i2)\<lparr>ibody := concat (m_body m)\<rparr>"
  have "run_events J h (msg_events m) i s =
      run_events J h [OnMessageComplete (m_method m) (m_major m) (m_minor m) (m_keep m)] ?i3 s"
    unfolding msg_events_def
    by (simp add: run_events_append urls i2 run_bodies onHeadersComplete_def)
  moreover have "iheaders ?i3 = smap_of (join_headers (m_headers m))"
    using i2(2) by (simp add: pending_def)
  ultimately show ?thesis
    using i2 by (auto simp: onMessageComplete_def serve_msg_def request_of_def resetRequest_def
        lets_escape_def at_start_def Let_def split: sum.splits prod.splits option.splits exn.splits)
qed

lemma run_msgs:
  assumes "at_start i" and "\<forall>m \<in> set ms. msg_ok (limit i) m"
  shows "\<exists>i1. run_events J h (concat (map msg_events ms)) i s =
      (fst (serve_msgs J h ms s), i1, snd (serve_msgs J h ms s)) \<and>
    (fst (serve_msgs J h ms s) \<longrightarrow> at_start i1)"
  using assms
proof (induction ms arbitrary: i s)
  case Nil
  then show ?case by simp
next
  case (Cons m ms)
  obtain ok s1 where m: "serve_msg J h m s = (ok, s1)" by (cases "serve_msg J h m s")
  obtain i1 where i1: "run_events J h (msg_events m) i s = (ok, i1, s1)"
    "maxHeaderBytes i1 = maxHeaderBytes i" "ok \<longrightarrow> at_start i1"
    using run_msg [of i m J h s] Cons.prems m by auto
  show ?case
  proof (cases ok)
    case True
    with i1 Cons.IH [of i1 s1] Cons.prems m show ?thesis by (simp add: run_events_append)
  next
    case False
    with i1 m show ?thesis by (simp add: run_events_append)
  qed
qed

section \<open>Targets\<close>

lemma smap_ok_add_query_pairs: "smap_ok q \<Longrightarrow> smap_ok (add_query_pairs ps q)"
  by (induction ps q rule: add_query_pairs.induct) (auto split: option.splits)

lemma strip_authority_origin: "\<not> sublist ''://'' s \<Longrightarrow> strip_authority s = s"
  by (simp add: strip_authority_def str_find_0 find_sub_None_iff [symmetric])

lemma find_scheme: "COLON \<notin> set scheme \<Longrightarrow> find_sub ''://'' (scheme @ ''://'' @ t) = Some (length scheme)"
  by (induction scheme) auto

lemma find_sub_char_append: "c \<notin> set s \<Longrightarrow> find_sub [c] (s @ c # t) = Some (length s)"
  by (induction s) auto

lemma strip_authority_absolute:
  assumes "COLON \<notin> set scheme" and "SLASH \<notin> set auth"
  shows "strip_authority (scheme @ ''://'' @ auth @ SLASH # rest) = SLASH # rest"
proof -
  let ?s = "scheme @ ''://'' @ auth @ SLASH # rest"
  have "drop (length scheme + 3) ?s = auth @ SLASH # rest" by simp
  then have "str_find ?s ''/'' (length scheme + 3) = Some (length scheme + 3 + length auth)"
    using find_sub_char_append [OF assms(2), of rest]
    unfolding str_find_def by simp
  moreover have "str_find ?s ''://'' 0 = Some (length scheme)"
    unfolding str_find_0 by (rule find_scheme [OF assms(1)])
  ultimately show ?thesis by (simp add: strip_authority_def numeral_3_eq_3)
qed

lemma applyTarget_cong:
  "strip_authority (url_decode t) = strip_authority (url_decode t') \<Longrightarrow> applyTarget t r = applyTarget t' r"
  by (simp add: applyTarget_def)

lemma applyTarget_absolute:
  assumes "COLON \<notin> set scheme" and "SLASH \<notin> set auth"
    and "CHR ''%'' \<notin> set (scheme @ auth)" and "CHR ''+'' \<notin> set (scheme @ auth)"
    and "\<not> sublist ''://'' (SLASH # url_decode rest)"
  shows "applyTarget (scheme @ ''://'' @ auth @ SLASH # rest) r = applyTarget (SLASH # rest) r"
proof (rule applyTarget_cong)
  have "url_decode ((scheme @ ''://'' @ auth @ ''/'') @ rest) = (scheme @ ''://'' @ auth @ ''/'') @ url_decode rest"
    using assms by (intro url_decode_plain_append) auto
  then have "url_decode (scheme @ ''://'' @ auth @ SLASH # rest) =
      scheme @ ''://'' @ auth @ SLASH # url_decode rest"
    by simp
  then show "strip_authority (url_decode (scheme @ ''://'' @ auth @ SLASH # rest)) =
      strip_authority (url_decode (SLASH # rest))"
    using assms strip_authority_absolute [OF assms(1,2), of "url_decode rest"]
    by (simp add: strip_authority_origin)
qed

lemma applyTarget_encoded:
  assumes "p \<noteq> []" and "CHR ''?'' \<notin> set p" and "\<not> sublist ''://'' p"
  shows "applyTarget (urlEncode p) r = r\<lparr>req_path := p\<rparr>"
  using assms
  by (simp add: applyTarget_def uri.dec_enc strip_authority_origin str_find_0 find_sub_char Let_def)

lemma applyTarget_other_fields [simp]:
  "req_method (applyTarget t r) = req_method r" "req_headers (applyTarget t r) = req_headers r"
  "req_protocol (applyTarget t r) = req_protocol r" "req_body (applyTarget t r) = req_body r"
  "params (applyTarget t r) = params r" "cookies (applyTarget t r) = cookies r"
  by (simp_all add: applyTarget_def Let_def split: option.splits)

lemma applyTarget_path_nonempty: "req_path (applyTarget t r) \<noteq> []"
  by (simp add: applyTarget_def Let_def split: option.splits)

section \<open>Reads\<close>

lemma callback_ok_flags:
  "callback J h e i s = (True, i1, s1) \<Longrightarrow> failure i1 = failure i \<and> headerLimitHit i1 = headerLimitHit i \<and>
     escaping i1 = escaping i"
  by (cases e)
    (auto simp: onUrl_def onHeaderField_def onHeaderValue_def onHeadersComplete_def onBody_def
      onMessageComplete_def charge_def resetRequest_def commitHeader_def Let_def
      split: if_splits sum.splits prod.splits option.splits exn.splits)

lemma run_events_ok_flags:
  "run_events J h es i s = (True, i1, s1) \<Longrightarrow>
   failure i1 = failure i \<and> headerLimitHit i1 = headerLimitHit i \<and> escaping i1 = escaping i"
proof (induction es arbitrary: i s)
  case (Cons e es)
  then obtain i2 s2 where "callback J h e i s = (True, i2, s2)" "run_events J h es i2 s2 = (True, i1, s1)"
    by (auto split: prod.splits bool.splits)
  with Cons.IH callback_ok_flags show ?case by metis
qed simp

text \<open>The impl a read starts from.\<close>

definition cleared :: "impl \<Rightarrow> impl" where
  "cleared i = i\<lparr>failure := [], headerLimitHit := False, escaping := False\<rparr>"

lemma cleared_simps [simp]:
  "headerBytes (cleared i) = headerBytes i" "maxHeaderBytes (cleared i) = maxHeaderBytes i"
  "failure (cleared i) = []" "headerLimitHit (cleared i) = False" "escaping (cleared i) = False"
  "chunk_ok (cleared i) e = chunk_ok i e" "budget_ok (cleared i) = budget_ok i"
  by (simp_all add: cleared_def chunk_ok_def budget_ok_def held_def)

lemma at_start_cleared: "at_start i \<Longrightarrow> at_start (cleared i)"
  using at_startD [of i] by (simp add: at_start_def cleared_def resetRequest_def)

lemma cleared_id: "failure i = [] \<Longrightarrow> \<not> headerLimitHit i \<Longrightarrow> \<not> escaping i \<Longrightarrow> cleared i = i"
  by (simp add: cleared_def)

lemma execute_eq:
  assumes "ll_execute L (lex p) data = (es, l1, code, reason)"
    and "run_events J h es (cleared (impl p)) s = (ok, i1, s1)"
  shows "execute J L h data p s =
    (if ok \<and> code = HPE_OK then (True, p\<lparr>impl := i1, lex := l1\<rparr>, s1)
     else if escaping i1 then (False, p\<lparr>impl := i1, lex := (if ok then l1 else ll_stopped L l1)\<rparr>, s1)
     else (False,
       p\<lparr>impl := i1, lex := (if ok then l1 else ll_stopped L l1),
         errorStatus := (if headerLimitHit i1 then 431 else 400),
         errorReason := (if failure i1 \<noteq> [] then failure i1
           else ll_errno_name L (if ok then code else HPE_USER) @ '': '' @ reason)\<rparr>, s1))"
  using assms by (auto simp: execute_def cleared_def Let_def)

text \<open>A message with its pieces put together.\<close>

definition whole :: "msg \<Rightarrow> string \<times> (string \<times> string) list \<times> string \<times> string \<times> nat \<times> nat \<times> bool" where
  "whole m = (concat (m_target m), join_headers (m_headers m), concat (m_body m), m_method m,
     m_major m, m_minor m, m_keep m)"

lemma serve_msgs_whole:
  "map whole ms = map whole ms' \<Longrightarrow> serve_msgs J h ms s = serve_msgs J h ms' s"
proof (induction ms arbitrary: ms' s)
  case (Cons m ms)
  then obtain m' ms'' where ms': "ms' = m' # ms''" "whole m = whole m'" "map whole ms = map whole ms''"
    by auto
  then have eqs: "request_of J m = request_of J m'" "m_keep m = m_keep m'"
    by (simp_all add: whole_def request_of_def)
  have "serve_msg J h m s = serve_msg J h m' s" for s
    unfolding serve_msg_def eqs by (rule refl)
  with ms' Cons.IH [OF ms'(3)] show ?case by (simp split: prod.split bool.split)
qed simp

lemma execute_serves_msgs:
  assumes "ll_execute L (lex p) data = (concat (map msg_events ms), l, HPE_OK, reason)"
    and "at_start (impl p)" and "\<forall>m \<in> set ms. msg_ok (limit (impl p)) m"
  shows "\<exists>p1. execute J L h data p s = (fst (serve_msgs J h ms s), p1, snd (serve_msgs J h ms s)) \<and>
    (fst (serve_msgs J h ms s) \<longrightarrow> at_start (impl p1) \<and> lex p1 = l)"
proof -
  have "\<forall>m \<in> set ms. msg_ok (limit (cleared (impl p))) m" using assms(3) by simp
  then obtain i1 where run: "run_events J h (concat (map msg_events ms)) (cleared (impl p)) s =
      (fst (serve_msgs J h ms s), i1, snd (serve_msgs J h ms s))"
    and start: "fst (serve_msgs J h ms s) \<longrightarrow> at_start i1"
    using run_msgs [OF at_start_cleared [OF assms(2)], of ms J h s] by blast
  show ?thesis
    unfolding execute_eq [OF assms(1) run] using start
    by (cases "fst (serve_msgs J h ms s)") simp_all
qed

section \<open>Spans cut by the network\<close>

text \<open>
  llhttp reports a target, a header name, a header value or a body that ends in a later read in
  several pieces, one or more per read. Two lists of callbacks say the same when they agree once
  adjacent pieces of the same kind are put together.
\<close>

fun glue :: "event \<Rightarrow> event list \<Rightarrow> event list" where
  "glue (OnUrl a) (OnUrl b # es) = OnUrl (a @ b) # es"
| "glue (OnHeaderField a) (OnHeaderField b # es) = OnHeaderField (a @ b) # es"
| "glue (OnHeaderValue a) (OnHeaderValue b # es) = OnHeaderValue (a @ b) # es"
| "glue (OnBody a) (OnBody b # es) = OnBody (a @ b) # es"
| "glue e es = e # es"

definition joined :: "event list \<Rightarrow> event list" where
  "joined es = foldr glue es []"

lemma joined_simps [simp]: "joined [] = []" "joined (e # es) = glue e (joined es)"
  by (simp_all add: joined_def)

lemma costs_glue: "costs (glue e es) = cost e + costs es"
  by (induction e es rule: glue.induct) simp_all

lemma costs_joined [simp]: "costs (joined es) = costs es"
  by (induction es) (simp_all add: costs_glue)

text \<open>
  Two runs that end alike: the same answer and the same state of the owner; the same parser when
  they succeed, and the same reason when they fail.
\<close>

fun alike :: "bool \<times> impl \<times> 's \<Rightarrow> bool \<times> impl \<times> 's \<Rightarrow> bool" where
  "alike (ok, i, s) (ok', i', s') \<longleftrightarrow>
     ok = ok' \<and> s = s' \<and> (ok \<longrightarrow> i = i') \<and> failure i = failure i' \<and>
     headerLimitHit i = headerLimitHit i' \<and> escaping i = escaping i'"

lemma alike_refl [simp]: "alike r r"
  by (cases r) simp

lemma alike_same: "i = i' \<Longrightarrow> alike (run_events J h es i s) (run_events J h es i' s)"
  by simp

lemma alike_sym: "alike r1 r2 \<Longrightarrow> alike r2 r1"
  by (cases r1; cases r2) auto

lemma alike_trans: "alike r1 r2 \<Longrightarrow> alike r2 r3 \<Longrightarrow> alike r1 r3"
  by (cases r1; cases r2; cases r3) auto

lemma charge_both:
  assumes "budget_ok i" and "limit i + length a + length b < 2 ^ 64"
  shows "charge i (size_of (a @ b)) =
    (if used i + length a + length b \<le> limit i
     then (True, i\<lparr>headerBytes := headerBytes i + size_of a + size_of b\<rparr>)
     else (False, i\<lparr>headerBytes := headerBytes i + size_of a + size_of b, headerLimitHit := True,
             failure := ''header section exceeds '' @ nat_to_string (limit i) @ '' bytes''\<rparr>))"
proof -
  have "used i + length (a @ b) < 2 ^ 64" using assms by (simp add: budget_ok_def)
  from charge_eq [OF this] show ?thesis by (simp add: size_of_append add.assoc)
qed

lemma charge_first:
  assumes "budget_ok i" and "limit i + length a + length b < 2 ^ 64"
  shows "charge i (size_of a) =
    (if used i + length a \<le> limit i then (True, i\<lparr>headerBytes := headerBytes i + size_of a\<rparr>)
     else (False, i\<lparr>headerBytes := headerBytes i + size_of a, headerLimitHit := True,
             failure := ''header section exceeds '' @ nat_to_string (limit i) @ '' bytes''\<rparr>))"
    and "unat (headerBytes i + size_of a) = used i + length a"
  using assms by (simp_all add: charge_eq unat_add_size budget_ok_def)

text \<open>Two adjacent pieces do what one piece does.\<close>

lemma charge_more:
  assumes "budget_ok i" and "limit i + length a + length b < 2 ^ 64"
    and "maxHeaderBytes i1 = maxHeaderBytes i" and "headerBytes i1 = headerBytes i + size_of a"
    and "used i + length a \<le> limit i"
  shows "charge i1 (size_of b) =
    (if used i + length a + length b \<le> limit i
     then (True, i1\<lparr>headerBytes := headerBytes i + size_of a + size_of b\<rparr>)
     else (False, i1\<lparr>headerBytes := headerBytes i + size_of a + size_of b, headerLimitHit := True,
             failure := ''header section exceeds '' @ nat_to_string (limit i) @ '' bytes''\<rparr>))"
proof -
  have u: "used i1 = used i + length a"
    using charge_first(2) [OF assms(1,2)] assms(4) by simp
  then have "used i1 + length b < 2 ^ 64" using assms(2,5) by simp
  from charge_eq [OF this] u assms show ?thesis by simp
qed

lemma glue_alike:
  assumes "budget_ok i" and "limit i + costs (e # es) < 2 ^ 64"
  shows "alike (run_events J h (e # es) i s) (run_events J h (glue e es) i s)"
  using assms
proof (induction e es rule: glue.induct)
  case (1 a b es)
  then have b: "limit i + length a + length b < 2 ^ 64" by simp
  note c = charge_both [OF 1(1) b] charge_first [OF 1(1) b] charge_more [OF 1(1) b]
  show ?case
    by (cases "used i + length a \<le> limit i"; cases "used i + length a + length b \<le> limit i")
      (simp_all add: onUrl_def c)
next
  case (2 a b es)
  then have b: "limit i + length a + length b < 2 ^ 64" by simp
  note c = charge_both [OF 2(1) b] charge_first [OF 2(1) b] charge_more [OF 2(1) b]
  show ?case
    by (cases "used i + length a \<le> limit i"; cases "used i + length a + length b \<le> limit i")
      (simp_all add: onHeaderField_def c Let_def commitHeader_def alike_same)
next
  case (3 a b es)
  then have b: "limit i + length a + length b < 2 ^ 64" by simp
  note c = charge_both [OF 3(1) b] charge_first [OF 3(1) b] charge_more [OF 3(1) b]
  show ?case
    by (cases "used i + length a \<le> limit i"; cases "used i + length a + length b \<le> limit i")
      (simp_all add: onHeaderValue_def c)
next
  case (4 a b es)
  then show ?case by (simp add: onBody_def)
qed simp_all

lemma joined_alike:
  assumes "budget_ok i" and "limit i + costs es < 2 ^ 64"
  shows "alike (run_events J h es i s) (run_events J h (joined es) i s)"
  using assms
proof (induction es arbitrary: i s)
  case Nil
  then show ?case by simp
next
  case (Cons e es)
  obtain ok i1 s1 where cb: "callback J h e i s = (ok, i1, s1)" by (cases "callback J h e i s")
  have "alike (run_events J h (e # es) i s) (run_events J h (e # joined es) i s)"
  proof (cases ok)
    case True
    with cb Cons.prems have "budget_ok i1 \<and> maxHeaderBytes i1 = maxHeaderBytes i"
      using callback_budget_ok [of i e J h s i1 s1] by (simp add: chunk_ok_def)
    with True cb Cons show ?thesis by simp
  qed (use cb in simp)
  moreover have "alike (run_events J h (e # joined es) i s) (run_events J h (glue e (joined es)) i s)"
    using Cons.prems by (intro glue_alike) simp_all
  ultimately show ?case unfolding joined_simps by (rule alike_trans)
qed

lemma joined_eq_alike:
  assumes "joined es = joined es'" and "budget_ok i" and "limit i + costs es < 2 ^ 64"
  shows "alike (run_events J h es i s) (run_events J h es' i s)"
proof -
  have "costs es' = costs es" using costs_joined [of es] costs_joined [of es'] assms(1) by simp
  with assms(3) have "limit i + costs es' < 2 ^ 64" by simp
  from alike_sym [OF joined_alike [OF assms(2) this]]
  have "alike (run_events J h (joined es) i s) (run_events J h es' i s)"
    by (simp only: assms(1))
  from joined_alike [OF assms(2,3)] this show ?thesis by (rule alike_trans)
qed

text \<open>Two instances of the lexer, for examples: one follows a script, one takes all for a URL.\<close>

definition script_ll :: "event list \<Rightarrow> unit llhttp" where
  "script_ll es =
     \<lparr>ll_init = (), ll_execute = (\<lambda>l data. (es, (), HPE_OK, [])), ll_stopped = id,
      ll_errno_name = (\<lambda>e. ''HPE_USER'')\<rparr>"

definition url_ll :: "unit llhttp" where
  "url_ll =
     \<lparr>ll_init = (), ll_execute = (\<lambda>l data. (map (\<lambda>c. OnUrl [c]) data, (), HPE_OK, [])),
      ll_stopped = id, ll_errno_name = (\<lambda>e. ''HPE_USER'')\<rparr>"

definition get_msg :: "string list \<Rightarrow> bool \<Rightarrow> msg" where
  "get_msg tgt keep =
     \<lparr>m_target = tgt, m_headers = [([''Ho'', ''st''], [''h''])], m_body = [], m_method = ''GET'',
      m_major = 1, m_minor = 1, m_keep = keep\<rparr>"

lemma get_msg_ok: "length (concat tgt) \<le> 100 \<Longrightarrow> msg_ok 16384 (get_msg tgt keep)"
  by (simp add: msg_ok_def get_msg_def headers_ok_def header_bytes_def)

lemma limit_new: "limit (new_impl n) = unat n"
  by (simp add: new_impl_def)

lemma limit_new_impl [simp]: "limit (new_impl kMaxHeaderBytes) = 16384"
  by (simp add: new_impl_def kMaxHeaderBytes_def)

definition two_msgs :: "msg list" where
  "two_msgs = [get_msg [''/'', ''a''] True, get_msg [''/b''] False]"

definition two_ll :: "unit llhttp" where
  "two_ll = script_ll (concat (map msg_events two_msgs))"



section \<open>Properties\<close>

text \<open>
  C15: The header budget: while a request is being read, a read fails with status 431 exactly when
  the bytes of the target and of the header names and values, in all reads of the request so far,
  exceed the limit, and otherwise fails, with status 400, exactly when llhttp reports an error.
  Nothing reaches the request handler. Nothing else is charged: not the method, the version, the
  separators nor the line ends, so that the bytes of request line and headers as they come over the
  wire may exceed the limit.
\<close>

theorem header_budget:
  assumes "ll_execute L (lex p) data = (es, l1, code, reason)"
    and "\<forall>e \<in> set es. \<not> is_complete e" and "\<forall>e \<in> set es. chunk_ok (impl p) e"
    and "used (impl p) \<le> limit (impl p)"
  shows "\<exists>ok p1. execute J L h data p s = (ok, p1, s) \<and>
    (if limit (impl p) < used (impl p) + costs es then \<not> ok \<and> errorStatus p1 = 431
     else (ok \<longleftrightarrow> code = HPE_OK) \<and> (\<not> ok \<longrightarrow> errorStatus p1 = 400))"
proof -
  obtain ok i1 s1 where run: "run_events J h es (cleared (impl p)) s = (ok, i1, s1)"
    by (cases "run_events J h es (cleared (impl p)) s")
  have "used (cleared (impl p)) \<le> limit (cleared (impl p))"
    and "\<forall>e \<in> set es. chunk_ok (cleared (impl p)) e"
    using assms(3,4) by simp_all
  from run_events_budget [OF assms(2) this run]
  have b: "s1 = s" "ok \<longleftrightarrow> used (impl p) + costs es \<le> limit (impl p)" "\<not> ok \<longrightarrow> headerLimitHit i1" "\<not> escaping i1"
    by simp_all
  have "ok \<longrightarrow> \<not> headerLimitHit i1" using run_events_ok_flags run by fastforce
  with b show ?thesis unfolding execute_eq [OF assms(1) run] by (cases ok) auto
qed

theorem header_budget_witness:
  "\<exists>ok p1. execute text_json url_ll (\<lambda>r ka s. (None, s)) ''/ab'' (new_parser url_ll 2) () = (ok, p1, ()) \<and>
    \<not> ok \<and> errorStatus p1 = 431"
  using header_budget [of url_ll "new_parser url_ll 2" "''/ab''" "map (\<lambda>c. OnUrl [c]) ''/ab''" "()" HPE_OK
      "[]" text_json "\<lambda>r ka s. (None, s)" "()"]
  by (simp add: url_ll_def new_parser_def new_impl_def chunk_ok_def)



text \<open>
  The target and the headers a connection holds never exceed the limit: a read that succeeds
  leaves a parser within its budget when it found one, and a fresh parser is within it.
\<close>

theorem parser_memory_bounded:
  assumes "ll_execute L (lex p) data = (es, l1, code, reason)"
    and "budget_ok (impl p)" and "\<forall>e \<in> set es. chunk_ok (impl p) e"
    and "execute J L h data p s = (True, p1, s1)"
  shows "budget_ok (impl p1) \<and> limit (impl p1) = limit (impl p) \<and> held (impl p1) \<le> limit (impl p) \<and>
    budget_ok (impl (new_parser L n))"
proof -
  obtain ok i1 s2 where run: "run_events J h es (cleared (impl p)) s = (ok, i1, s2)"
    by (cases "run_events J h es (cleared (impl p)) s")
  with assms(4) have ok: "ok" "impl p1 = i1"
    unfolding execute_eq [OF assms(1) run] by (auto split: if_splits)
  have "budget_ok i1 \<and> maxHeaderBytes i1 = maxHeaderBytes (impl p)"
    using run_events_budget_ok [of "cleared (impl p)" es J h s i1 s2] run ok assms(2,3) by simp
  then show ?thesis using ok by (auto simp: budget_ok_def new_parser_def held_def new_impl_def)
qed

theorem parser_memory_bounded_witness:
  "\<exists>p1. execute text_json url_ll (\<lambda>r ka s. (None, s)) ''/ab'' (new_parser url_ll 9) () = (True, p1, ()) \<and>
    held (impl p1) \<le> 9"
proof -
  let ?h = "\<lambda>r ka s. (None :: exn option, s :: unit)"
  obtain p1 where p1: "execute text_json url_ll ?h ''/ab'' (new_parser url_ll 9) () = (True, p1, ())"
    by (simp add: execute_def url_ll_def new_parser_def new_impl_def onUrl_def charge_def size_of_def)
  have "held (impl p1) \<le> limit (impl (new_parser url_ll 9))"
    using parser_memory_bounded [OF _ _ _ p1, of "map (\<lambda>c. OnUrl [c]) ''/ab''" "()" HPE_OK "[]"]
      budget_ok_new [of 9]
    by (simp add: url_ll_def new_parser_def chunk_ok_def) (simp add: new_impl_def)
  with p1 show ?thesis by (simp add: new_parser_def new_impl_def)
qed

text \<open>
  C8: However target, headers and bodies were cut into pieces and whatever number of requests a
  read carries, the handler runs on each of the requests in order, until one is rejected; and the
  parser is then ready for the next request.
\<close>

theorem pipelined_requests_served:
  assumes "ll_execute L (lex p) data = (concat (map msg_events ms), l, HPE_OK, reason)"
    and "at_start (impl p)" and "\<forall>m \<in> set ms. msg_ok (limit (impl p)) m"
    and "map whole ms = map whole ms'"
  shows "\<exists>p1. execute J L h data p s = (fst (serve_msgs J h ms' s), p1, snd (serve_msgs J h ms' s)) \<and>
    (fst (serve_msgs J h ms' s) \<longrightarrow> at_start (impl p1) \<and> lex p1 = l)"
  using execute_serves_msgs [OF assms(1-3), of J h s] serve_msgs_whole [OF assms(4), of J h s] by simp

theorem pipelined_requests_served_witness:
  "\<exists>p1. execute text_json two_ll (\<lambda>r ka s. (None, s @ [(req_path r, ka)])) ''...''
      (new_parser two_ll kMaxHeaderBytes) [] = (True, p1, [(''/a'', True), (''/b'', False)])"
proof -
  let ?ms = "[get_msg [''/a''] True, get_msg [''/b''] False]"
  let ?h = "\<lambda>r ka s. (None :: exn option, s @ [(req_path (r :: string request), ka)])"
  have "fst (serve_msgs text_json ?h ?ms []) \<and>
      snd (serve_msgs text_json ?h ?ms []) = [(''/a'', True), (''/b'', False)]"
    by (simp add: serve_msg_def request_of_def build_request_def applyTarget_def
      strip_authority_def str_find_def get_msg_def Let_def)
  moreover have "\<exists>p1. execute text_json two_ll ?h ''...'' (new_parser two_ll kMaxHeaderBytes) [] =
      (fst (serve_msgs text_json ?h ?ms []), p1, snd (serve_msgs text_json ?h ?ms [])) \<and>
      (fst (serve_msgs text_json ?h ?ms []) \<longrightarrow> at_start (impl p1) \<and> lex p1 = ())"
  proof (rule pipelined_requests_served [where ms = two_msgs and reason = "[]"])
    show "\<forall>m \<in> set two_msgs. msg_ok (limit (impl (new_parser two_ll kMaxHeaderBytes))) m"
      by (simp add: two_msgs_def new_parser_def get_msg_ok)
    show "map whole two_msgs = map whole ?ms" by (simp add: two_msgs_def whole_def get_msg_def)
  qed (simp_all add: two_ll_def script_ll_def new_parser_def)
  ultimately show ?thesis by auto
qed

text \<open>
  A lexer for examples whose spans a read can cut: every line is the target of a \<open>GET\<close>, reported
  in one piece per read.
\<close>

fun line_events :: "string \<Rightarrow> string \<Rightarrow> event list" where
  "line_events u [] = [OnUrl u]"
| "line_events u (c # cs) =
     (if c = CHR 0x0A
      then [OnUrl u, OnHeadersComplete, OnMessageComplete ''GET'' 1 1 True] @ line_events [] cs
      else line_events (u @ [c]) cs)"

definition line_ll :: "unit llhttp" where
  "line_ll =
     \<lparr>ll_init = (), ll_execute = (\<lambda>l data. (line_events [] data, (), HPE_OK, [])), ll_stopped = id,
      ll_errno_name = (\<lambda>e. ''HPE_USER'')\<rparr>"

text \<open>
  C20: A request may be cut anywhere by the network, inside a token as well: if llhttp reports for
  two reads what it reports for one, up to the places where the pieces of a token are cut, then the
  second read answers and leaves behind what one read of all the bytes does, and both are rejected
  for the same reason, or throw, when one is. The budget is charged as if nothing had been cut.
\<close>

theorem reads_compose:
  assumes "ll_execute L (lex p) d1 = (es1, l1, HPE_OK, reason1)"
    and "ll_execute L l1 d2 = (es2, l2, code, reason2)"
    and "ll_execute L (lex p) (d1 @ d2) = (es, l2, code, reason2)"
    and "joined es = joined (es1 @ es2)"
    and "budget_ok (impl p)" and "limit (impl p) + costs es < 2 ^ 64"
    and "execute J L h d1 p s = (True, p1, s1)"
  shows "\<exists>ok p2 p2' s2. execute J L h d2 p1 s1 = (ok, p2, s2) \<and>
    execute J L h (d1 @ d2) p s = (ok, p2', s2) \<and> (ok \<longrightarrow> p2' = p2) \<and>
    errorStatus p2' = errorStatus p2 \<and> errorReason p2' = errorReason p2 \<and>
    escaping (impl p2') = escaping (impl p2)"
proof -
  obtain ok i1 s1' where run1: "run_events J h es1 (cleared (impl p)) s = (ok, i1, s1')"
    by (cases "run_events J h es1 (cleared (impl p)) s")
  with assms(7) have p1: "ok" "p1 = p\<lparr>impl := i1, lex := l1\<rparr>" "s1' = s1"
    unfolding execute_eq [OF assms(1) run1] by (auto split: if_splits)
  have "cleared i1 = i1"
    using run_events_ok_flags [of J h es1 "cleared (impl p)" s i1 s1] run1 p1 by (intro cleared_id) simp_all
  moreover obtain ok2 i2 s2 where run2: "run_events J h es2 i1 s1 = (ok2, i2, s2)"
    by (cases "run_events J h es2 i1 s1")
  ultimately have run2': "run_events J h es2 (cleared (impl p1)) s1 = (ok2, i2, s2)"
    and lex: "ll_execute L (lex p1) d2 = (es2, l2, code, reason2)"
    using p1 assms(2) by simp_all
  have "run_events J h (es1 @ es2) (cleared (impl p)) s = (ok2, i2, s2)"
    using run1 run2 p1 by (simp add: run_events_append)
  moreover obtain ok3 i3 s3 where run: "run_events J h es (cleared (impl p)) s = (ok3, i3, s3)"
    by (cases "run_events J h es (cleared (impl p)) s")
  moreover have "alike (run_events J h es (cleared (impl p)) s)
      (run_events J h (es1 @ es2) (cleared (impl p)) s)"
    using assms(5,6) by (intro joined_eq_alike [OF assms(4)]) simp_all
  ultimately have "ok3 = ok2" "s3 = s2" "ok2 \<longrightarrow> i3 = i2" "failure i3 = failure i2"
    "headerLimitHit i3 = headerLimitHit i2" "escaping i3 = escaping i2"
    by simp_all
  then show ?thesis
    unfolding execute_eq [OF assms(3) run] execute_eq [OF lex run2'] using p1 by auto
qed

theorem reads_compose_witness:
  "\<exists>p1 p2. execute text_json line_ll (\<lambda>r ka s. (None, s @ [req_path r])) ''/us''
      (new_parser line_ll 9) [] = (True, p1, []) \<and>
    execute text_json line_ll (\<lambda>r ka s. (None, s @ [req_path r])) (''/us'' @ ''ers'' @ [CHR 0x0A])
      (new_parser line_ll 9) [] = (True, p2, [''/users'']) \<and>
    execute text_json line_ll (\<lambda>r ka s. (None, s @ [req_path r])) (''ers'' @ [CHR 0x0A]) p1 [] =
      (True, p2, [''/users''])"
proof -
  let ?h = "\<lambda>r ka s. (None :: exn option, s @ [req_path (r :: string request)])"
  let ?p = "new_parser line_ll 9"
  let ?d2 = "''ers'' @ [CHR 0x0A]"
  obtain p1 where p1: "execute text_json line_ll ?h ''/us'' ?p [] = (True, p1, [])"
    by (simp add: execute_def line_ll_def new_parser_def new_impl_def onUrl_def charge_def size_of_def)
  have "\<exists>p2. execute text_json line_ll ?h (''/us'' @ ?d2) ?p [] = (True, p2, [''/users''])"
    by (simp add: execute_def line_ll_def new_parser_def new_impl_def onUrl_def charge_def size_of_def
      onHeadersComplete_def commitHeader_def onMessageComplete_def resetRequest_def build_request_def
      applyTarget_def strip_authority_def str_find_def Let_def)
  moreover have "\<exists>ok p2 p2' s2. execute text_json line_ll ?h ?d2 p1 [] = (ok, p2, s2) \<and>
    execute text_json line_ll ?h (''/us'' @ ?d2) ?p [] = (ok, p2', s2) \<and> (ok \<longrightarrow> p2' = p2) \<and>
    errorStatus p2' = errorStatus p2 \<and> errorReason p2' = errorReason p2 \<and>
    escaping (impl p2') = escaping (impl p2)"
    by (rule reads_compose [OF _ _ _ _ _ _ p1, where es = "line_events [] (''/us'' @ ?d2)"
        and ?es1.0 = "line_events [] ''/us''" and ?es2.0 = "line_events [] ?d2"])
      (simp_all add: line_ll_def new_parser_def limit_new)
  ultimately show ?thesis using p1 by auto
qed

text \<open>
  A target in absolute form, as a proxy sends it, is treated like the path and query it
  carries, whatever scheme and authority stand in front.
\<close>

theorem absolute_target:
  assumes "COLON \<notin> set scheme" and "SLASH \<notin> set auth"
    and "CHR ''%'' \<notin> set (scheme @ auth)" and "CHR ''+'' \<notin> set (scheme @ auth)"
    and "\<not> sublist ''://'' (SLASH # url_decode rest)"
  shows "applyTarget (scheme @ ''://'' @ auth @ SLASH # rest) r = applyTarget (SLASH # rest) r"
  using assms by (rule applyTarget_absolute)

theorem absolute_target_witness:
  "applyTarget (''http'' @ ''://'' @ ''host:80'' @ SLASH # ''a?x=1'') (plain_request ''GET'' ''/'') =
   applyTarget (SLASH # ''a?x=1'') (plain_request ''GET'' ''/'')"
  by (rule absolute_target) (simp_all add: sublist_def Cons_eq_append_conv)

text \<open>
  A path that was percent-encoded arrives decoded, whatever bytes it has, if it contains no
  question mark and no scheme separator; the query stays empty.
\<close>

theorem encoded_path_arrives:
  assumes "p \<noteq> []" and "CHR ''?'' \<notin> set p" and "\<not> sublist ''://'' p"
  shows "applyTarget (urlEncode p) r = r\<lparr>req_path := p\<rparr>"
  using assms by (rule applyTarget_encoded)

theorem encoded_path_arrives_witness:
  "applyTarget (urlEncode ''/a b'') (plain_request ''GET'' ''/'') =
    (plain_request ''GET'' ''/'')\<lparr>req_path := ''/a b''\<rparr>"
  by (rule encoded_path_arrives) (simp_all add: sublist_def Cons_eq_append_conv)

text \<open>
  C38: The scheme separator is looked for in the whole decoded target. An origin-form target that
  carries one in its query loses its own path: the request is routed to the path found inside the
  query value.
\<close>

theorem scheme_in_query_reroutes:
  assumes "COLON \<notin> set before" and "SLASH \<notin> set host" and "CHR ''?'' \<notin> set inner"
    and "url_decode tgt = before @ ''://'' @ host @ SLASH # inner"
  shows "applyTarget tgt r = r\<lparr>req_path := SLASH # inner\<rparr>"
proof -
  have "strip_authority (url_decode tgt) = SLASH # inner"
    unfolding assms(4) by (rule strip_authority_absolute [OF assms(1,2)])
  then show ?thesis
    using assms(3) by (simp add: applyTarget_def str_find_0 find_sub_char Let_def)
qed

theorem scheme_in_query_reroutes_witness:
  "applyTarget ''/go?u=http://h/admin'' (plain_request ''GET'' ''/'') =
   (plain_request ''GET'' ''/'')\<lparr>req_path := ''/admin''\<rparr>"
  by (rule scheme_in_query_reroutes [where before = "''/go?u=http''" and host = "''h''"]) simp_all

text \<open>
  The target is decoded before it is taken apart: an escaped question mark in the path starts
  the query, and an escaped ampersand in a value starts another parameter.
\<close>

theorem decoded_before_split:
  assumes "url_decode tgt = path @ CHR ''?'' # qs" and "path \<noteq> []" and "CHR ''?'' \<notin> set path"
    and "\<not> sublist ''://'' (url_decode tgt)"
  shows "applyTarget tgt r =
    r\<lparr>req_path := path, query := add_query_pairs (split qs ''&'') (query r)\<rparr>"
proof -
  have "str_find (url_decode tgt) ''?'' 0 = Some (length path)"
    unfolding assms(1) str_find_0 using assms(3) by (rule find_sub_char_append)
  then show ?thesis
    using assms by (simp add: applyTarget_def strip_authority_origin Let_def)
qed

theorem decoded_before_split_witness:
  "applyTarget ''/a%3Fx=1%26y=2'' (plain_request ''GET'' ''/'') =
    (plain_request ''GET'' ''/'')\<lparr>req_path := ''/a'', query := [(''x'', ''1''), (''y'', ''2'')]\<rparr>"
proof -
  have e: "''/a%3Fx=1%26y=2'' =
      ''/a'' @ encode_char (CHR ''?'') @ ''x=1'' @ encode_char (CHR ''&'') @ ''y=2''"
    by code_simp
  have "url_decode (''/a'' @ encode_char (CHR ''?'') @ ''x=1'' @ encode_char (CHR ''&'') @ ''y=2'') =
      ''/a?x=1&y=2''"
    by (simp add: url_decode_encode_char)
  then have d: "url_decode ''/a%3Fx=1%26y=2'' = ''/a?x=1&y=2''"
    by (simp only: e)
  have "applyTarget ''/a%3Fx=1%26y=2'' (plain_request ''GET'' ''/'') =
    (plain_request ''GET'' ''/'')\<lparr>req_path := ''/a'',
      query := add_query_pairs (split ''x=1&y=2'' ''&'') (query (plain_request ''GET'' ''/''))\<rparr>"
    by (rule decoded_before_split, simp_all only: d) (simp_all add: sublist_def Cons_eq_append_conv)
  then show ?thesis
    by (simp add: plain_request_def split_eq_tokens c_str_def str_find_0)
qed

end
