(* ===== verification/Wasm_Contract.thy ===== *)
theory Wasm_Contract
  imports Registry Http_Parser "HOL-Library.Multiset"
begin

text \<open>
  The WebAssembly contract (\<open>wasm/plusweb_wasm.cpp\<close>): a C interface with JSON replies to the
  routing trie and the parser. The process-wide state is a record passed through the calls. The
  handlers the module registers only report their own route id, so the world of the registry is
  \<open>lastRouteId\<close>. Clock readings and build stamps are arguments.
\<close>

section \<open>State and replies\<close>

record 'j wasm =
  wregistry :: "('j, int) registry"
  patterns :: "string list"
  lastRouteId :: int
  slots :: "string list"

definition init_wasm :: "'j wasm" where
  "init_wasm =
     \<lparr>wregistry = new_registry, patterns = [], lastRouteId = -1, slots = replicate 8 []\<rparr>"

text \<open>A reply: what was thrown, by \<open>dump\<close> or by a handler, or the C string the caller sees.\<close>

type_synonym reply = "exn + string"

definition hold :: "'j json_lib \<Rightarrow> nat \<Rightarrow> 'j \<Rightarrow> 'j wasm \<Rightarrow> reply \<times> 'j wasm" where
  "hold J slot value s =
     (case j_dump J value of
        Inl what \<Rightarrow> (Inl (Std what), s)
      | Inr text \<Rightarrow> (Inr (c_str text), s\<lparr>slots := (slots s)[slot := text]\<rparr>))"

text \<open>\<open>static_cast<int>\<close> of a size.\<close>

definition int_of_size :: "nat \<Rightarrow> int" where
  "int_of_size n = signed_take_bit 31 (int n)"

text \<open>A \<open>const char*\<close> argument; \<^term>\<open>None\<close> is a null pointer.\<close>

definition text_arg :: "string option \<Rightarrow> string" where
  "text_arg p = (case p of None \<Rightarrow> [] | Some s \<Rightarrow> c_str s)"

section \<open>The calls\<close>

definition pw_version ::
  "'j json_lib \<Rightarrow> string \<Rightarrow> string \<Rightarrow> string \<Rightarrow> 'j wasm \<Rightarrow> reply \<times> 'j wasm" where
  "pw_version J version commit builtAt s =
     hold J 0 (j_object J [(''version'', j_string J version), (''commit'', j_string J commit),
       (''builtAt'', j_string J builtAt)]) s"

definition pw_reset :: "'j wasm \<Rightarrow> 'j wasm" where
  "pw_reset s = s\<lparr>wregistry := new_registry, patterns := [], lastRouteId := -1\<rparr>"

fun find_pattern :: "string list \<Rightarrow> string \<Rightarrow> nat \<Rightarrow> nat option" where
  "find_pattern [] key i = None"
| "find_pattern (p # ps) key i = (if p = key then Some i else find_pattern ps key (i + 1))"

definition stub_handler :: "int \<Rightarrow> ('j, int) act" where
  "stub_handler rid c = Ret (c\<lparr>world := rid\<rparr>)"

definition pw_register_route ::
  "'j json_lib \<Rightarrow> string option \<Rightarrow> string option \<Rightarrow> 'j wasm \<Rightarrow> reply \<times> 'j wasm" where
  "pw_register_route J meth pattern s =
     (let m = text_arg meth; p = text_arg pattern in
      if m = [] then hold J 1 (j_object J [(''error'', j_string J ''method is empty'')]) s
      else if p = [] \<or> hd p \<noteq> SLASH then
        hold J 1 (j_object J [(''error'',
          j_string J (''pattern must start with '' @ [CHR 0x27, SLASH, CHR 0x27]))]) s
      else
        (let key = m @ '' '' @ p in
         case find_pattern (patterns s) key 0 of
           Some i \<Rightarrow>
             hold J 1 (j_object J [(''error'', j_string J ''route already registered''),
               (''routeId'', j_int J (int_of_size i))]) s
         | None \<Rightarrow>
             (let rid = int_of_size (length (patterns s)) in
              hold J 1 (j_object J [(''routeId'', j_int J rid)])
                (s\<lparr>patterns := patterns s @ [key],
                   wregistry := Register (wregistry s) m p (Some (stub_handler rid))\<rparr>))))"

definition params_json :: "'j json_lib \<Rightarrow> strmap \<Rightarrow> 'j" where
  "params_json J ps = j_object J (map (\<lambda>(k, v). (k, j_string J v)) ps)"

text \<open>\<open>ms\<close> is the measured time as a JSON number, \<open>junk\<close> what a fresh response starts with.\<close>

definition pw_dispatch ::
  "'j json_lib \<Rightarrow> 'j \<Rightarrow> int \<Rightarrow> string option \<Rightarrow> string option \<Rightarrow> 'j wasm \<Rightarrow> reply \<times> 'j wasm" where
  "pw_dispatch J ms junk meth path s =
     (let r = (new_request J)\<lparr>req_method := text_arg meth, req_path := text_arg path\<rparr>;
          s1 = s\<lparr>lastRouteId := -1\<rparr> in
      case getHandler (wregistry s1) r of
        (None, r1) \<Rightarrow>
          hold J 2 (j_object J [(''matched'', j_bool J False), (''routeId'', j_int J (-1)),
            (''params'', j_object J []), (''ms'', ms)]) s1
      | (Some h, r1) \<Rightarrow>
          (case h \<lparr>req = r1, res = new_response J junk, world = lastRouteId s1\<rparr> of
             Exc e c \<Rightarrow> (Inl e, s1\<lparr>lastRouteId := world c\<rparr>)
           | Ret c \<Rightarrow>
               (let s2 = s1\<lparr>lastRouteId := world c\<rparr>; rid = lastRouteId s2 in
                hold J 2 (j_object J
                  ([(''matched'', j_bool J True), (''routeId'', j_int J rid),
                    (''params'', params_json J (params (req c))), (''ms'', ms)] @
                   (if 0 \<le> rid \<and> rid < int_of_size (length (patterns s2))
                    then [(''pattern'', j_string J (patterns s2 ! nat rid))] else []))) s2)))"

text \<open>
  \<open>benchDispatch\<close>: the local request, on which the lookups leave their parameters, and the least of
  three measured times. \<open>double\<close> is a parameter type with its comparison, \<open>-1\<close> and \<open>0\<close>; the clock
  is the argument \<open>elapsed\<close>, the time per lookup in each repetition.
\<close>

definition bench_lookups :: "'j wasm \<Rightarrow> nat \<Rightarrow> 'j request \<Rightarrow> 'j request" where
  "bench_lookups s n r = ((\<lambda>r. snd (getHandler (wregistry s) r)) ^^ n) r"

definition pw_bench_dispatch ::
  "'j json_lib \<Rightarrow> ('d \<Rightarrow> 'd \<Rightarrow> bool) \<Rightarrow> 'd \<Rightarrow> 'd \<Rightarrow> (nat \<Rightarrow> 'd) \<Rightarrow> string option \<Rightarrow> string option \<Rightarrow> int \<Rightarrow>
   'j wasm \<Rightarrow> 'd \<times> 'j request option" where
  "pw_bench_dispatch J dless minus_one zero elapsed meth path iters s =
     (if iters \<le> 0 then (minus_one, None)
      else
        let r = (new_request J)\<lparr>req_method := text_arg meth, req_path := text_arg path\<rparr>;
            r1 = bench_lookups s (nat (iters div 10 + 1)) r;
            (best, r2) =
              fold (\<lambda>rep (best, r).
                      (let r' = bench_lookups s (nat iters) r; ns = elapsed rep in
                       (if dless best zero \<or> dless ns best then ns else best, r')))
                [0..<3] (minus_one, r1) in
        (best, Some r2))"

definition parsed_json :: "'j json_lib \<Rightarrow> 'j request \<Rightarrow> 'j" where
  "parsed_json J r =
     (let version = (if prefix ''HTTP/'' (req_protocol r) then drop 5 (req_protocol r)
                     else req_protocol r) in
      j_object J
        ([(''ok'', j_bool J True), (''method'', j_string J (req_method r)),
          (''path'', j_string J (req_path r)), (''version'', j_string J version),
          (''headers'', params_json J (req_headers r)),
          (''bodyLength'', j_int J (int (length (raw_data (req_body r))))),
          (''error'', j_null J)] @
         (if query r \<noteq> [] then [(''query'', params_json J (query r))] else [])))"

text \<open>The lambda: it sets \<open>got\<close> and \<open>out\<close>; a later request overwrites them.\<close>

definition on_parsed :: "'j json_lib \<Rightarrow> ('j, 'j option) request_handler" where
  "on_parsed J r keepAlive got = (None, Some (parsed_json J r))"

definition pw_parse_request ::
  "'j json_lib \<Rightarrow> 'l llhttp \<Rightarrow> string option \<Rightarrow> 'j wasm \<Rightarrow> reply \<times> 'j wasm" where
  "pw_parse_request J L rawText s =
     (case execute J L (on_parsed J) (text_arg rawText) (new_parser L kMaxHeaderBytes) None of
        (False, p, got) \<Rightarrow>
          hold J 3 (j_object J [(''ok'', j_bool J False), (''error'', j_string J (errorReason p))]) s
      | (True, p, None) \<Rightarrow>
          hold J 3 (j_object J [(''ok'', j_bool J False),
            (''error'', j_string J ''incomplete request: headers did not terminate'')]) s
      | (True, p, Some out) \<Rightarrow> hold J 3 out s)"

text \<open>\<open>dumpNode\<close>: the children, sorted by value, with the parameter child among them.\<close>

fun dumpNode :: "'j json_lib \<Rightarrow> 'h node \<Rightarrow> 'j" where
  "dumpNode J (Node v leaf cs pc h isp pn) =
     (let kids = map (\<lambda>kc. (nvalue (snd kc), dumpNode J (snd kc))) cs @
                 (case pc of None \<Rightarrow> [] | Some p \<Rightarrow> [(nvalue p, dumpNode J p)]) in
      j_object J
        ([(''value'', j_string J v), (''isParameter'', j_bool J isp)] @
         (if isp then [(''parameterName'', j_string J pn)] else []) @
         [(''isLeaf'', j_bool J leaf), (''hasHandler'', j_bool J (h \<noteq> None)),
          (''children'', j_array J (map snd (sort_key fst kids)))]))"

definition pw_dump_trie :: "'j json_lib \<Rightarrow> 'j wasm \<Rightarrow> reply \<times> 'j wasm" where
  "pw_dump_trie J s =
     hold J 4 (j_object J
       [(''root'', dumpNode J (root (trie (wregistry s)))),
        (''routeCount'', j_int J (int_of_size (length (patterns s)))),
        (''routes'', j_array J (map (\<lambda>i. j_object J
            [(''routeId'', j_int J (int_of_size i)), (''route'', j_string J (patterns s ! i))])
          [0 ..< length (patterns s)])),
        (''note'', j_string J ''trie keys are METHOD:/path, so depth 1 holds the methods'')]) s"

section \<open>The invariant of the route table\<close>

text \<open>
  Every handler in the trie is the stub of a valid route id, and the pattern recorded for that
  id is registered at the place of the trie where the handler sits.
\<close>

definition pattern_at :: "string \<Rightarrow> pattern \<Rightarrow> bool" where
  "pattern_at entry k \<longleftrightarrow>
     (\<exists>m p. entry = m @ '' '' @ p \<and> m \<noteq> [] \<and> p \<noteq> [] \<and> hd p = SLASH \<and> route_key m p = k)"

definition wasm_inv :: "'j wasm \<Rightarrow> bool" where
  "wasm_inv s \<longleftrightarrow>
     length (patterns s) < 2 ^ 31 \<and> distinct (patterns s) \<and>
     (\<forall>k h. table (wregistry s) k = Some h \<longrightarrow>
        (\<exists>i < length (patterns s). h = stub_handler (int i) \<and> pattern_at (patterns s ! i) k))"

lemma int_of_size_small [simp]: "n < 2 ^ 31 \<Longrightarrow> int_of_size n = int n"
  by (simp add: int_of_size_def signed_take_bit_int_eq_self)

lemma find_pattern_None: "find_pattern ps key i = None \<longleftrightarrow> key \<notin> set ps"
  by (induction ps key i rule: find_pattern.induct) auto

lemma find_pattern_Some:
  "find_pattern ps key i = Some j \<Longrightarrow> i \<le> j \<and> j - i < length ps \<and> ps ! (j - i) = key"
proof (induction ps key i rule: find_pattern.induct)
  case (2 p ps key i)
  then show ?case by (cases "p = key") (auto simp: nth_Cons' split: if_splits)
qed simp

lemma hold_simps [simp]:
  "wregistry (snd (hold J n v s)) = wregistry s" "patterns (snd (hold J n v s)) = patterns s"
  "lastRouteId (snd (hold J n v s)) = lastRouteId s"
  by (simp_all add: hold_def split: sum.split)

lemma wasm_inv_hold [simp]: "wasm_inv (snd (hold J n v s)) = wasm_inv s"
  by (simp add: wasm_inv_def)

lemma wasm_inv_init: "wasm_inv init_wasm"
  by (simp add: wasm_inv_def init_wasm_def)

lemma wasm_inv_reset: "wasm_inv (pw_reset s)"
  by (simp add: wasm_inv_def pw_reset_def)

lemma wasm_inv_last [simp]: "wasm_inv (s\<lparr>lastRouteId := v\<rparr>) = wasm_inv s"
  by (simp add: wasm_inv_def)

text \<open>What an accepted registration does.\<close>

definition add_route :: "string \<Rightarrow> string \<Rightarrow> 'j wasm \<Rightarrow> 'j wasm" where
  "add_route m p s =
     s\<lparr>patterns := patterns s @ [m @ '' '' @ p],
       wregistry := Register (wregistry s) m p (Some (stub_handler (int (length (patterns s)))))\<rparr>"

lemma pw_register_route_new:
  assumes "text_arg mm = m" and "text_arg pp = p" and "m \<noteq> []" and "p \<noteq> []" and "hd p = SLASH"
    and "m @ '' '' @ p \<notin> set (patterns s)" and "length (patterns s) < 2 ^ 31"
  shows "pw_register_route J mm pp s =
    hold J 1 (j_object J [(''routeId'', j_int J (int (length (patterns s))))]) (add_route m p s)"
proof -
  have "find_pattern (patterns s) (m @ '' '' @ p) 0 = None"
    using assms(6) by (simp add: find_pattern_None)
  with assms show ?thesis by (simp add: pw_register_route_def add_route_def Let_def)
qed

lemma wasm_inv_add:
  assumes inv: "wasm_inv s" and "m \<noteq> []" and "p \<noteq> []" and "hd p = SLASH"
    and "m @ '' '' @ p \<notin> set (patterns s)" and "length (patterns s) + 1 < 2 ^ 31"
  shows "wasm_inv (add_route m p s)"
proof -
  have "\<exists>i < length (patterns s @ [m @ '' '' @ p]).
      h = stub_handler (int i) \<and> pattern_at ((patterns s @ [m @ '' '' @ p]) ! i) k"
    if "((table (wregistry s))(route_key m p \<mapsto> stub_handler (int (length (patterns s))))) k = Some h"
    for k h
  proof (cases "k = route_key m p")
    case True
    with that assms(2-4) show ?thesis
      by (intro exI [of _ "length (patterns s)"]) (auto simp: pattern_at_def)
  next
    case False
    with that inv obtain i where "i < length (patterns s)" "h = stub_handler (int i)"
      "pattern_at (patterns s ! i) k" by (auto simp: wasm_inv_def)
    then show ?thesis by (intro exI [of _ i]) (simp add: nth_append)
  qed
  with assms show ?thesis by (simp add: wasm_inv_def add_route_def)
qed

lemma pw_register_route_cases:
  assumes "length (patterns s) < 2 ^ 31"
  obtains v where "pw_register_route J mm pp s = hold J 1 v s"
  | "text_arg mm \<noteq> []" "text_arg pp \<noteq> []" "hd (text_arg pp) = SLASH"
    "text_arg mm @ '' '' @ text_arg pp \<notin> set (patterns s)"
    "pw_register_route J mm pp s =
       hold J 1 (j_object J [(''routeId'', j_int J (int (length (patterns s))))])
         (add_route (text_arg mm) (text_arg pp) s)"
proof (cases "text_arg mm \<noteq> [] \<and> text_arg pp \<noteq> [] \<and> hd (text_arg pp) = SLASH")
  case True
  show ?thesis
  proof (cases "find_pattern (patterns s) (text_arg mm @ '' '' @ text_arg pp) 0")
    case None
    then have "text_arg mm @ '' '' @ text_arg pp \<notin> set (patterns s)"
      by (simp only: find_pattern_None not_False_eq_True)
    with True assms pw_register_route_new [OF refl refl, of mm pp s J] that(2) show ?thesis by blast
  next
    case (Some i)
    with True that(1) show ?thesis by (simp add: pw_register_route_def Let_def)
  qed
next
  case False
  then have "\<exists>v. pw_register_route J mm pp s = hold J 1 v s"
    unfolding pw_register_route_def Let_def by (cases "text_arg mm = []") auto
  with that(1) show ?thesis by blast
qed

lemma wasm_inv_register:
  assumes "wasm_inv s" and "length (patterns s) + 1 < 2 ^ 31"
  shows "wasm_inv (snd (pw_register_route J mm pp s))"
proof -
  have "length (patterns s) < 2 ^ 31" using assms(2) by simp
  then show ?thesis
  proof (rule pw_register_route_cases [of s J mm pp])
    fix v assume "pw_register_route J mm pp s = hold J 1 v s"
    with assms(1) show ?thesis by simp
  next
    assume new: "text_arg mm \<noteq> []" "text_arg pp \<noteq> []" "hd (text_arg pp) = SLASH"
      "text_arg mm @ '' '' @ text_arg pp \<notin> set (patterns s)"
    assume "pw_register_route J mm pp s =
      hold J 1 (j_object J [(''routeId'', j_int J (int (length (patterns s))))])
        (add_route (text_arg mm) (text_arg pp) s)"
    then show ?thesis using wasm_inv_add [OF assms(1) new assms(2)] by simp
  qed
qed

section \<open>Dispatch\<close>

lemma resolve_best:
  "resolve reg m p = Some h \<Longrightarrow>
   \<exists>k. best (table reg) (route_segments m p) = Some k \<and> table reg k = Some h"
  by (auto simp: resolve_def bind_eq_Some_conv)

definition dispatch_request :: "'j json_lib \<Rightarrow> string option \<Rightarrow> string option \<Rightarrow> 'j request" where
  "dispatch_request J meth path =
     (new_request J)\<lparr>req_method := text_arg meth, req_path := text_arg path\<rparr>"

lemma dispatch_request_simps [simp]:
  "req_method (dispatch_request J m p) = text_arg m" "req_path (dispatch_request J m p) = text_arg p"
  by (simp_all add: dispatch_request_def)

lemma pw_dispatch_miss:
  assumes "best (table (wregistry s)) (route_segments (text_arg m) (text_arg p)) = None"
  shows "pw_dispatch J ms junk m p s =
    hold J 2 (j_object J [(''matched'', j_bool J False), (''routeId'', j_int J (-1)),
            (''params'', j_object J []), (''ms'', ms)]) (s\<lparr>lastRouteId := -1\<rparr>)"
proof -
  have "resolve (wregistry s) (text_arg m) (text_arg p) = None" using assms by (simp add: resolve_def)
  then show ?thesis
    unfolding pw_dispatch_def Let_def dispatch_request_def [symmetric]
    by (simp add: getHandler_resolve)
qed

text \<open>A hit answers with the id of the registration that owns the least matching pattern.\<close>

lemma pw_dispatch_hit:
  assumes inv: "wasm_inv s"
    and best: "best (table (wregistry s)) (route_segments (text_arg m) (text_arg p)) = Some k"
  shows "\<exists>i < length (patterns s). pattern_at (patterns s ! i) k \<and>
    table (wregistry s) k = Some (stub_handler (int i)) \<and>
    pw_dispatch J ms junk m p s =
      hold J 2 (j_object J
        [(''matched'', j_bool J True), (''routeId'', j_int J (int i)),
         (''params'', params_json J (bindings (wregistry s) (text_arg m) (text_arg p))),
         (''ms'', ms), (''pattern'', j_string J (patterns s ! i))]) (s\<lparr>lastRouteId := int i\<rparr>)"
proof -
  obtain h where h: "table (wregistry s) k = Some h" using best_SomeD [OF best] by auto
  then obtain i where i: "i < length (patterns s)" "h = stub_handler (int i)"
    "pattern_at (patterns s ! i) k" using inv by (auto simp: wasm_inv_def)
  have "resolve (wregistry s) (text_arg m) (text_arg p) = Some h"
    using best h by (simp add: resolve_def)
  moreover have "length (patterns s) < 2 ^ 31" using inv by (simp add: wasm_inv_def)
  ultimately have "pw_dispatch J ms junk m p s =
      hold J 2 (j_object J
        [(''matched'', j_bool J True), (''routeId'', j_int J (int i)),
         (''params'', params_json J (bindings (wregistry s) (text_arg m) (text_arg p))),
         (''ms'', ms), (''pattern'', j_string J (patterns s ! i))]) (s\<lparr>lastRouteId := int i\<rparr>)"
    using i(1,2) unfolding pw_dispatch_def Let_def dispatch_request_def [symmetric]
    by (simp add: getHandler_resolve stub_handler_def)
  with h i show ?thesis by blast
qed

lemma stub_handler_inject: "(stub_handler i :: ('j, int) act) = stub_handler j \<Longrightarrow> i = j"
proof -
  fix c :: "('j, int) ctx"
  assume "(stub_handler i :: ('j, int) act) = stub_handler j"
  then have "stub_handler i c = stub_handler j c" by simp
  then have "world (c\<lparr>world := i\<rparr>) = world (c\<lparr>world := j\<rparr>)" by (simp only: stub_handler_def outcome.inject)
  then show ?thesis by simp
qed

section \<open>parseRequest\<close>

text \<open>The parser ran without an error exactly when every message was served.\<close>

lemma execute_msgs:
  assumes "ll_execute L (ll_init L) data = (concat (map msg_events ms), l, HPE_OK, reason)"
    and "\<forall>m \<in> set ms. msg_ok (unat kMaxHeaderBytes) m"
  shows "\<exists>p. execute J L h data (new_parser L kMaxHeaderBytes) s =
    (fst (serve_msgs J h ms s), p, snd (serve_msgs J h ms s))"
proof -
  let ?i = "(new_impl kMaxHeaderBytes)\<lparr>failure := [], headerLimitHit := False, escaping := False\<rparr>"
  have eq: "?i = new_impl kMaxHeaderBytes" by (simp add: new_impl_def)
  have "limit (new_impl kMaxHeaderBytes) = unat kMaxHeaderBytes" by (simp add: new_impl_def)
  then obtain i1 where "run_events J h (concat (map msg_events ms)) ?i s =
      (fst (serve_msgs J h ms s), i1, snd (serve_msgs J h ms s))"
    using run_msgs [OF at_start_new, of ms kMaxHeaderBytes J h s] assms(2) unfolding eq by auto
  with assms(1) show ?thesis by (simp add: execute_def new_parser_def Let_def)
qed

lemma serve_on_parsed:
  "request_of J m = Inr r \<Longrightarrow> serve_msgs J (on_parsed J) [m] got = (True, Some (parsed_json J r))"
  by (simp add: serve_msg_def on_parsed_def)

section \<open>dumpTrie\<close>

text \<open>Two node graphs that differ only in the order of their hash maps.\<close>

inductive same_graph :: "'h node \<Rightarrow> 'h node \<Rightarrow> bool" where
  same: "\<lbrakk>list_all2 (\<lambda>a b. fst a = fst b \<and> same_graph (snd a) (snd b)) cs es; mset es = mset ds;
     rel_option same_graph pc pd\<rbrakk>
    \<Longrightarrow> same_graph (Node v leaf cs pc h isp pn) (Node v leaf ds pd h isp pn)"

definition dump_kids :: "'j json_lib \<Rightarrow> (string \<times> 'h node) list \<Rightarrow> 'h node option \<Rightarrow> (string \<times> 'j) list" where
  "dump_kids J cs pc =
     map (\<lambda>kc. (nvalue (snd kc), dumpNode J (snd kc))) cs @
     (case pc of None \<Rightarrow> [] | Some p \<Rightarrow> [(nvalue p, dumpNode J p)])"

lemma dump_kids_distinct:
  assumes "node_ok (Node v leaf cs pc h isp pn)"
  shows "distinct (map fst (dump_kids J cs pc))"
proof -
  have "map (fst \<circ> (\<lambda>kc. (nvalue (snd kc), dumpNode J (snd kc)))) cs = map fst cs"
    using assms by auto
  then have keys: "map fst (dump_kids J cs pc) =
      map fst cs @ (case pc of None \<Rightarrow> [] | Some p \<Rightarrow> [nvalue p])"
    by (simp add: dump_kids_def split: option.split)
  have "nvalue p \<notin> set (map fst cs)" if "pc = Some p" for p
    using assms that by (fastforce simp: literal_key_def)
  with assms show ?thesis unfolding keys by (auto split: option.split)
qed

lemma sort_kids_eq:
  fixes xs ys :: "(string \<times> 'j) list"
  assumes "mset xs = mset ys" and "distinct (map fst xs)"
  shows "sort_key fst xs = sort_key fst ys"
  using assms by (intro sort_key_eq_sort_key) (simp_all add: distinct_map)

lemma same_graph_value: "same_graph m n \<Longrightarrow> nvalue m = nvalue n"
  by (induction rule: same_graph.induct) simp

lemma dumpNode_same_graph:
  "same_graph m n \<Longrightarrow> node_ok m \<Longrightarrow> dumpNode J m = dumpNode J n"
proof (induction rule: same_graph.induct)
  case (same cs es ds pc pd v leaf h isp pn)
  have ok: "\<forall>kc \<in> set cs. node_ok (snd kc)" "\<And>p. pc = Some p \<Longrightarrow> node_ok p"
    using same.prems by auto
  have "map (\<lambda>kc. (nvalue (snd kc), dumpNode J (snd kc))) cs =
      map (\<lambda>kc. (nvalue (snd kc), dumpNode J (snd kc))) es"
    using same.IH(1) ok(1)
    by (intro nth_equalityI) (auto simp: list_all2_conv_all_nth same_graph_value)
  moreover have "mset (map (\<lambda>kc. (nvalue (snd kc), dumpNode J (snd kc))) es) =
      mset (map (\<lambda>kc. (nvalue (snd kc), dumpNode J (snd kc))) ds)"
    using same.hyps by simp
  moreover have "(case pc of None \<Rightarrow> [] | Some p \<Rightarrow> [(nvalue p, dumpNode J p)]) =
      (case pd of None \<Rightarrow> [] | Some p \<Rightarrow> [(nvalue p, dumpNode J p)])"
    using same.IH(2) ok(2) by (cases pc; cases pd) (auto simp: same_graph_value)
  ultimately have "mset (dump_kids J cs pc) = mset (dump_kids J ds pd)"
    by (simp add: dump_kids_def)
  then have "sort_key fst (dump_kids J cs pc) = sort_key fst (dump_kids J ds pd)"
    using dump_kids_distinct [OF same.prems] by (rule sort_kids_eq)
  then show ?case by (simp add: dump_kids_def)
qed

section \<open>Calls of the contract\<close>

lemma pw_dispatch_other:
  "wregistry (snd (pw_dispatch J ms junk m p s)) = wregistry s \<and>
   patterns (snd (pw_dispatch J ms junk m p s)) = patterns s"
proof -
  obtain oh r1 where g: "getHandler (wregistry s) (dispatch_request J m p) = (oh, r1)" by fastforce
  show ?thesis
  proof (cases oh)
    case None
    with g show ?thesis
      unfolding pw_dispatch_def Let_def dispatch_request_def [symmetric] by simp
  next
    case (Some h)
    let ?o = "h \<lparr>req = r1, res = new_response J junk, world = -1\<rparr>"
    from g Some show ?thesis
      unfolding pw_dispatch_def Let_def dispatch_request_def [symmetric] by (cases ?o) simp_all
  qed
qed

lemma pw_parse_request_other:
  "wregistry (snd (pw_parse_request J L raw s)) = wregistry s \<and>
   patterns (snd (pw_parse_request J L raw s)) = patterns s"
  unfolding pw_parse_request_def by (auto split: prod.split option.split bool.split)

lemma wasm_inv_cong:
  "wregistry t = wregistry s \<Longrightarrow> patterns t = patterns s \<Longrightarrow> wasm_inv t = wasm_inv s"
  by (simp add: wasm_inv_def)

lemma wasm_inv_dispatch: "wasm_inv (snd (pw_dispatch J ms junk m p s)) = wasm_inv s"
  by (rule wasm_inv_cong [OF conjunct1 [OF pw_dispatch_other] conjunct2 [OF pw_dispatch_other]])

lemma wasm_inv_parse: "wasm_inv (snd (pw_parse_request J L raw s)) = wasm_inv s"
  by (rule wasm_inv_cong
      [OF conjunct1 [OF pw_parse_request_other] conjunct2 [OF pw_parse_request_other]])

text \<open>The host may make the calls in any order; route ids are \<open>int\<close>s.\<close>

inductive wasm_call :: "'j json_lib \<Rightarrow> 'l llhttp \<Rightarrow> 'j wasm \<Rightarrow> 'j wasm \<Rightarrow> bool" for J L where
  "wasm_call J L s (snd (pw_version J v c b s))"
| "wasm_call J L s (pw_reset s)"
| "length (patterns s) + 1 < 2 ^ 31 \<Longrightarrow> wasm_call J L s (snd (pw_register_route J m p s))"
| "wasm_call J L s (snd (pw_dispatch J ms junk m p s))"
| "wasm_call J L s (snd (pw_parse_request J L raw s))"
| "wasm_call J L s (snd (pw_dump_trie J s))"

lemma wasm_call_inv: "wasm_call J L s t \<Longrightarrow> wasm_inv s \<Longrightarrow> wasm_inv t"
proof (induction rule: wasm_call.induct)
  case (4 s ms junk m p)
  then show ?case by (simp add: wasm_inv_dispatch)
next
  case (5 s raw)
  then show ?case by (simp add: wasm_inv_parse)
qed (simp_all add: pw_version_def pw_dump_trie_def wasm_inv_reset wasm_inv_register)

interpretation wasm_sys: inv_system init_wasm "wasm_call J L" wasm_inv
  for J L
  by unfold_locales (auto simp: wasm_inv_init wasm_call_inv)

section \<open>Properties\<close>

text \<open>
  C33: After any sequence of calls, a dispatch that matches answers with the id of a registration
  whose recorded pattern sits at the least matching place of the trie, with that pattern and the
  parameters; a dispatch that does not match says so and resets the last id.
\<close>

theorem dispatch_answers_owner:
  assumes "(wasm_call J L)\<^sup>*\<^sup>* init_wasm s"
  shows "case best (table (wregistry s)) (route_segments (text_arg m) (text_arg p)) of
      None \<Rightarrow> pw_dispatch J ms junk m p s =
        hold J 2 (j_object J [(''matched'', j_bool J False), (''routeId'', j_int J (-1)),
            (''params'', j_object J []), (''ms'', ms)]) (s\<lparr>lastRouteId := -1\<rparr>)
    | Some k \<Rightarrow> \<exists>i < length (patterns s). pattern_at (patterns s ! i) k \<and>
        pw_dispatch J ms junk m p s =
          hold J 2 (j_object J
            [(''matched'', j_bool J True), (''routeId'', j_int J (int i)),
             (''params'', params_json J (bindings (wregistry s) (text_arg m) (text_arg p))),
             (''ms'', ms), (''pattern'', j_string J (patterns s ! i))]) (s\<lparr>lastRouteId := int i\<rparr>)"
proof (cases "best (table (wregistry s)) (route_segments (text_arg m) (text_arg p))")
  case None
  with pw_dispatch_miss show ?thesis by (simp only: option.case)
next
  case (Some k)
  have "wasm_inv s" using assms by (rule wasm_sys.inv_reachable)
  from pw_dispatch_hit [OF this Some, of J ms junk] show ?thesis unfolding Some by auto
qed

definition one_route :: "string wasm" where
  "one_route = snd (pw_register_route text_json (Some ''GET'') (Some ''/users/:id'') init_wasm)"

lemma one_route_reachable: "(wasm_call text_json url_ll)\<^sup>*\<^sup>* init_wasm one_route"
  unfolding one_route_def by (rule r_into_rtranclp, rule wasm_call.intros) (simp add: init_wasm_def)

lemma one_route_eq: "one_route = snd (hold text_json 1 (j_object text_json [(''routeId'', j_int text_json 0)])
    (add_route ''GET'' ''/users/:id'' init_wasm))"
  unfolding one_route_def
  by (subst pw_register_route_new [OF refl refl]) (simp_all add: text_arg_def c_str_def init_wasm_def)

lemma one_route_simps [simp]:
  "patterns one_route = [''GET /users/:id'']"
  "wregistry one_route = Register new_registry ''GET'' ''/users/:id'' (Some (stub_handler 0))"
  by (simp_all add: one_route_eq add_route_def init_wasm_def)

theorem dispatch_answers_owner_witness:
  "\<exists>i < length (patterns one_route).
    snd (pw_dispatch text_json [] 0 (Some ''GET'') (Some ''/users/42'') one_route) =
      snd (hold text_json 2 (j_object text_json
            [(''matched'', j_bool text_json True), (''routeId'', j_int text_json (int i)),
             (''params'', params_json text_json (bindings (wregistry one_route) ''GET'' ''/users/42'')),
             (''ms'', []), (''pattern'', j_string text_json (patterns one_route ! i))])
        (one_route\<lparr>lastRouteId := int i\<rparr>))"
proof -
  have a: "text_arg (Some ''GET'') = ''GET''" "text_arg (Some ''/users/42'') = ''/users/42''"
    by (simp_all add: text_arg_def c_str_def)
  have "best (table (wregistry one_route)) (route_segments ''GET'' ''/users/42'') =
      Some (route_key ''GET'' ''/users/:id'')"
    by (rule best_single) (auto simp: segment_eval split: if_splits)
  with dispatch_answers_owner [OF one_route_reachable, where m = "Some ''GET''"
      and p = "Some ''/users/42''" and ms = "[]" and junk = 0]
  show ?thesis unfolding a by auto
qed

text \<open>
  C37: The duplicate test compares spellings while the trie compares shapes: a second spelling of a
  registered route is accepted with a new id, and in the state it leaves no request of any method and
  path is dispatched to the first id, although its pattern stays listed.
\<close>

theorem respelled_route_shadows_first:
  assumes "wasm_inv s" and "i < length (patterns s)" and "length (patterns s) + 1 < 2 ^ 31"
    and "\<forall>k. table (wregistry s) k = Some (stub_handler (int i)) \<longrightarrow> k = route_key m p"
    and "text_arg mm = m" and "text_arg pp = p" and "m \<noteq> []" and "p \<noteq> []" and "hd p = SLASH"
    and "m @ '' '' @ p \<notin> set (patterns s)"
  shows "\<exists>s'. pw_register_route J mm pp s =
      hold J 1 (j_object J [(''routeId'', j_int J (int (length (patterns s))))]) s' \<and>
    patterns s ! i \<in> set (patterns s') \<and>
    lastRouteId (snd (pw_dispatch J ms junk m' p' s')) \<noteq> int i"
proof (intro exI conjI)
  let ?s = "add_route m p s"
  show "pw_register_route J mm pp s =
      hold J 1 (j_object J [(''routeId'', j_int J (int (length (patterns s))))]) ?s"
    using assms by (intro pw_register_route_new) simp_all
  show "patterns s ! i \<in> set (patterns ?s)" using assms(2) by (simp add: add_route_def)
  have inv: "wasm_inv ?s" using assms by (intro wasm_inv_add) simp_all
  have gone: "table (wregistry ?s) k \<noteq> Some (stub_handler (int i))" for k
    using assms(2,4) by (auto simp: add_route_def dest!: stub_handler_inject)
  show "lastRouteId (snd (pw_dispatch J ms junk m' p' ?s)) \<noteq> int i"
  proof (cases "best (table (wregistry ?s)) (route_segments (text_arg m') (text_arg p'))")
    case None
    then show ?thesis by (simp add: pw_dispatch_miss)
  next
    case (Some k)
    from pw_dispatch_hit [OF inv Some, of J ms junk] obtain n where
      "table (wregistry ?s) k = Some (stub_handler (int n))"
      "lastRouteId (snd (pw_dispatch J ms junk m' p' ?s)) = int n" by auto
    with gone [of k] show ?thesis by auto
  qed
qed

theorem respelled_route_shadows_first_witness:
  "\<exists>s'. pw_register_route text_json (Some ''GET'') (Some ''/users/:name'') one_route =
      hold text_json 1 (j_object text_json [(''routeId'', j_int text_json (int (length (patterns one_route))))]) s' \<and>
    patterns one_route ! 0 \<in> set (patterns s') \<and>
    lastRouteId (snd (pw_dispatch text_json [] 0 (Some ''GET'') (Some ''/users/42'') s')) \<noteq> int 0"
proof (rule respelled_route_shadows_first)
  show "wasm_inv one_route" using one_route_reachable by (rule wasm_sys.inv_reachable)
  have "route_key ''GET'' ''/users/:id'' = route_key ''GET'' ''/users/:name''" by (simp add: segment_eval)
  then show "\<forall>k. table (wregistry one_route) k = Some (stub_handler (int 0)) \<longrightarrow>
      k = route_key ''GET'' ''/users/:name''" by simp
qed (simp_all add: text_arg_def c_str_def)

text \<open>
  C34: The dump of the trie does not depend on the order in which the hash maps of its nodes are
  walked: well-formed graphs that differ in that order only have the same dump.
\<close>

theorem dump_is_stable:
  assumes "trie_ok t" and "same_graph (root t) n"
  shows "dumpNode J (root t) = dumpNode J n"
  using assms by (intro dumpNode_same_graph) (simp_all add: trie_ok_def)

theorem dump_is_stable_witness:
  "dumpNode text_json (root (insert_all [(''/a'', Some ()), (''/b'', Some ())] new_trie)) =
   dumpNode text_json (root (insert_all [(''/b'', Some ()), (''/a'', Some ())] new_trie))"
proof (rule dump_is_stable)
  show "trie_ok (insert_all [(''/a'', Some ()), (''/b'', Some ())] new_trie)"
    by (simp add: insert_all_def)
  let ?n = "\<lambda>s. Node s True [] None (Some ()) False []"
  have leaf: "same_graph (?n s) (?n s)" for s
    by (rule same_graph.intros [of "[]" "[]"]) simp_all
  have "same_graph (Node [] False [(''a'', ?n ''a''), (''b'', ?n ''b'')] None None False [])
      (Node [] False [(''b'', ?n ''b''), (''a'', ?n ''a'')] None None False [])"
    by (rule same_graph.intros [of _ "[(''a'', ?n ''a''), (''b'', ?n ''b'')]"]) (simp_all add: leaf)
  then show "same_graph (root (insert_all [(''/a'', Some ()), (''/b'', Some ())] new_trie))
      (root (insert_all [(''/b'', Some ()), (''/a'', Some ())] new_trie))"
    by (simp add: insert_all_def trie_insert_def node_insert_def new_trie_def empty_node_def
        segment_eval new_node_def)
qed

text \<open>
  \<open>parseRequest\<close> on the text of one complete request reports that request, and on a request
  whose JSON body does not parse it reports the parser's error.
\<close>

theorem parse_request_reports:
  assumes "ll_execute L (ll_init L) (text_arg raw) = (msg_events m, l, HPE_OK, reason)"
    and "msg_ok (unat kMaxHeaderBytes) m"
  shows "case request_of J m of
      Inr r \<Rightarrow> pw_parse_request J L raw s = hold J 3 (parsed_json J r) s
    | Inl what \<Rightarrow> \<exists>e. pw_parse_request J L raw s =
        hold J 3 (j_object J [(''ok'', j_bool J False), (''error'', j_string J e)]) s"
proof -
  obtain p where p: "execute J L (on_parsed J) (text_arg raw) (new_parser L kMaxHeaderBytes) None =
      (fst (serve_msgs J (on_parsed J) [m] None), p, snd (serve_msgs J (on_parsed J) [m] None))"
    using execute_msgs [of L "text_arg raw" "[m]" l reason J "on_parsed J" None] assms by auto
  show ?thesis
  proof (cases "request_of J m")
    case (Inl what)
    with p show ?thesis by (auto simp: pw_parse_request_def serve_msg_def)
  next
    case (Inr r)
    with p serve_on_parsed [OF Inr, of None] show ?thesis by (simp add: pw_parse_request_def)
  qed
qed

theorem parse_request_reports_witness:
  "case request_of text_json (get_msg [''/a''] True) of
      Inr r \<Rightarrow> pw_parse_request text_json (script_ll (msg_events (get_msg [''/a''] True))) (Some ''...'') init_wasm =
        hold text_json 3 (parsed_json text_json r) init_wasm
    | Inl what \<Rightarrow> \<exists>e. pw_parse_request text_json (script_ll (msg_events (get_msg [''/a''] True))) (Some ''...'') init_wasm =
        hold text_json 3 (j_object text_json [(''ok'', j_bool text_json False), (''error'', j_string text_json e)]) init_wasm"
  by (rule parse_request_reports) (simp_all add: script_ll_def kMaxHeaderBytes_def get_msg_ok)

section \<open>benchDispatch\<close>

text \<open>However many lookups are timed, they leave in the request what one lookup leaves.\<close>

lemma bench_lookups_Suc: "bench_lookups s (Suc n) r = snd (getHandler (wregistry s) r)"
proof (induction n)
  case (Suc n)
  have "getHandler (wregistry s) (snd (getHandler (wregistry s) r)) = getHandler (wregistry s) r"
    by (simp add: getHandler_resolve split: option.split)
  with Suc show ?case by (simp add: bench_lookups_def)
qed (simp add: bench_lookups_def)

text \<open>
  The number reported is \<open>-1\<close> when there is nothing to measure, and otherwise the least of the three
  measured times; the request ends as one lookup leaves it.
\<close>

theorem bench_dispatch_reports_least:
  fixes elapsed :: "nat \<Rightarrow> 'd::linordered_idom"
  assumes "\<forall>rep. 0 \<le> elapsed rep"
  shows "pw_bench_dispatch J (<) (-1) 0 elapsed m p iters s =
    (if iters \<le> 0 then (-1, None)
     else (min (elapsed 0) (min (elapsed 1) (elapsed 2)),
       Some (snd (getHandler (wregistry s) ((new_request J)\<lparr>req_method := text_arg m, req_path := text_arg p\<rparr>)))))"
proof (cases "iters \<le> 0")
  case False
  let ?r = "(new_request J)\<lparr>req_method := text_arg m, req_path := text_arg p\<rparr>"
  have again: "getHandler (wregistry s) (snd (getHandler (wregistry s) r)) = getHandler (wregistry s) r" for r
    by (simp add: getHandler_resolve split: option.split)
  obtain k where k: "nat iters = Suc k" using False by (cases "nat iters") auto
  have "nat (iters div 10 + 1) = Suc (nat (iters div 10))" using False by (simp add: Suc_nat_eq_nat_zadd1)
  moreover have "[0..<3] = [0, 1, 2 :: nat]" by (simp add: upt_rec)
  moreover have "\<not> elapsed n < 0" for n using assms by (simp add: not_less)
  ultimately show ?thesis
    using False by (auto simp: pw_bench_dispatch_def k bench_lookups_Suc again Let_def min_def)
qed (simp add: pw_bench_dispatch_def)

end
