(* ===== verification/Routers.thy ===== *)
theory Routers
  imports Registry
begin

text \<open>
  Routers and mounting (\<open>src/Router.cpp\<close>, and the two \<open>use\<close> overloads for routers of
  \<open>src/HttpServer.cpp\<close>). Router objects live in a store, since the middleware built at mount
  time holds pointers to them and looks their routes up when a request arrives.
\<close>

section \<open>Router objects and path manipulation\<close>

record ('j, 'w) router =
  mountPath :: string
  rregistry :: "('j, 'w) registry"

type_synonym ('j, 'w) store = "rid \<Rightarrow> ('j, 'w) router"

definition normalizePath :: "string \<Rightarrow> string" where
  "normalizePath path =
     (if path = [] \<or> path = ''/'' then ''/''
      else
        let normalized = (if hd path \<noteq> SLASH then SLASH # path else path) in
        if length normalized > 1 \<and> last normalized = SLASH then butlast normalized
        else normalized)"

definition new_router :: "('j, 'w) router" where
  "new_router = \<lparr>mountPath = [], rregistry = new_registry\<rparr>"

definition new_router_at :: "string \<Rightarrow> ('j, 'w) router" where
  "new_router_at basePath = \<lparr>mountPath = normalizePath basePath, rregistry = new_registry\<rparr>"

definition pathStartsWith :: "string \<Rightarrow> string \<Rightarrow> bool" where
  "pathStartsWith fullPath pre =
     (if pre = ''/'' \<or> pre = [] then True
      else prefix pre fullPath \<and>
           (length fullPath = length pre \<or> fullPath ! length pre = SLASH))"

definition matches :: "('j, 'w) router \<Rightarrow> string \<Rightarrow> bool" where
  "matches r path = (if mountPath r = [] then True else pathStartsWith path (mountPath r))"

definition getRelativePath :: "('j, 'w) router \<Rightarrow> string \<Rightarrow> string" where
  "getRelativePath r fullPath =
     (if mountPath r = [] then fullPath
      else if pathStartsWith fullPath (mountPath r)
           then (let relative = drop (length (mountPath r)) fullPath in
                 if relative = [] then ''/'' else relative)
           else fullPath)"

text \<open>\<open>getMiddlewares()\<close> of the router with identifier \<open>self\<close>.\<close>

definition getMiddlewares :: "rid \<Rightarrow> ('j, 'w) router \<Rightarrow> ('j, 'w) middleware list" where
  "getMiddlewares self r = getMiddleWares (rregistry r) @ [RouterRoutes self]"

definition setMountPath :: "('j, 'w) store \<Rightarrow> rid \<Rightarrow> string \<Rightarrow> ('j, 'w) store" where
  "setMountPath \<sigma> r path = \<sigma>(r := (\<sigma> r)\<lparr>mountPath := path\<rparr>)"

definition update_registry ::
  "('j, 'w) store \<Rightarrow> rid \<Rightarrow> (('j, 'w) registry \<Rightarrow> ('j, 'w) registry) \<Rightarrow> ('j, 'w) store" where
  "update_registry \<sigma> r f = \<sigma>(r := (\<sigma> r)\<lparr>rregistry := f (rregistry (\<sigma> r))\<rparr>)"

text \<open>\<open>Router::use(path, subRouter)\<close> and \<open>Router::use(subRouter)\<close>.\<close>

definition router_use :: "('j, 'w) store \<Rightarrow> rid \<Rightarrow> string \<Rightarrow> rid \<Rightarrow> ('j, 'w) store" where
  "router_use \<sigma> self path sub =
     (let normalizedPath = normalizePath path;
          \<sigma>1 = setMountPath \<sigma> sub (mountPath (\<sigma> self) @ normalizedPath)
      in update_registry \<sigma>1 self (\<lambda>reg. RegisterMiddleWare reg (SubRouter normalizedPath sub)))"

definition router_use_root :: "('j, 'w) store \<Rightarrow> rid \<Rightarrow> rid \<Rightarrow> ('j, 'w) store" where
  "router_use_root \<sigma> self sub = router_use \<sigma> self ''/'' sub"

text \<open>\<open>HttpServer::use(path, router)\<close> and \<open>HttpServer::use(router)\<close> on the server's registry.\<close>

definition server_normalize :: "string \<Rightarrow> string" where
  "server_normalize path =
     (if path = [] \<or> path = ''/'' then ''/''
      else
        let p1 = (if hd path \<noteq> SLASH then SLASH # path else path) in
        if length p1 > 1 \<and> last p1 = SLASH then butlast p1 else p1)"

definition server_use ::
  "('j, 'w) store \<Rightarrow> ('j, 'w) registry \<Rightarrow> string \<Rightarrow> rid \<Rightarrow> ('j, 'w) registry" where
  "server_use \<sigma> reg path r =
     RegisterMiddleWare reg (MountedRouter (server_normalize path) (getMiddlewares r (\<sigma> r)))"

definition server_use_root ::
  "('j, 'w) store \<Rightarrow> ('j, 'w) registry \<Rightarrow> rid \<Rightarrow> ('j, 'w) registry" where
  "server_use_root \<sigma> reg r = server_use \<sigma> reg ''/'' r"

section \<open>What the mounted middleware does\<close>

definition server_matches :: "string \<Rightarrow> string \<Rightarrow> bool" where
  "server_matches normalizedPath path \<longleftrightarrow>
     normalizedPath = ''/'' \<or>
     (prefix normalizedPath path \<and>
      (length path = length normalizedPath \<or> path ! length normalizedPath = SLASH))"

definition sub_relative :: "string \<Rightarrow> string \<Rightarrow> string" where
  "sub_relative normalizedPath path =
     (let relativePath = drop (length normalizedPath) path in
      if relativePath = [] \<or> hd relativePath \<noteq> SLASH then SLASH # relativePath else relativePath)"

definition server_relative :: "string \<Rightarrow> string \<Rightarrow> string" where
  "server_relative normalizedPath path =
     (if normalizedPath = ''/'' then path else sub_relative normalizedPath path)"

text \<open>\<open>executeRouterChain(index)\<close> of \<open>HttpServer::use\<close>, with the variables its closure captures.\<close>

function executeRouterChain ::
  "nat \<Rightarrow> ('j, 'w) mw_fun list \<Rightarrow> string \<Rightarrow> ('j, 'w) act \<Rightarrow> ('j, 'w) act" where
  "executeRouterChain index routerMws originalPath nxt =
     (if length routerMws \<le> index then (\<lambda>c. nxt (set_path originalPath c))
      else (routerMws ! index) (executeRouterChain (index + 1) routerMws originalPath nxt))"
  by pat_completeness auto
termination
  by (relation "measure (\<lambda>(index, routerMws, originalPath, nxt). length routerMws - index)") auto

declare executeRouterChain.simps [simp del]

text \<open>The forwarding middleware of \<open>Router::use\<close>.\<close>

definition run_sub_router ::
  "('j, 'w) registry \<Rightarrow> string \<Rightarrow> ('j, 'w) mw_fun" where
  "run_sub_router subreg normalizedPath nxt c =
     (if prefix normalizedPath (cpath c) then
        let originalPath = cpath c in
        (case HandleRequest subreg (set_path (sub_relative normalizedPath originalPath) c) of
           (True, out) \<Rightarrow> and_then out (\<lambda>c2. Ret (set_path originalPath c2))
         | (False, out) \<Rightarrow> and_then out (\<lambda>c2. nxt (set_path originalPath c2)))
      else nxt c)"

definition run_router_routes :: "('j, 'w) registry \<Rightarrow> ('j, 'w) mw_fun" where
  "run_router_routes reg nxt c =
     (case HandleRequest reg c of
        (True, out) \<Rightarrow> out
      | (False, out) \<Rightarrow> and_then out nxt)"

definition run_mounted ::
  "string \<Rightarrow> ('j, 'w) mw_fun list \<Rightarrow> ('j, 'w) mw_fun" where
  "run_mounted normalizedPath routerMws nxt c =
     (if \<not> server_matches normalizedPath (cpath c) then nxt c
      else executeRouterChain 0 routerMws (cpath c) nxt
             (set_path (server_relative normalizedPath (cpath c)) c))"

definition run_scoped :: "string \<Rightarrow> ('j, 'w) mw_fun \<Rightarrow> ('j, 'w) mw_fun" where
  "run_scoped path mw nxt c = (if prefix path (cpath c) then mw nxt c else nxt c)"

fun run_mw :: "('j, 'w) store \<Rightarrow> ('j, 'w) middleware \<Rightarrow> ('j, 'w) mw_fun" where
  "run_mw \<sigma> (UserMw f) = f"
| "run_mw \<sigma> (ScopedMw path mw) = run_scoped path (run_mw \<sigma> mw)"
| "run_mw \<sigma> (RouterRoutes r) = run_router_routes (rregistry (\<sigma> r))"
| "run_mw \<sigma> (SubRouter np r) = run_sub_router (rregistry (\<sigma> r)) np"
| "run_mw \<sigma> (MountedRouter np mws) = run_mounted np (map (run_mw \<sigma>) mws)"

section \<open>Lemmas\<close>

lemma executeRouterChain_eq:
  "executeRouterChain i mws orig nxt = executeMiddlewareChain i mws (\<lambda>c. nxt (set_path orig c))"
proof (induction i mws orig nxt rule: executeRouterChain.induct)
  case (1 i mws orig nxt)
  then show ?case
    by (simp add: executeRouterChain.simps [of i] executeMiddlewareChain.simps [of i])
qed

lemma server_normalize_eq: "server_normalize = normalizePath"
  by (simp add: fun_eq_iff server_normalize_def normalizePath_def)

lemma normalizePath_slash: "hd (normalizePath p) = SLASH \<and> normalizePath p \<noteq> []"
proof (cases "p = [] \<or> p = ''/''")
  case True
  then show ?thesis by (auto simp: normalizePath_def)
next
  case False
  then obtain c cs where p: "p = c # cs" by (cases p) auto
  show ?thesis
  proof (cases "c = SLASH")
    case True
    with False p have "cs \<noteq> []" by auto
    with p True show ?thesis by (simp add: normalizePath_def Let_def)
  next
    case False
    with p show ?thesis by (simp add: normalizePath_def Let_def)
  qed
qed

lemma server_matches_iff:
  "server_matches np path \<longleftrightarrow> np = ''/'' \<or> path = np \<or> prefix (np @ ''/'') path"
proof -
  have "prefix np path \<and> (length path = length np \<or> path ! length np = SLASH) \<longleftrightarrow>
        path = np \<or> prefix (np @ ''/'') path"
  proof
    assume l: "prefix np path \<and> (length path = length np \<or> path ! length np = SLASH)"
    then obtain r where r: "path = np @ r" by (auto simp: prefix_def)
    with l show "path = np \<or> prefix (np @ ''/'') path" by (cases r) auto
  qed (auto simp: prefix_def)
  then show ?thesis by (simp add: server_matches_def)
qed

lemma pathStartsWith_server_matches:
  "pre \<noteq> [] \<Longrightarrow> pathStartsWith path pre = server_matches pre path"
  by (simp add: pathStartsWith_def server_matches_def)

lemma update_registry_other [simp]: "r \<noteq> r' \<Longrightarrow> update_registry \<sigma> r f r' = \<sigma> r'"
  by (simp add: update_registry_def)

lemma update_registry_same [simp]: "rregistry (update_registry \<sigma> r f r) = f (rregistry (\<sigma> r))"
  by (simp add: update_registry_def)

section \<open>Mounts as an interface\<close>

text \<open>
  What the server relies on when it chains mounts: a mount that does not serve a request is
  invisible, that is, it hands the context to \<open>next\<close> exactly as it got it.
\<close>

locale mount_family =
  fixes run :: "'m \<Rightarrow> ('j, 'w) mw_fun"
    and serves :: "'m \<Rightarrow> ('j, 'w) ctx \<Rightarrow> bool"
  assumes pass: "\<not> serves m c \<Longrightarrow> run m nxt c = nxt c"
begin

lemma chain_skip:
  "(\<forall>m \<in> set ms. \<not> serves m c) \<Longrightarrow>
   executeMiddlewareChain 0 (map run ms @ mws) final c = executeMiddlewareChain 0 mws final c"
  by (induction ms) (auto simp: pass)

lemma chain_pass:
  "(\<forall>m \<in> set ms. \<not> serves m c) \<Longrightarrow> executeMiddlewareChain 0 (map run ms) final c = final c"
  using chain_skip [of ms c "[]" final] by simp

lemma chain_first:
  "(\<forall>m \<in> set ms. \<not> serves m c) \<Longrightarrow>
   executeMiddlewareChain 0 (map run (ms @ m # ms')) final c =
     run m (executeMiddlewareChain 0 (map run ms') final) c"
  using chain_skip [of ms c "map run (m # ms')" final] by simp

end

text \<open>
  A route-only mount on the server serves a request when the mount point matches and the router
  has a route for the relative path; a sub-router likewise, with its own prefix test; a scoped
  middleware when the path has its prefix.
\<close>

definition mount_serves ::
  "('j, 'w) store \<Rightarrow> string \<times> rid \<Rightarrow> ('j, 'w) ctx \<Rightarrow> bool" where
  "mount_serves \<sigma> m c \<longleftrightarrow>
     server_matches (fst m) (cpath c) \<and>
     resolve (rregistry (\<sigma> (snd m))) (req_method (req c)) (server_relative (fst m) (cpath c)) \<noteq> None"

definition sub_serves ::
  "('j, 'w) store \<Rightarrow> string \<times> rid \<Rightarrow> ('j, 'w) ctx \<Rightarrow> bool" where
  "sub_serves \<sigma> m c \<longleftrightarrow>
     prefix (fst m) (cpath c) \<and>
     resolve (rregistry (\<sigma> (snd m))) (req_method (req c)) (sub_relative (fst m) (cpath c)) \<noteq> None"

definition run_mount :: "('j, 'w) store \<Rightarrow> string \<times> rid \<Rightarrow> ('j, 'w) mw_fun" where
  "run_mount \<sigma> m = run_mw \<sigma> (MountedRouter (fst m) [RouterRoutes (snd m)])"

definition run_sub :: "('j, 'w) store \<Rightarrow> string \<times> rid \<Rightarrow> ('j, 'w) mw_fun" where
  "run_sub \<sigma> m = run_mw \<sigma> (SubRouter (fst m) (snd m))"

lemma run_router_routes_None:
  "resolve reg (req_method (req c)) (cpath c) = None \<Longrightarrow> run_router_routes reg nxt c = nxt c"
  by (simp add: run_router_routes_def HandleRequest_resolve)

lemma run_router_routes_Some:
  "resolve reg (req_method (req c)) (cpath c) = Some h \<Longrightarrow>
   run_router_routes reg nxt c =
     h (c\<lparr>req := (req c)\<lparr>params := bindings reg (req_method (req c)) (cpath c)\<rparr>\<rparr>)"
  by (simp add: run_router_routes_def HandleRequest_resolve)

interpretation server_mounts: mount_family "run_mount \<sigma>" "mount_serves \<sigma>" for \<sigma>
  by unfold_locales
    (auto simp: mount_serves_def run_mount_def run_mounted_def executeRouterChain_eq
      run_router_routes_None)

interpretation sub_mounts: mount_family "run_sub \<sigma>" "sub_serves \<sigma>" for \<sigma>
  by unfold_locales
    (auto simp: sub_serves_def run_sub_def run_sub_router_def HandleRequest_resolve Let_def)

interpretation scoped_mws: mount_family
  "\<lambda>m. run_scoped (fst m) (snd m)" "\<lambda>m c. prefix (fst m) (cpath c)"
  by unfold_locales (simp add: run_scoped_def)

section \<open>What a middleware depends on\<close>

text \<open>Of the routers in the store, a middleware only ever consults the routes.\<close>

lemma HandleRequest_cong: "trie g = trie g' \<Longrightarrow> HandleRequest g c = HandleRequest g' c"
  by (simp add: HandleRequest_def getHandler_def)

lemma run_mw_cong:
  assumes "\<And>r. trie (rregistry (\<sigma> r)) = trie (rregistry (\<sigma>' r))"
  shows "run_mw \<sigma> mw = run_mw \<sigma>' mw"
proof (induction mw)
  case (MountedRouter np mws)
  then have "map (run_mw \<sigma>) mws = map (run_mw \<sigma>') mws" by simp
  then show ?case by (simp only: run_mw.simps)
qed (simp_all add: fun_eq_iff run_router_routes_def run_sub_router_def
    HandleRequest_cong [OF assms] run_scoped_def)

lemma server_relative_append:
  "np \<noteq> ''/'' \<Longrightarrow> rest = [] \<or> hd rest = SLASH \<Longrightarrow>
   server_relative np (np @ rest) = (if rest = [] then ''/'' else rest)"
  by (auto simp: server_relative_def sub_relative_def Let_def)

lemma server_matches_append:
  "np \<noteq> ''/'' \<Longrightarrow> server_matches np (np @ rest) \<longleftrightarrow> rest = [] \<or> hd rest = SLASH"
  by (cases rest) (auto simp: server_matches_def)

lemma run_mounted_routes:
  assumes "server_matches np (cpath c)"
    and "resolve (rregistry (\<sigma> r)) (req_method (req c)) (server_relative np (cpath c)) = Some h"
  shows "run_mw \<sigma> (MountedRouter np [RouterRoutes r]) nxt c =
    h (c\<lparr>req := (req c)\<lparr>req_path := server_relative np (cpath c),
         params := bindings (rregistry (\<sigma> r)) (req_method (req c)) (server_relative np (cpath c))\<rparr>\<rparr>)"
proof -
  let ?c = "set_path (server_relative np (cpath c)) c"
  have "resolve (rregistry (\<sigma> r)) (req_method (req ?c)) (cpath ?c) = Some h" using assms(2) by simp
  then have "run_router_routes (rregistry (\<sigma> r)) k ?c =
      h (?c\<lparr>req := (req ?c)\<lparr>params := bindings (rregistry (\<sigma> r)) (req_method (req ?c)) (cpath ?c)\<rparr>\<rparr>)" for k
    by (rule run_router_routes_Some)
  with assms(1) show ?thesis
    by (simp add: run_mounted_def executeRouterChain_eq) (simp add: set_path_def)
qed

section \<open>Properties\<close>

text \<open>
  A router mounted below the root captures exactly the mount point and the paths that go on
  with a slash behind it, and the router sees the rest of the path, or a slash for none.
\<close>

theorem mount_on_segment_boundary:
  assumes "np = server_normalize p" and "np \<noteq> ''/''"
  shows "(server_matches np path \<longleftrightarrow> (\<exists>rest. path = np @ rest \<and> (rest = [] \<or> hd rest = SLASH))) \<and>
    (rest = [] \<or> hd rest = SLASH \<longrightarrow>
       server_relative np (np @ rest) = (if rest = [] then ''/'' else rest))"
proof -
  have "server_matches np path \<longleftrightarrow> (\<exists>rest. path = np @ rest \<and> (rest = [] \<or> hd rest = SLASH))"
    using server_matches_append [OF assms(2)] assms(2)
    by (auto simp: server_matches_iff prefix_def)
  then show ?thesis using server_relative_append [OF assms(2)] by simp
qed

theorem mount_on_segment_boundary_witness:
  "server_matches ''/api'' ''/api/x'' \<and> \<not> server_matches ''/api'' ''/apiary'' \<and>
   server_relative ''/api'' (''/api'' @ ''/x'') = ''/x''"
  using mount_on_segment_boundary [of "''/api''" "''api/''" "''/api/x''" "''/x''"]
    mount_on_segment_boundary [of "''/api''" "''api/''" "''/apiary''" "[]"]
  by (simp add: server_normalize_def)

text \<open>
  Among routers mounted without middleware of their own, the first one that matches and has a
  route for the relative path answers, with that path and the bound parameters; the mounts before
  it leave no trace, and the mounts and the route behind it do not run.
\<close>

theorem first_serving_mount_answers:
  assumes "\<forall>m \<in> set before. \<not> mount_serves \<sigma> m c" and "mount_serves \<sigma> (np, r) c"
  shows "\<exists>h rel. rel = server_relative np (cpath c) \<and>
    resolve (rregistry (\<sigma> r)) (req_method (req c)) rel = Some h \<and>
    executeMiddlewareChain 0 (map (run_mount \<sigma>) (before @ (np, r) # after)) final c =
      h (c\<lparr>req := (req c)\<lparr>req_path := rel,
             params := bindings (rregistry (\<sigma> r)) (req_method (req c)) rel\<rparr>\<rparr>)"
proof -
  obtain h where h: "server_matches np (cpath c)"
    "resolve (rregistry (\<sigma> r)) (req_method (req c)) (server_relative np (cpath c)) = Some h"
    using assms(2) by (auto simp: mount_serves_def)
  have "executeMiddlewareChain 0 (map (run_mount \<sigma>) (before @ (np, r) # after)) final c =
      run_mount \<sigma> (np, r) (executeMiddlewareChain 0 (map (run_mount \<sigma>) after) final) c"
    using assms(1) by (rule server_mounts.chain_first)
  then show ?thesis
    using h run_mounted_routes [where \<sigma> = \<sigma> and r = r, OF h] by (simp add: run_mount_def)
qed

text \<open>Two routers for examples: users below one mount point, and items below another.\<close>

definition sample_store :: "(unit, unit) store" where
  "sample_store = (\<lambda>r.
     if r = 0
     then \<lparr>mountPath = [], rregistry = Register new_registry ''GET'' ''/users'' (Some Ret)\<rparr>
     else \<lparr>mountPath = [], rregistry = Register new_registry ''GET'' ''/y/items'' (Some Ret)\<rparr>)"

definition sample_ctx :: "string \<Rightarrow> (unit, unit) ctx" where
  "sample_ctx path =
     \<lparr>req = plain_request ''GET'' path,
      res = \<lparr>message = [], status = 0, res_protocol = [], res_headers = [],
             res_body = req_body (plain_request ''GET'' path)\<rparr>,
      world = ()\<rparr>"

lemma sample_ctx_simps [simp]:
  "cpath (sample_ctx path) = path" "req_method (req (sample_ctx path)) = ''GET''"
  by (simp_all add: sample_ctx_def)

lemma sample_users: "resolve (rregistry (sample_store 0)) ''GET'' ''/users'' = Some Ret"
  by (rule resolve_literal_route [of _ "''/users''"])
    (simp_all add: sample_store_def literal_path_def split_eq_tokens c_str_def)

lemma sample_items: "resolve (rregistry (sample_store 1)) ''GET'' ''/y/items'' = Some Ret"
  by (rule resolve_literal_route [of _ "''/y/items''"])
    (simp_all add: sample_store_def literal_path_def split_eq_tokens c_str_def)

theorem first_serving_mount_answers_witness:
  "\<exists>h rel. rel = ''/users'' \<and>
    executeMiddlewareChain 0 (map (run_mount sample_store) ([(''/app'', 1)] @ (''/api'', 0) # [(''/'', 1)]))
      (\<lambda>c. Exc (Std ''unreached'') c) (sample_ctx ''/api/users'') =
    h ((sample_ctx ''/api/users'')\<lparr>req := (req (sample_ctx ''/api/users''))\<lparr>req_path := rel,
         params := bindings (rregistry (sample_store 0)) ''GET'' rel\<rparr>\<rparr>)"
  using first_serving_mount_answers [of "[(''/app'', 1)]" sample_store "sample_ctx ''/api/users''"
      "''/api''" 0 "[(''/'', 1)]" "\<lambda>c. Exc (Std ''unreached'') c"] sample_users
  by (auto simp: mount_serves_def server_matches_def server_relative_def sub_relative_def)

text \<open>The middleware that mounting router \<open>r\<close> on the server registers.\<close>

definition mounted_by ::
  "('j, 'w) store \<Rightarrow> rid \<Rightarrow> ('j, 'w) registry \<Rightarrow> string \<Rightarrow> ('j, 'w) middleware" where
  "mounted_by \<sigma> r reg path = last (queue (server_use \<sigma> reg path r))"

text \<open>
  A router is consulted live for its routes and not at all for its middleware: a route added
  after mounting is served, middleware added after mounting is ignored.
\<close>

theorem mounted_routes_are_live:
  assumes "queue (rregistry (\<sigma> r)) = []" and "server_normalize path \<noteq> ''/''"
    and "method_ok (req_method (req c))" and "literal_path p"
    and "cpath c = server_normalize path @ p"
  shows "(\<exists>ps. run_mw (update_registry \<sigma> r (\<lambda>g. Register g (req_method (req c)) p (Some h)))
      (mounted_by \<sigma> r reg path) nxt c = h (c\<lparr>req := (req c)\<lparr>req_path := p, params := ps\<rparr>\<rparr>)) \<and>
    run_mw (update_registry \<sigma> r (\<lambda>g. RegisterMiddleWare g mw)) (mounted_by \<sigma> r reg path) =
      run_mw \<sigma> (mounted_by \<sigma> r reg path)"
proof
  let ?np = "server_normalize path"
  let ?\<sigma> = "update_registry \<sigma> r (\<lambda>g. Register g (req_method (req c)) p (Some h))"
  have p: "p \<noteq> []" "hd p = SLASH" using assms(4) by (auto simp: literal_path_def)
  have m: "mounted_by \<sigma> r reg path = MountedRouter ?np [RouterRoutes r]"
    using assms(1) by (simp add: mounted_by_def server_use_def getMiddlewares_def getMiddleWares_def)
  have "server_matches ?np (cpath c)" "server_relative ?np (cpath c) = p"
    using p assms(2,5) by (simp_all add: server_matches_append server_relative_append)
  moreover have "resolve (rregistry (?\<sigma> r)) (req_method (req c)) p = Some h"
    using assms(3,4) p by (intro resolve_literal_route) simp_all
  ultimately show "\<exists>ps. run_mw ?\<sigma> (mounted_by \<sigma> r reg path) nxt c =
      h (c\<lparr>req := (req c)\<lparr>req_path := p, params := ps\<rparr>\<rparr>)"
    using run_mounted_routes [of ?np c ?\<sigma> r h nxt] by (auto simp: m)
  show "run_mw (update_registry \<sigma> r (\<lambda>g. RegisterMiddleWare g mw)) (mounted_by \<sigma> r reg path) =
      run_mw \<sigma> (mounted_by \<sigma> r reg path)"
    by (rule run_mw_cong) (simp add: update_registry_def RegisterMiddleWare_def)
qed

theorem mounted_routes_are_live_witness:
  "\<exists>ps. run_mw (update_registry (\<lambda>r. new_router) 7 (\<lambda>g. Register g ''GET'' ''/late'' (Some Ret)))
      (mounted_by (\<lambda>r. new_router) 7 new_registry ''api'') (\<lambda>c. Exc (Std ''unreached'') c)
      (sample_ctx ''/api/late'') =
    Ret ((sample_ctx ''/api/late'')\<lparr>req := (req (sample_ctx ''/api/late''))\<lparr>req_path := ''/late'', params := ps\<rparr>\<rparr>)"
  using mounted_routes_are_live [of "\<lambda>r. new_router" 7 "''api''" "sample_ctx ''/api/late''" "''/late''"
      Ret new_registry "\<lambda>c. Exc (Std ''unreached'') c"]
  by (simp add: new_router_def new_registry_def server_normalize_def literal_path_def split_eq_tokens
      c_str_def)

text \<open>
  A handler reached through a server mount leaves the relative path behind: unlike
  \<open>Router::use\<close>, the mount does not put the original path back when the request was handled.
\<close>

theorem mount_leaves_relative_path:
  assumes "server_matches np (cpath c)"
    and "resolve (rregistry (\<sigma> r)) (req_method (req c)) (server_relative np (cpath c)) = Some Ret"
  shows "\<exists>c'. run_mw \<sigma> (MountedRouter np [RouterRoutes r]) nxt c = Ret c' \<and>
    cpath c' = server_relative np (cpath c)"
  using run_mounted_routes [where \<sigma> = \<sigma> and r = r and h = Ret, OF assms] by simp

theorem mount_leaves_relative_path_witness:
  "\<exists>c'. run_mw sample_store (MountedRouter ''/api'' [RouterRoutes 0]) Ret (sample_ctx ''/api/users'') = Ret c' \<and>
    cpath c' = ''/users''"
  using mount_leaves_relative_path [of "''/api''" "sample_ctx ''/api/users''" sample_store 0 Ret]
    sample_users
  by (simp add: server_matches_def server_relative_def sub_relative_def)

text \<open>
  \<open>Router::use\<close> forwards to the sub-router with a relative path, restores the original path
  whether or not the sub-router had a route, and passes the request on untouched if it had none.
\<close>

theorem sub_router_restores_path:
  "run_sub \<sigma> (np, r) nxt c =
    (if sub_serves \<sigma> (np, r) c
     then and_then (snd (HandleRequest (rregistry (\<sigma> r)) (set_path (sub_relative np (cpath c)) c)))
            (\<lambda>c2. Ret (set_path (cpath c) c2))
     else nxt c)"
  by (auto simp: run_sub_def sub_serves_def run_sub_router_def HandleRequest_resolve Let_def
      split: option.splits)

text \<open>
  \<open>Router::use\<close> tests a bare prefix: a path that continues the mount point inside a segment
  is captured, and its rest is served as if a slash had stood there.
\<close>

theorem sub_router_ignores_boundary:
  assumes "cpath c = np @ x # rest" and "x \<noteq> SLASH"
    and "resolve (rregistry (\<sigma> r)) (req_method (req c)) (SLASH # x # rest) = Some h"
  shows "sub_serves \<sigma> (np, r) c \<and>
    run_sub \<sigma> (np, r) nxt c =
      and_then (h (c\<lparr>req := (req c)\<lparr>req_path := SLASH # x # rest,
          params := bindings (rregistry (\<sigma> r)) (req_method (req c)) (SLASH # x # rest)\<rparr>\<rparr>))
        (\<lambda>c2. Ret (set_path (cpath c) c2))"
  using assms
  by (simp add: run_sub_def sub_serves_def run_sub_router_def HandleRequest_resolve Let_def
      sub_relative_def) (simp add: set_path_def)

theorem sub_router_ignores_boundary_witness:
  "sub_serves sample_store (''/api'', 1) (sample_ctx ''/apiy/items'')"
  using sub_router_ignores_boundary [of "sample_ctx ''/apiy/items''" "''/api''" "CHR ''y''" "''/items''"
      sample_store 1 Ret Ret] sample_items
  by simp

text \<open>
  The middleware of a sub-router, and whatever is mounted on it, never runs: what
  \<open>Router::use\<close> registers depends on the routes of the sub-router only.
\<close>

theorem sub_router_middleware_ignored:
  "run_mw (update_registry \<sigma> r (\<lambda>g. g\<lparr>queue := mws\<rparr>)) (SubRouter np r) = run_mw \<sigma> (SubRouter np r)"
  by (rule run_mw_cong) (simp add: update_registry_def)

text \<open>
  C39: A middleware scoped to a path does not see every request that reaches a route below that
  path: it compares the text of the path, while lookups ignore empty segments, so one more slash in
  front leads around the middleware to the same handler with the same parameters.
\<close>

theorem doubled_slash_evades_scoped_middleware:
  assumes "method_ok m" and "a \<noteq> SLASH" and "cpath c = SLASH # p" and "hd p = SLASH" and "p \<noteq> []"
  shows "run_mw \<sigma> (ScopedMw (SLASH # a # rest) mw) nxt c = nxt c \<and>
    resolve reg m (cpath c) = resolve reg m p \<and> bindings reg m (cpath c) = bindings reg m p"
proof -
  have segs: "route_segments m (cpath c) = route_segments m p"
    using assms by (intro segments_cong) (simp_all add: split_slash)
  have "\<not> prefix (SLASH # a # rest) (cpath c)" using assms(2-5) by (cases p) auto
  then show ?thesis unfolding resolve_def bindings_def segs by (simp add: run_scoped_def)
qed

theorem doubled_slash_evades_scoped_middleware_witness:
  "run_mw sample_store (ScopedMw ''/users'' (UserMw (\<lambda>nxt. Exc (Std ''denied'')))) Ret (sample_ctx ''//users/new'') =
     Ret (sample_ctx ''//users/new'') \<and>
   resolve users_table ''GET'' ''//users/new'' = Some (\<lambda>c. Exc (Std ''new'') c)"
proof -
  have "resolve users_table ''GET'' ''/users/new'' = Some (\<lambda>c. Exc (Std ''new'') c)"
    by (rule resolve_literal_route [of _ "''/users/new''"])
      (simp_all add: users_table_def literal_path_def segment_eval)
  then show ?thesis
    using doubled_slash_evades_scoped_middleware [of "''GET''" "CHR ''u''" "sample_ctx ''//users/new''" "''/users/new''"
        sample_store "''sers''" "UserMw (\<lambda>nxt. Exc (Std ''denied''))" Ret users_table]
    by simp
qed

end
