(* ===== verification/Http_Server.thy ===== *)
theory Http_Server
  imports Routers Http_Parser
begin

text \<open>
  \<open>HttpServer\<close> per request and per read (\<open>src/HttpServer.cpp\<close>): \<open>handleRequest\<close> runs the
  middleware and the route and serialises the answer, \<open>errorResponse\<close> answers what the parser
  rejected, and the data branch of \<open>Loop::onRead\<close> feeds a chunk to the connection's parser and
  collects what is written.
\<close>

section \<open>handleRequest\<close>

definition kCoalesceBelow :: nat where
  "kCoalesceBelow = 64 * 1024"

definition not_found_json :: "'j json_lib \<Rightarrow> 'j request \<Rightarrow> 'j" where
  "not_found_json J r =
     j_object J [(''error'', j_string J ''Not Found''), (''path'', j_string J (req_path r)),
       (''method'', j_string J (req_method r))]"

definition runRoute :: "'j json_lib \<Rightarrow> ('j, 'w) registry \<Rightarrow> ('j, 'w) act" where
  "runRoute J reg c =
     (case getHandler reg (req c) of
        (Some h, r) \<Rightarrow> h (c\<lparr>req := r\<rparr>)
      | (None, r) \<Rightarrow>
          (case send_json J (not_found_json J r) (set_status 404 (res c)) of
             (None, response) \<Rightarrow> Ret (c\<lparr>req := r, res := response\<rparr>)
           | (Some what, response) \<Rightarrow> Exc (Std what) (c\<lparr>req := r, res := response\<rparr>)))"

text \<open>
  The result: what was thrown, the flag \<open>shouldClose\<close>, the two buffers, and the world. The flag
  is passed in, because it keeps its value when the handler throws.
\<close>

record 'w handled =
  h_exc :: "exn option"
  h_close :: bool
  h_head :: string
  h_body :: string
  h_world :: 'w

definition run_chain ::
  "'j json_lib \<Rightarrow> ('j, 'w) store \<Rightarrow> ('j, 'w) registry \<Rightarrow> ('j, 'w) act" where
  "run_chain J \<sigma> reg =
     (let mws = map (run_mw \<sigma>) (getMiddleWares reg) in
      if mws \<noteq> [] then executeMiddlewareChain 0 mws (runRoute J reg) else runRoute J reg)"

definition start_ctx :: "'j json_lib \<Rightarrow> int \<Rightarrow> 'j request \<Rightarrow> 'w \<Rightarrow> ('j, 'w) ctx" where
  "start_ctx J junk r w =
     \<lparr>req = r, res = (new_response J junk)\<lparr>res_protocol := ''HTTP/1.1''\<rparr>, world = w\<rparr>"

definition finish_response :: "bool \<Rightarrow> 'j response \<Rightarrow> 'j response" where
  "finish_response shouldClose r =
     set_content_length
       (setHeader ''Connection'' (if shouldClose then ''close'' else ''keep-alive'') r)"

definition handleRequest ::
  "'j json_lib \<Rightarrow> ('j, 'w) store \<Rightarrow> ('j, 'w) registry \<Rightarrow> int \<Rightarrow> 'j request \<Rightarrow> bool \<Rightarrow> bool \<Rightarrow> 'w \<Rightarrow>
   'w handled" where
  "handleRequest J \<sigma> reg junk request keepAlive shouldClose w =
     (case run_chain J \<sigma> reg (start_ctx J junk request w) of
        Exc e c \<Rightarrow>
          \<lparr>h_exc = Some e, h_close = shouldClose, h_head = [], h_body = [], h_world = world c\<rparr>
      | Ret c \<Rightarrow>
          (let shouldClose1 = (\<not> keepAlive);
               response = finish_response shouldClose1 (res c);
               includeBody = (req_method (req c) \<noteq> ''HEAD'') in
           case serialize J response kCoalesceBelow includeBody of
             Inl what \<Rightarrow>
               \<lparr>h_exc = Some (Std what), h_close = shouldClose1, h_head = [], h_body = [],
                h_world = world c\<rparr>
           | Inr (head, body) \<Rightarrow>
               \<lparr>h_exc = None, h_close = shouldClose1, h_head = head, h_body = body,
                h_world = world c\<rparr>))"

section \<open>errorResponse\<close>

definition error_json :: "'j json_lib \<Rightarrow> int \<Rightarrow> 'j" where
  "error_json J s = j_object J [(''error'', j_string J (getResponseMessage s))]"

definition errorResponse :: "'j json_lib \<Rightarrow> int \<Rightarrow> int \<Rightarrow> string + string" where
  "errorResponse J junk s =
     (let r0 = (new_response J junk)\<lparr>res_protocol := ''HTTP/1.1''\<rparr> in
      case send_json J (error_json J s) (set_status s r0) of
        (Some what, _) \<Rightarrow> Inl what
      | (None, r1) \<Rightarrow>
          prepareResponse J (set_content_length (setHeader ''Connection'' ''close'' r1)))"

section \<open>Reading from a connection\<close>

text \<open>
  What the lambda of \<open>onRead\<close> works on: the world, the flag \<open>shouldClose\<close>, and the pairs of
  buffers passed to \<open>send\<close>, in order. \<open>junk n\<close> is the memory the n-th response starts with.
\<close>

record 'w io =
  io_world :: 'w
  io_close :: bool
  io_writes :: "(string \<times> string) list"

definition on_request ::
  "'j json_lib \<Rightarrow> ('j, 'w) store \<Rightarrow> ('j, 'w) registry \<Rightarrow> (nat \<Rightarrow> int) \<Rightarrow>
   ('j, 'w io) request_handler" where
  "on_request J \<sigma> reg junk request keepAlive s =
     (let h = handleRequest J \<sigma> reg (junk (length (io_writes s))) request keepAlive (io_close s)
                (io_world s);
          s1 = s\<lparr>io_world := h_world h, io_close := h_close h\<rparr> in
      case h_exc h of
        Some e \<Rightarrow> (Some e, s1)
      | None \<Rightarrow> (None, s1\<lparr>io_writes := io_writes s1 @ [(h_head h, h_body h)]\<rparr>))"

text \<open>
  \<open>onRead\<close> with data. \<^term>\<open>Inl\<close> is an exception that leaves the callback: one that the parser's
  \<open>catch\<close> does not name, which passes llhttp's C frames and \<open>execute\<close>, or what \<open>errorResponse\<close>
  throws, which runs outside the parser's \<open>try\<close>.
\<close>

definition read_data ::
  "'j json_lib \<Rightarrow> 'l llhttp \<Rightarrow> ('j, 'w) store \<Rightarrow> ('j, 'w) registry \<Rightarrow> (nat \<Rightarrow> int) \<Rightarrow>
   string \<Rightarrow> 'l http_parser \<Rightarrow> 'w \<Rightarrow> exn + ('l http_parser \<times> 'w io)" where
  "read_data J L \<sigma> reg junk data p w =
     (case execute J L (on_request J \<sigma> reg junk) data p
             \<lparr>io_world = w, io_close = False, io_writes = []\<rparr> of
        (True, p1, s1) \<Rightarrow> Inr (p1, s1)
      | (False, p1, s1) \<Rightarrow>
          if escaping (impl p1) then Inl Foreign
          else
          (case errorResponse J (junk (length (io_writes s1))) (errorStatus p1) of
             Inl what \<Rightarrow> Inl (Std what)
           | Inr text \<Rightarrow>
               Inr (p1, s1\<lparr>io_writes := io_writes s1 @ [(text, [])], io_close := True\<rparr>)))"

section \<open>The response that goes out\<close>

lemma run_chain_eq: "run_chain J \<sigma> reg = executeMiddlewareChain 0 (map (run_mw \<sigma>) (queue reg)) (runRoute J reg)"
  by (simp add: run_chain_def getMiddleWares_def Let_def)

lemma status_line_finish [simp]: "status_line (finish_response cl r) = status_line r"
  by (simp add: finish_response_def status_line_def)

lemma finish_response_simps [simp]:
  "res_body (finish_response cl r) = res_body r" "status (finish_response cl r) = status r"
  "smap_get (res_headers (finish_response cl r)) ''Content-Length'' =
     Some (nat_to_string (body_length (res_body r)))"
  "smap_get (res_headers (finish_response cl r)) ''Connection'' =
     Some (if cl then ''close'' else ''keep-alive'')"
  by (simp_all add: finish_response_def)

lemma header_safe_finish:
  assumes "\<forall>kv \<in> set (res_headers r). header_safe kv"
  shows "\<forall>kv \<in> set (res_headers (finish_response cl r)). header_safe kv"
proof -
  have conn: "header_safe (''Connection'', if cl then ''close'' else ''keep-alive'')"
    by (simp add: header_safe_def line_safe_def)
  have len: "header_safe (''Content-Length'', nat_to_string n)" for n
    by (simp add: header_safe_def) (simp add: line_safe_def)
  show ?thesis
    unfolding finish_response_def set_content_length_simps setHeader_simps
    by (rule header_safe_set [OF len header_safe_set [OF conn assms]])
qed

text \<open>A response that can be framed: its body is written in full and its head is well formed.\<close>

definition framable :: "'j json_lib \<Rightarrow> 'j response \<Rightarrow> bool" where
  "framable J r \<longleftrightarrow>
     body_ok J (res_body r) \<and> written_type (body_type (res_body r)) \<and>
     line_safe (res_protocol r) \<and> (\<forall>kv \<in> set (res_headers r). header_safe kv)"

lemma handleRequest_Ret:
  assumes "run_chain J \<sigma> reg (start_ctx J junk r w) = Ret c"
    and "body_payload J (res_body (res c)) = Inr p" and "req_method (req c) \<noteq> ''HEAD''"
  shows "\<exists>head body. handleRequest J \<sigma> reg junk r ka sc w =
      \<lparr>h_exc = None, h_close = \<not> ka, h_head = head, h_body = body, h_world = world c\<rparr> \<and>
    wire (head, body) = head_text (finish_response (\<not> ka) (res c)) @ p"
  using assms by (simp add: handleRequest_def serialize_def wire_def Let_def)

lemma handleRequest_HEAD:
  assumes "run_chain J \<sigma> reg (start_ctx J junk r w) = Ret c" and "req_method (req c) = ''HEAD''"
  shows "handleRequest J \<sigma> reg junk r ka sc w =
      \<lparr>h_exc = None, h_close = \<not> ka, h_head = head_text (finish_response (\<not> ka) (res c)),
       h_body = [], h_world = world c\<rparr>"
  using assms by (simp add: handleRequest_def serialize_no_body Let_def)

lemma read_message_finish:
  assumes "framable J r"
  shows "\<exists>p. body_payload J (res_body r) = Inr p \<and>
    read_message (head_text (finish_response cl r) @ p @ rest) =
      Some (status_line r, res_headers (finish_response cl r), p, rest)"
proof -
  obtain p where p: "body_payload J (res_body r) = Inr p" "length p = body_length (res_body r)"
    using assms payload_length [of J "res_body r"] by (auto simp: framable_def)
  have "line_safe (status_line (finish_response cl r))"
    using assms by (simp add: framable_def)
  then have "read_message (head_text (finish_response cl r) @ p @ rest) =
      Some (status_line (finish_response cl r), res_headers (finish_response cl r), p, rest)"
    using assms p by (intro read_message_back header_safe_finish) (auto simp: framable_def)
  with p show ?thesis by simp
qed

text \<open>The response of a request no route answers.\<close>

definition not_found_response :: "'j json_lib \<Rightarrow> 'j request \<Rightarrow> string \<Rightarrow> 'j response" where
  "not_found_response J r text =
     \<lparr>message = [], status = 404, res_protocol = ''HTTP/1.1'',
      res_headers = [(''Content-Length'', nat_to_string (length text)),
                     (''Content-Type'', ''application/json'')],
      res_body = (new_body J)\<lparr>body_type := JSON, json_data := not_found_json J r, raw_data := text\<rparr>\<rparr>"

lemma runRoute_not_found:
  assumes "resolve reg (req_method r) (req_path r) = None"
    and "j_dump J (not_found_json J r) = Inr text"
  shows "runRoute J reg (start_ctx J junk r w) =
    Ret \<lparr>req = r, res = not_found_response J r text, world = w\<rparr>"
  using assms
  by (simp add: runRoute_def getHandler_resolve start_ctx_def send_json_def setJson_def
      new_response_def set_status_def setHeader_def set_content_length_def body_length_def
      not_found_response_def new_body_def Let_def)

lemma runRoute_not_found_throws:
  assumes "resolve reg (req_method r) (req_path r) = None"
    and "j_dump J (not_found_json J r) = Inl what"
  shows "\<exists>c. runRoute J reg (start_ctx J junk r w) = Exc (Std what) c"
  using assms
  by (simp add: runRoute_def getHandler_resolve start_ctx_def send_json_def setJson_def Let_def)

lemma runRoute_found:
  "resolve reg (req_method (req c)) (cpath c) = Some h \<Longrightarrow>
   runRoute J reg c =
     h (c\<lparr>req := (req c)\<lparr>params := bindings reg (req_method (req c)) (cpath c)\<rparr>\<rparr>)"
  by (simp add: runRoute_def getHandler_resolve)

section \<open>Reads\<close>

lemma handled_close:
  "h_exc (handleRequest J \<sigma> reg junk r ka sc w) = None \<Longrightarrow>
   h_close (handleRequest J \<sigma> reg junk r ka sc w) = (\<not> ka)"
  by (auto simp: handleRequest_def Let_def split: outcome.splits sum.splits prod.splits)

lemma on_request_writes:
  "on_request J \<sigma> reg junk r ka s = (exc, s1) \<Longrightarrow>
   length (io_writes s1) = length (io_writes s) + (if exc = None then 1 else 0) \<and>
   prefix (io_writes s) (io_writes s1)"
  by (auto simp: on_request_def Let_def split: option.splits)

lemma errorResponse_text:
  assumes "j_dump J (error_json J s) = Inr text" and "length text \<le> SIZE_MAX"
  shows "errorResponse J junk s =
    Inr (''HTTP/1.1 '' @ int_to_string s @ '' '' @ getResponseMessage s @ CRLF @
         ''Connection: close'' @ CRLF @
         ''Content-Length: '' @ nat_to_string (length text) @ CRLF @
         ''Content-Type: application/json'' @ CRLF @ CRLF @ text)"
  using assms
  by (simp add: errorResponse_def send_json_def setJson_def new_response_def set_status_def
      setHeader_def set_content_length_def body_length_def prepareResponse_def serialize_def
      body_payload_def head_text_def status_line_def header_line_def Let_def)

section \<open>Answering the requests of a read\<close>

text \<open>
  The answers to a list of requests, each with its keep-alive verdict: the buffers in order, the
  close flag and the world they leave; nothing if one of them throws.
\<close>

fun answers ::
  "'j json_lib \<Rightarrow> ('j, 'w) store \<Rightarrow> ('j, 'w) registry \<Rightarrow> (nat \<Rightarrow> int) \<Rightarrow> nat \<Rightarrow>
   ('j request \<times> bool) list \<Rightarrow> bool \<Rightarrow> 'w \<Rightarrow> ((string \<times> string) list \<times> bool \<times> 'w) option" where
  "answers J \<sigma> reg junk n [] cl w = Some ([], cl, w)"
| "answers J \<sigma> reg junk n ((r, ka) # rs) cl w =
     (let h = handleRequest J \<sigma> reg (junk n) r ka cl w in
      case h_exc h of
        Some e \<Rightarrow> None
      | None \<Rightarrow> map_option (\<lambda>(ws, cl', w'). ((h_head h, h_body h) # ws, cl', w'))
                  (answers J \<sigma> reg junk (n + 1) rs (h_close h) (h_world h)))"

lemma answers_length:
  "answers J \<sigma> reg junk n rs cl w = Some (ws, cl', w') \<Longrightarrow>
   length ws = length rs \<and> cl' = (if rs = [] then cl else \<not> snd (last rs))"
proof (induction rs arbitrary: n cl w ws)
  case (Cons rk rs)
  obtain r ka where rk: "rk = (r, ka)" by (cases rk)
  let ?h = "handleRequest J \<sigma> reg (junk n) r ka cl w"
  from Cons.prems obtain ws1 where ws1: "h_exc ?h = None"
    "answers J \<sigma> reg junk (n + 1) rs (h_close ?h) (h_world ?h) = Some (ws1, cl', w')"
    "ws = (h_head ?h, h_body ?h) # ws1"
    by (auto simp: rk Let_def split: option.splits)
  with Cons.IH [OF ws1(2)] handled_close [OF ws1(1)] show ?case by (simp add: rk)
qed simp

lemma serve_msgs_answers:
  assumes "map (request_of J) ms = map Inr rs"
    and "answers J \<sigma> reg junk (length ws0) (zip rs (map m_keep ms)) cl w = Some (ws, cl', w')"
  shows "serve_msgs J (on_request J \<sigma> reg junk) ms \<lparr>io_world = w, io_close = cl, io_writes = ws0\<rparr> =
    (True, \<lparr>io_world = w', io_close = cl', io_writes = ws0 @ ws\<rparr>)"
  using assms
proof (induction ms arbitrary: rs ws0 cl w ws)
  case (Cons m ms)
  then obtain r rs' where rs: "rs = r # rs'" "request_of J m = Inr r" "map (request_of J) ms = map Inr rs'"
    by (cases rs) auto
  let ?h = "handleRequest J \<sigma> reg (junk (length ws0)) r (m_keep m) cl w"
  from Cons.prems(2) obtain ws1 where ws1: "h_exc ?h = None"
    "answers J \<sigma> reg junk (length (ws0 @ [(h_head ?h, h_body ?h)])) (zip rs' (map m_keep ms))
       (h_close ?h) (h_world ?h) = Some (ws1, cl', w')"
    "ws = (h_head ?h, h_body ?h) # ws1"
    by (auto simp: rs Let_def split: option.splits)
  have "serve_msg J (on_request J \<sigma> reg junk) m \<lparr>io_world = w, io_close = cl, io_writes = ws0\<rparr> =
      (True, \<lparr>io_world = h_world ?h, io_close = h_close ?h,
         io_writes = ws0 @ [(h_head ?h, h_body ?h)]\<rparr>)"
    using ws1(1) by (simp add: serve_msg_def rs on_request_def Let_def)
  with Cons.IH [OF rs(3) ws1(2)] ws1(3) show ?case by simp
qed simp

lemma read_data_msgs:
  assumes "ll_execute L (lex p) data = (concat (map msg_events ms), l, HPE_OK, reason)"
    and "at_start (impl p)" and "\<forall>m \<in> set ms. msg_ok (limit (impl p)) m"
    and "serve_msgs J (on_request J \<sigma> reg junk) ms \<lparr>io_world = w, io_close = False, io_writes = []\<rparr> = (True, s1)"
  shows "\<exists>p1. read_data J L \<sigma> reg junk data p w = Inr (p1, s1) \<and> at_start (impl p1)"
  using execute_serves_msgs [OF assms(1-3), of J "on_request J \<sigma> reg junk"
      "\<lparr>io_world = w, io_close = False, io_writes = []\<rparr>"] assms(4)
  by (auto simp: read_data_def)

lemma read_message_error:
  assumes "s = 400 \<or> s = 431" and "j_dump J (error_json J s) = Inr text" and "length text \<le> SIZE_MAX"
  shows "\<exists>t. errorResponse J junk s = Inr t \<and>
    read_message t = Some (''HTTP/1.1 '' @ int_to_string s @ '' '' @ getResponseMessage s,
      [(''Connection'', ''close''), (''Content-Length'', nat_to_string (length text)),
       (''Content-Type'', ''application/json'')], text, [])"
proof -
  let ?r = "\<lparr>message = [], status = s, res_protocol = ''HTTP/1.1'',
      res_headers = [(''Connection'', ''close''), (''Content-Length'', nat_to_string (length text)),
        (''Content-Type'', ''application/json'')],
      res_body = new_body J\<rparr>"
  have safe: "header_safe (''Content-Length'', nat_to_string n)" for n
    by (simp add: header_safe_def) (simp add: line_safe_def)
  have rest: "header_safe (''Connection'', ''close'')" "header_safe (''Content-Type'', ''application/json'')"
    by (simp_all add: header_safe_def line_safe_def)
  have "read_message (head_text ?r @ text @ []) = Some (status_line ?r, res_headers ?r, text, [])"
  proof (rule read_message_back)
    show "line_safe (status_line ?r)" by simp (simp add: line_safe_def)
    show "\<forall>kv \<in> set (res_headers ?r). header_safe kv" using safe rest by simp
    show "smap_get (res_headers ?r) ''Content-Length'' = Some (nat_to_string (length text))"
      by (simp add: smap_get_def)
  qed
  then show ?thesis
    unfolding errorResponse_text [OF assms(2,3)]
    by (simp add: head_text_def status_line_def header_line_def)
qed

lemma framable_not_found:
  "j_dump J (not_found_json J r) = Inr text \<Longrightarrow> framable J (not_found_response J r text)"
proof -
  assume d: "j_dump J (not_found_json J r) = Inr text"
  have "header_safe (''Content-Length'', nat_to_string n)" for n
    by (simp add: header_safe_def) (simp add: line_safe_def)
  moreover have "header_safe (''Content-Type'', ''application/json'')"
    by (simp add: header_safe_def line_safe_def)
  ultimately have "\<forall>kv \<in> set (res_headers (not_found_response J r text)). header_safe kv"
    by (simp add: not_found_response_def)
  with d show ?thesis
    by (simp add: framable_def not_found_response_def body_ok_def written_type_def new_body_def)
      (simp add: line_safe_def)
qed

lemma finish_headers_map_of:
  "map_of (res_headers (finish_response cl r)) ''Connection'' = Some (if cl then ''close'' else ''keep-alive'')"
  "map_of (res_headers (finish_response cl r)) ''Content-Length'' = Some (nat_to_string (body_length (res_body r)))"
  using finish_response_simps(4) [of cl r] finish_response_simps(3) [of cl r] by (simp_all only: smap_get_def)

lemma handleRequest_framed:
  assumes "run_chain J \<sigma> reg (start_ctx J junk request w) = Ret c"
    and "framable J (res c)" and "req_method (req c) \<noteq> ''HEAD''"
  shows "\<exists>head body p. handleRequest J \<sigma> reg junk request ka sc w =
      \<lparr>h_exc = None, h_close = \<not> ka, h_head = head, h_body = body, h_world = world c\<rparr> \<and>
    body_payload J (res_body (res c)) = Inr p \<and>
    read_message (wire (head, body) @ rest) =
      Some (status_line (res c), res_headers (finish_response (\<not> ka) (res c)), p, rest)"
proof -
  obtain p where p: "body_payload J (res_body (res c)) = Inr p"
    "read_message (head_text (finish_response (\<not> ka) (res c)) @ p @ rest) =
      Some (status_line (res c), res_headers (finish_response (\<not> ka) (res c)), p, rest)"
    using read_message_finish [OF assms(2)] by blast
  obtain head body where h: "handleRequest J \<sigma> reg junk request ka sc w =
      \<lparr>h_exc = None, h_close = \<not> ka, h_head = head, h_body = body, h_world = world c\<rparr>"
    "wire (head, body) = head_text (finish_response (\<not> ka) (res c)) @ p"
    using handleRequest_Ret [OF assms(1) p(1) assms(3)] by blast
  have "wire (head, body) @ rest = head_text (finish_response (\<not> ka) (res c)) @ p @ rest"
    by (simp add: h(2))
  with p h(1) show ?thesis by metis
qed

lemma run_chain_no_middleware: "queue reg = [] \<Longrightarrow> run_chain J \<sigma> reg = runRoute J reg"
  by (simp add: run_chain_eq)

section \<open>The stream a client reads\<close>

text \<open>What the middleware and the routes make of a list of requests, one after the other.\<close>

fun chain_results ::
  "'j json_lib \<Rightarrow> ('j, 'w) store \<Rightarrow> ('j, 'w) registry \<Rightarrow> (nat \<Rightarrow> int) \<Rightarrow> nat \<Rightarrow> 'j request list \<Rightarrow>
   'w \<Rightarrow> ('j, 'w) ctx list option" where
  "chain_results J \<sigma> reg junk n [] w = Some []"
| "chain_results J \<sigma> reg junk n (r # rs) w =
     (case run_chain J \<sigma> reg (start_ctx J (junk n) r w) of
        Exc e c \<Rightarrow> None
      | Ret c \<Rightarrow> map_option (\<lambda>cs. c # cs) (chain_results J \<sigma> reg junk (n + 1) rs (world c)))"

text \<open>A client that reads \<open>n\<close> messages off the stream, keeping status lines and bodies.\<close>

fun read_stream :: "nat \<Rightarrow> string \<Rightarrow> ((string \<times> string) list \<times> string) option" where
  "read_stream 0 s = Some ([], s)"
| "read_stream (Suc n) s =
     (case read_message s of
        None \<Rightarrow> None
      | Some (line, hs, body, rest) \<Rightarrow>
          map_option (\<lambda>(ms, rest'). ((line, body) # ms, rest')) (read_stream n rest))"

definition answer_of :: "'j json_lib \<Rightarrow> ('j, 'w) ctx \<Rightarrow> string \<times> string" where
  "answer_of J c =
     (status_line (res c),
      case body_payload J (res_body (res c)) of Inl what \<Rightarrow> [] | Inr p \<Rightarrow> p)"

definition answerable :: "'j json_lib \<Rightarrow> ('j, 'w) ctx \<Rightarrow> bool" where
  "answerable J c \<longleftrightarrow> framable J (res c) \<and> req_method (req c) \<noteq> ''HEAD''"

lemma chain_results_length:
  "chain_results J \<sigma> reg junk n rs w = Some cs \<Longrightarrow> length cs = length rs"
  by (induction rs arbitrary: n w cs) (auto split: outcome.splits)

lemma answers_stream:
  assumes "chain_results J \<sigma> reg junk n rs w = Some cs" and "list_all (answerable J) cs"
    and "length ks = length rs"
  shows "\<exists>ws cl w'. answers J \<sigma> reg junk n (zip rs ks) b w = Some (ws, cl, w') \<and>
    read_stream (length rs) (concat (map wire ws) @ rest) = Some (map (answer_of J) cs, rest)"
  using assms
proof (induction rs arbitrary: n w cs ks b)
  case Nil
  then show ?case by simp
next
  case (Cons r rs)
  then obtain c cs' where c: "run_chain J \<sigma> reg (start_ctx J (junk n) r w) = Ret c"
    "chain_results J \<sigma> reg junk (n + 1) rs (world c) = Some cs'" "cs = c # cs'"
    by (auto split: outcome.splits)
  obtain k ks' where ks: "ks = k # ks'" "length ks' = length rs" using Cons.prems(3) by (cases ks) auto
  have ok: "answerable J c" "list_all (answerable J) cs'"
    using Cons.prems(2) c(3) by simp_all
  have all: "framable J (res c)" "req_method (req c) \<noteq> ''HEAD''" "list_all (answerable J) cs'"
    using ok by (auto simp: answerable_def)
  from Cons.IH [OF c(2) all(3) ks(2), of "\<not> k"] obtain ws cl w' where
    ws: "answers J \<sigma> reg junk (n + 1) (zip rs ks') (\<not> k) (world c) = Some (ws, cl, w')"
    "read_stream (length rs) (concat (map wire ws) @ rest) = Some (map (answer_of J) cs', rest)"
    by blast
  from handleRequest_framed [OF c(1) all(1,2), of k b "concat (map wire ws) @ rest"]
  obtain head body p where h: "handleRequest J \<sigma> reg (junk n) r k b w =
      \<lparr>h_exc = None, h_close = \<not> k, h_head = head, h_body = body, h_world = world c\<rparr>"
    "body_payload J (res_body (res c)) = Inr p"
    "read_message (wire (head, body) @ concat (map wire ws) @ rest) =
      Some (status_line (res c), res_headers (finish_response (\<not> k) (res c)), p,
        concat (map wire ws) @ rest)"
    by blast
  show ?case
    using h ws c(3) ks(1) by (auto simp: Let_def answer_of_def)
qed

text \<open>Any other exception leaves \<open>execute\<close>, and with it the callback of the loop.\<close>

lemma foreign_exception_escapes:
  assumes "ll_execute L (lex p) data = (msg_events m, l, HPE_OK, reason)"
    and "at_start (impl p)" and "msg_ok (limit (impl p)) m" and "request_of J m = Inr r"
    and "run_chain J \<sigma> reg (start_ctx J (junk 0) r w) = Exc Foreign c"
  shows "read_data J L \<sigma> reg junk data p w = Inl Foreign"
proof -
  let ?h = "on_request J \<sigma> reg junk" and ?s = "\<lparr>io_world = w, io_close = False, io_writes = []\<rparr>"
  have exc: "fst (?h r (m_keep m) ?s) = Some Foreign"
    using assms(5) by (simp add: on_request_def handleRequest_def)
  obtain i1 where i1: "run_events J ?h (msg_events m) (cleared (impl p)) ?s =
      (fst (serve_msg J ?h m ?s), i1, snd (serve_msg J ?h m ?s))" "escaping i1 = lets_escape J ?h m ?s"
    using run_msg [of "cleared (impl p)" m J ?h ?s] at_start_cleared [OF assms(2)] assms(3) by auto
  have "\<not> fst (serve_msg J ?h m ?s)"
    using assms(4) exc by (auto simp: serve_msg_def split: prod.split option.split)
  moreover have "lets_escape J ?h m ?s" using assms(4) exc by (simp add: lets_escape_def)
  ultimately show ?thesis
    unfolding read_data_def execute_eq [OF assms(1) i1(1)] using i1(2) by simp
qed

section \<open>Properties\<close>

text \<open>
  C9: When the chain returns, the request is answered with a message that can be read back from
  the connection: the status line, headers with the length of the body and the connection's
  fate, exactly the body, then whatever is sent next.
\<close>

theorem answer_is_framed:
  assumes "run_chain J \<sigma> reg (start_ctx J junk request w) = Ret c"
    and "framable J (res c)" and "req_method (req c) \<noteq> ''HEAD''"
  shows "\<exists>h hs p. h = handleRequest J \<sigma> reg junk request ka sc w \<and>
    h_exc h = None \<and> h_close h = (\<not> ka) \<and> h_world h = world c \<and>
    body_payload J (res_body (res c)) = Inr p \<and>
    read_message (wire (h_head h, h_body h) @ rest) = Some (status_line (res c), hs, p, rest) \<and>
    map_of hs ''Connection'' = Some (if ka then ''keep-alive'' else ''close'') \<and>
    map_of hs ''Content-Length'' = Some (nat_to_string (length p))"
proof -
  obtain head body p where h: "handleRequest J \<sigma> reg junk request ka sc w =
      \<lparr>h_exc = None, h_close = \<not> ka, h_head = head, h_body = body, h_world = world c\<rparr>"
    "body_payload J (res_body (res c)) = Inr p"
    "read_message (wire (head, body) @ rest) =
      Some (status_line (res c), res_headers (finish_response (\<not> ka) (res c)), p, rest)"
    using handleRequest_framed [OF assms] by blast
  have "length p = body_length (res_body (res c))"
    using payload_length [of J "res_body (res c)"] assms(2) h(2) by (auto simp: framable_def)
  then show ?thesis
    using h finish_headers_map_of [of "\<not> ka" "res c"]
    by (intro exI [of _ "handleRequest J \<sigma> reg junk request ka sc w"]
        exI [of _ "res_headers (finish_response (\<not> ka) (res c))"] exI [of _ p]) simp
qed

definition get_request :: "string \<Rightarrow> string request" where
  "get_request path = (new_request text_json)\<lparr>req_method := ''GET'', req_path := path\<rparr>"

lemma get_request_simps [simp]:
  "req_method (get_request path) = ''GET''" "req_path (get_request path) = path"
  by (simp_all add: get_request_def)

lemma queue_new [simp]: "queue new_registry = []"
  by (simp add: new_registry_def)

lemma resolve_new [simp]: "resolve new_registry m path = None"
  by (simp add: resolve_def)

lemma sample_chain:
  defines "r \<equiv> get_request ''/x''"
  shows "run_chain text_json (\<lambda>r. new_router) new_registry (start_ctx text_json 0 r ()) =
    Ret \<lparr>req = r, res = not_found_response text_json r (not_found_json text_json r), world = ()\<rparr>"
proof -
  show ?thesis
    unfolding run_chain_no_middleware [OF queue_new] by (rule runRoute_not_found) simp_all
qed

lemma sample_status: "status_line (not_found_response J r t) = ''HTTP/1.1 404 Not Found''"
proof -
  have "int_to_string 404 = ''404''" "getResponseMessage 404 = ''Not Found''" by code_simp+
  then show ?thesis by (simp add: status_line_def not_found_response_def)
qed

theorem answer_is_framed_witness:
  "\<exists>h hs p. h = handleRequest text_json (\<lambda>r. new_router) new_registry 0 (get_request ''/x'') True False () \<and>
    h_close h = False \<and>
    read_message (wire (h_head h, h_body h) @ ''HTTP'') =
      Some (''HTTP/1.1 404 Not Found'', hs, p, ''HTTP'') \<and>
    map_of hs ''Connection'' = Some ''keep-alive''"
proof -
  let ?r = "get_request ''/x''"
  let ?c = "\<lparr>req = ?r, res = not_found_response text_json ?r (not_found_json text_json ?r), world = ()\<rparr>"
  have "framable text_json (res ?c)" using framable_not_found [of text_json ?r] by simp
  moreover have "req_method (req ?c) \<noteq> ''HEAD''" by simp
  ultimately show ?thesis
    using answer_is_framed [OF sample_chain, of True False "''HTTP''"] by (auto simp: sample_status)
qed


text \<open>
  A request no route answers gets a 404 whose JSON body names the path and the method, framed
  like every other answer, when no middleware is registered.
\<close>

theorem unrouted_request_gets_404:
  assumes "queue reg = []" and "resolve reg (req_method r) (req_path r) = None"
    and "j_dump J (not_found_json J r) = Inr text" and "req_method r \<noteq> ''HEAD''"
  shows "\<exists>head body hs. handleRequest J \<sigma> reg junk r ka sc w =
      \<lparr>h_exc = None, h_close = \<not> ka, h_head = head, h_body = body, h_world = w\<rparr> \<and>
    read_message (wire (head, body) @ rest) = Some (''HTTP/1.1 404 Not Found'', hs, text, rest)"
proof -
  let ?c = "\<lparr>req = r, res = not_found_response J r text, world = w\<rparr>"
  have chain: "run_chain J \<sigma> reg (start_ctx J junk r w) = Ret ?c"
    using runRoute_not_found [OF assms(2,3)] by (simp add: run_chain_no_middleware [OF assms(1)])
  have "body_payload J (res_body (res ?c)) = Inr text"
    using assms(3) by (simp add: not_found_response_def body_payload_def)
  then show ?thesis
    using handleRequest_framed [OF chain, of ka sc rest] framable_not_found [OF assms(3)] assms(4)
    by (auto simp: sample_status)
qed

theorem unrouted_request_gets_404_witness:
  "\<exists>head body hs. handleRequest text_json (\<lambda>r. new_router) new_registry 0 (get_request ''/x'') False False () =
      \<lparr>h_exc = None, h_close = \<not> False, h_head = head, h_body = body, h_world = ()\<rparr> \<and>
    read_message (wire (head, body) @ []) =
      Some (''HTTP/1.1 404 Not Found'', hs, not_found_json text_json (get_request ''/x''), [])"
  by (rule unrouted_request_gets_404) simp_all

text \<open>
  A read that carries complete requests writes their answers in the order of the requests,
  each made from the state the previous one left, and closes the connection exactly when the last
  request does not keep it alive.
\<close>

theorem pipelined_answers_in_order:
  assumes "ll_execute L (lex p) data = (concat (map msg_events ms), l, HPE_OK, reason)"
    and "at_start (impl p)" and "\<forall>m \<in> set ms. msg_ok (limit (impl p)) m"
    and "map (request_of J) ms = map Inr rs"
    and "answers J \<sigma> reg junk 0 (zip rs (map m_keep ms)) False w = Some (ws, cl, w')"
  shows "\<exists>p1. read_data J L \<sigma> reg junk data p w =
      Inr (p1, \<lparr>io_world = w', io_close = cl, io_writes = ws\<rparr>) \<and> at_start (impl p1) \<and>
    length ws = length ms \<and> (ms \<noteq> [] \<longrightarrow> cl = (\<not> m_keep (last ms)))"
proof -
  have len: "length rs = length ms" using assms(4) by (metis length_map)
  have "serve_msgs J (on_request J \<sigma> reg junk) ms \<lparr>io_world = w, io_close = False, io_writes = []\<rparr> =
      (True, \<lparr>io_world = w', io_close = cl, io_writes = [] @ ws\<rparr>)"
    using assms(4,5) by (intro serve_msgs_answers [where rs = rs]) simp_all
  from read_data_msgs [OF assms(1-3) this]
  obtain p1 where "read_data J L \<sigma> reg junk data p w =
      Inr (p1, \<lparr>io_world = w', io_close = cl, io_writes = ws\<rparr>)" "at_start (impl p1)" by auto
  moreover have "length ws = length ms \<and> (ms \<noteq> [] \<longrightarrow> cl = (\<not> m_keep (last ms)))"
    using answers_length [OF assms(5)] len by (auto simp: last_map last_zip)
  ultimately show ?thesis by blast
qed

lemma sample_exc:
  assumes "req_method r \<noteq> ''HEAD''"
  shows "h_exc (handleRequest text_json \<sigma> new_registry j r ka cl w) = None"
proof -
  let ?c = "\<lparr>req = r, res = not_found_response text_json r (not_found_json text_json r), world = w\<rparr>"
  have chain: "run_chain text_json \<sigma> new_registry (start_ctx text_json j r w) = Ret ?c"
    unfolding run_chain_no_middleware [OF queue_new] by (rule runRoute_not_found) simp_all
  have "framable text_json (res ?c)" using framable_not_found [of text_json r] by simp
  moreover have "req_method (req ?c) \<noteq> ''HEAD''" using assms by simp
  ultimately show ?thesis using handleRequest_framed [OF chain, of ka cl "[]"] by auto
qed

lemma sample_requests:
  "request_of text_json (get_msg tgt keep) =
     Inr (applyTarget (concat tgt) ((new_request text_json)\<lparr>req_method := ''GET'',
       req_protocol := ''HTTP/1.1'', req_headers := [(''Host'', ''h'')]\<rparr>))"
proof -
  have "''HTTP/'' @ nat_to_string 1 @ ''.'' @ nat_to_string 1 = ''HTTP/1.1''" by code_simp
  then show ?thesis by (simp add: request_of_def build_request_def get_msg_def join_headers_def smap_of_def)
qed

theorem pipelined_answers_in_order_witness:
  "\<exists>p1 ws. read_data text_json two_ll (\<lambda>r. new_router) new_registry (\<lambda>n. 0) ''...''
      (new_parser two_ll kMaxHeaderBytes) () =
    Inr (p1, \<lparr>io_world = (), io_close = True, io_writes = ws\<rparr>) \<and> length ws = 2"
proof -
  let ?r = "\<lambda>t. applyTarget t ((new_request text_json)\<lparr>req_method := ''GET'',
       req_protocol := ''HTTP/1.1'', req_headers := [(''Host'', ''h'')]\<rparr>)"
  let ?p = "new_parser two_ll kMaxHeaderBytes"
  have keeps: "map m_keep two_msgs = [True, False]" by (simp add: two_msgs_def get_msg_def)
  obtain ws cl where ws: "answers text_json (\<lambda>r. new_router) new_registry (\<lambda>n. 0) 0
      (zip [?r ''/a'', ?r ''/b''] (map m_keep two_msgs)) False () = Some (ws, cl, ())"
    by (auto simp: keeps Let_def sample_exc)
  have "\<exists>p1. read_data text_json two_ll (\<lambda>r. new_router) new_registry (\<lambda>n. 0) ''...'' ?p () =
      Inr (p1, \<lparr>io_world = (), io_close = cl, io_writes = ws\<rparr>) \<and> at_start (impl p1) \<and>
      length ws = length two_msgs \<and> (two_msgs \<noteq> [] \<longrightarrow> cl = (\<not> m_keep (last two_msgs)))"
  proof (rule pipelined_answers_in_order [OF _ _ _ _ ws])
    show "map (request_of text_json) two_msgs = map Inr [?r ''/a'', ?r ''/b'']"
      by (simp add: two_msgs_def sample_requests)
    show "\<forall>m \<in> set two_msgs. msg_ok (limit (impl ?p)) m"
      by (simp add: two_msgs_def new_parser_def get_msg_ok)
    show "ll_execute two_ll (lex ?p) ''...'' = (concat (map msg_events two_msgs), (), HPE_OK, [])"
      by (simp add: two_ll_def script_ll_def)
    show "at_start (impl ?p)" by (simp add: new_parser_def)
  qed
  then show ?thesis by (auto simp: two_msgs_def get_msg_def)
qed

text \<open>
  The stream of a pipeline is readable: when a read carries complete requests whose chains
  return framable responses, a client reads off the bytes written exactly one message per request,
  in order, with the status line and the body each chain produced, and nothing else.
\<close>

theorem pipelined_stream_readable:
  assumes "ll_execute L (lex p) data = (concat (map msg_events ms), l, HPE_OK, reason)"
    and "at_start (impl p)" and "\<forall>m \<in> set ms. msg_ok (limit (impl p)) m"
    and "map (request_of J) ms = map Inr rs"
    and "chain_results J \<sigma> reg junk 0 rs w = Some cs" and "list_all (answerable J) cs"
  shows "\<exists>p1 io. read_data J L \<sigma> reg junk data p w = Inr (p1, io) \<and>
    read_stream (length ms) (concat (map wire (io_writes io)) @ rest) =
      Some (map (answer_of J) cs, rest)"
proof -
  have len: "length rs = length ms" using assms(4) by (metis length_map)
  then obtain ws cl w' where ws: "answers J \<sigma> reg junk 0 (zip rs (map m_keep ms)) False w = Some (ws, cl, w')"
    "read_stream (length rs) (concat (map wire ws) @ rest) = Some (map (answer_of J) cs, rest)"
    using answers_stream [OF assms(5,6), of "map m_keep ms" False rest] by auto
  have "serve_msgs J (on_request J \<sigma> reg junk) ms \<lparr>io_world = w, io_close = False, io_writes = []\<rparr> =
      (True, \<lparr>io_world = w', io_close = cl, io_writes = [] @ ws\<rparr>)"
    using assms(4) ws(1) by (intro serve_msgs_answers [where rs = rs]) simp_all
  from read_data_msgs [OF assms(1-3) this] ws(2) len show ?thesis by auto
qed

theorem pipelined_stream_readable_witness:
  "\<exists>p1 io b1 b2. read_data text_json two_ll (\<lambda>r. new_router) new_registry (\<lambda>n. 0) ''...''
      (new_parser two_ll kMaxHeaderBytes) () = Inr (p1, io) \<and>
    read_stream 2 (concat (map wire (io_writes io)) @ []) =
      Some ([(''HTTP/1.1 404 Not Found'', b1), (''HTTP/1.1 404 Not Found'', b2)], [])"
proof -
  let ?r = "\<lambda>t. applyTarget t ((new_request text_json)\<lparr>req_method := ''GET'',
       req_protocol := ''HTTP/1.1'', req_headers := [(''Host'', ''h'')]\<rparr>)"
  let ?p = "new_parser two_ll kMaxHeaderBytes"
  let ?c = "\<lambda>t. \<lparr>req = ?r t, res = not_found_response text_json (?r t) (not_found_json text_json (?r t)),
       world = ()\<rparr>"
  have chain: "run_chain text_json (\<lambda>r. new_router) new_registry (start_ctx text_json 0 r ()) =
      Ret \<lparr>req = r, res = not_found_response text_json r (not_found_json text_json r), world = ()\<rparr>" for r
    unfolding run_chain_no_middleware [OF queue_new] by (rule runRoute_not_found) simp_all
  have results: "chain_results text_json (\<lambda>r. new_router) new_registry (\<lambda>n. 0) 0 [?r ''/a'', ?r ''/b''] () =
      Some [?c ''/a'', ?c ''/b'']"
    by (simp add: chain)
  have ok: "list_all (answerable text_json) [?c ''/a'', ?c ''/b'']"
    using framable_not_found [of text_json] by (simp add: answerable_def)
  have "\<exists>p1 io. read_data text_json two_ll (\<lambda>r. new_router) new_registry (\<lambda>n. 0) ''...'' ?p () = Inr (p1, io) \<and>
    read_stream (length two_msgs) (concat (map wire (io_writes io)) @ []) =
      Some (map (answer_of text_json) [?c ''/a'', ?c ''/b''], [])"
  proof (rule pipelined_stream_readable [OF _ _ _ _ results ok])
    show "map (request_of text_json) two_msgs = map Inr [?r ''/a'', ?r ''/b'']"
      by (simp add: two_msgs_def sample_requests)
    show "\<forall>m \<in> set two_msgs. msg_ok (limit (impl ?p)) m"
      by (simp add: two_msgs_def new_parser_def get_msg_ok)
    show "ll_execute two_ll (lex ?p) ''...'' = (concat (map msg_events two_msgs), (), HPE_OK, [])"
      by (simp add: two_ll_def script_ll_def)
    show "at_start (impl ?p)" by (simp add: new_parser_def)
  qed
  moreover have "length two_msgs = 2" by (simp add: two_msgs_def)
  ultimately show ?thesis by (auto simp: answer_of_def sample_status)
qed

text \<open>
  C26: What the parser rejects is answered, behind the answers already due, with a well-framed
  error that announces the close, and the connection is closed.
\<close>

theorem rejected_read_is_answered:
  assumes "execute J L (on_request J \<sigma> reg junk) data p
      \<lparr>io_world = w, io_close = False, io_writes = []\<rparr> = (False, p1, s1)"
    and "\<not> escaping (impl p1)"
    and "\<forall>s \<in> {400, 431}. \<exists>text. j_dump J (error_json J s) = Inr text \<and> length text \<le> SIZE_MAX"
  shows "\<exists>t text hs. read_data J L \<sigma> reg junk data p w =
      Inr (p1, s1\<lparr>io_writes := io_writes s1 @ [(t, [])], io_close := True\<rparr>) \<and>
    read_message t = Some (''HTTP/1.1 '' @ int_to_string (errorStatus p1) @ '' '' @
      getResponseMessage (errorStatus p1), hs, text, []) \<and>
    map_of hs ''Connection'' = Some ''close'' \<and> errorStatus p1 \<in> {400, 431}"
proof -
  have s: "errorStatus p1 = 400 \<or> errorStatus p1 = 431"
    using assms(1,2) by (auto simp: execute_def Let_def split: prod.splits if_splits)
  then obtain b where b: "j_dump J (error_json J (errorStatus p1)) = Inr b" "length b \<le> SIZE_MAX"
    using assms(3) by auto
  obtain t where "errorResponse J (junk (length (io_writes s1))) (errorStatus p1) = Inr t"
    "read_message t = Some (''HTTP/1.1 '' @ int_to_string (errorStatus p1) @ '' '' @
      getResponseMessage (errorStatus p1),
      [(''Connection'', ''close''), (''Content-Length'', nat_to_string (length b)),
       (''Content-Type'', ''application/json'')], b, [])"
    using read_message_error [OF s b] by blast
  with s assms(1,2) show ?thesis by (auto simp: read_data_def)
qed

lemma sample_errors: "length (error_json text_json 400) \<le> SIZE_MAX" "length (error_json text_json 431) \<le> SIZE_MAX"
proof -
  have "getResponseMessage 400 = ''Bad Request''"
    "getResponseMessage 431 = ''Request Header Fields Too Large''" by code_simp+
  then show "length (error_json text_json 400) \<le> SIZE_MAX" "length (error_json text_json 431) \<le> SIZE_MAX"
    by (simp_all add: error_json_def SIZE_MAX_def)
qed

theorem rejected_read_is_answered_witness:
  "\<exists>p1 s1 t b hs. read_data text_json url_ll (\<lambda>r. new_router) new_registry (\<lambda>n. 0) ''/ab''
      (new_parser url_ll 2) () = Inr (p1, s1) \<and> io_writes s1 = [(t, [])] \<and> io_close s1 \<and>
    read_message t = Some (''HTTP/1.1 '' @ int_to_string 431 @ '' '' @ getResponseMessage 431, hs, b, [])"
proof -
  let ?h = "on_request text_json (\<lambda>r. new_router) new_registry (\<lambda>n. 0)"
  let ?s = "\<lparr>io_world = (), io_close = False, io_writes = []\<rparr>"
  obtain p1 where p1: "execute text_json url_ll ?h ''/ab'' (new_parser url_ll 2) ?s = (False, p1, ?s)"
    "errorStatus p1 = 431" "\<not> escaping (impl p1)"
    by (simp add: execute_def url_ll_def new_parser_def new_impl_def onUrl_def charge_def size_of_def Let_def)
  from rejected_read_is_answered [OF p1(1,3)] sample_errors p1(2) show ?thesis by auto
qed

text \<open>
  A handler that throws a \<open>std::exception\<close> costs the client its connection: the request is answered
  as a bad request, with status 400, and the connection is closed.
\<close>

theorem throwing_handler_is_answered_400:
  assumes "ll_execute L (lex p) data = (msg_events m, l, HPE_OK, reason)"
    and "at_start (impl p)" and "msg_ok (limit (impl p)) m" and "request_of J m = Inr r"
    and "h_exc (handleRequest J \<sigma> reg (junk 0) r (m_keep m) False w) = Some (Std what)"
    and "errorResponse J (junk 0) 400 = Inr t"
  shows "\<exists>p1 io. read_data J L \<sigma> reg junk data p w = Inr (p1, io) \<and>
    io_writes io = [(t, [])] \<and> io_close io \<and> errorStatus p1 = 400"
proof -
  let ?h = "on_request J \<sigma> reg junk" and ?s = "\<lparr>io_world = w, io_close = False, io_writes = []\<rparr>"
  obtain i1 where i1: "run_events J ?h (msg_events m) (cleared (impl p)) ?s =
      (fst (serve_msg J ?h m ?s), i1, snd (serve_msg J ?h m ?s))" and flags: "\<not> headerLimitHit i1" "escaping i1 = lets_escape J ?h m ?s"
    using run_msg [of "cleared (impl p)" m J ?h ?s] at_start_cleared [OF assms(2)] assms(3) by auto
  have serve: "\<not> fst (serve_msg J ?h m ?s)" "io_writes (snd (serve_msg J ?h m ?s)) = []"
    using assms(4,5) by (simp_all add: serve_msg_def on_request_def Let_def)
  have "\<not> lets_escape J ?h m ?s"
    using assms(4,5) by (simp add: lets_escape_def on_request_def Let_def)
  with serve flags assms(6) show ?thesis
    unfolding read_data_def execute_eq [OF assms(1) i1] by simp
qed

theorem throwing_handler_is_answered_400_witness:
  "\<exists>p1 io t. read_data text_json (script_ll (msg_events (get_msg [''/a''] True))) (\<lambda>r. new_router)
      (Register new_registry ''GET'' ''/a'' (Some (Exc (Std ''boom'')))) (\<lambda>n. 0) ''...''
      (new_parser (script_ll (msg_events (get_msg [''/a''] True))) kMaxHeaderBytes) () = Inr (p1, io) \<and>
    io_writes io = [(t, [])] \<and> io_close io \<and> errorStatus p1 = 400"
proof -
  let ?m = "get_msg [''/a''] True"
  let ?L = "script_ll (msg_events ?m)"
  let ?reg = "Register new_registry ''GET'' ''/a'' (Some (Exc (Std ''boom''))) :: (string, unit) registry"
  obtain r where r: "request_of text_json ?m = Inr r" "req_method r = ''GET''" "req_path r = ''/a''"
    by (simp add: sample_requests applyTarget_def strip_authority_def str_find_def)
  have "resolve ?reg ''GET'' ''/a'' = Some (Exc (Std ''boom''))"
    by (rule resolve_literal_route [of _ "''/a''"]) (simp_all add: literal_path_def segment_eval)
  then have exc: "h_exc (handleRequest text_json (\<lambda>r. new_router) ?reg 0 r (m_keep ?m) False ()) = Some (Std ''boom'')"
    using r by (simp add: handleRequest_def run_chain_no_middleware runRoute_found start_ctx_def)
  obtain t where "errorResponse text_json 0 400 = Inr t"
    using errorResponse_text [of text_json 400 "error_json text_json 400" 0] sample_errors by auto
  then show ?thesis
    using throwing_handler_is_answered_400 [of ?L "new_parser ?L kMaxHeaderBytes" "''...''" ?m "()" "[]"
        text_json r "\<lambda>r. new_router" ?reg "\<lambda>n. 0" "()" "''boom''" t] r exc get_msg_ok [of "[''/a'']" True]
    by (auto simp: script_ll_def new_parser_def)
qed

end
