(* ===== verification/Framing.thy ===== *)
theory Framing
  imports Http_Server
begin

text \<open>
  Responses built by the \<open>send\<close> overloads can be framed: what a handler that only uses \<open>status\<close>,
  \<open>setHeader\<close> with safe values and \<open>send\<close> leaves behind satisfies the hypotheses of the framing
  theorems, whatever text, JSON value or file it sends.
\<close>

section \<open>Headers\<close>

definition headers_safe :: "'j response \<Rightarrow> bool" where
  "headers_safe r \<longleftrightarrow> line_safe (res_protocol r) \<and> (\<forall>kv \<in> set (res_headers r). header_safe kv)"

lemma headers_safe_setHeader [intro]:
  "headers_safe r \<Longrightarrow> header_safe (k, v) \<Longrightarrow> headers_safe (setHeader k v r)"
  unfolding headers_safe_def setHeader_simps using header_safe_set [of k v "res_headers r"] by simp

lemma header_safe_length [simp]: "header_safe (''Content-Length'', nat_to_string n)"
  by (simp add: header_safe_def) (simp add: line_safe_def)

lemma headers_safe_length [simp]: "headers_safe r \<Longrightarrow> headers_safe (set_content_length r)"
  unfolding set_content_length_def by (rule headers_safe_setHeader) simp_all

lemma headers_safe_status [simp]:
  "headers_safe (set_status s r) = headers_safe r" "headers_safe (r\<lparr>res_body := b\<rparr>) = headers_safe r"
  by (simp_all add: headers_safe_def set_status_def)

lemma headers_safe_new [simp]: "headers_safe ((new_response J junk)\<lparr>res_protocol := ''HTTP/1.1''\<rparr>)"
  by (simp add: headers_safe_def new_response_def line_safe_def)

lemma header_safe_types [simp]:
  "header_safe (''Content-Type'', ''text/html; charset=utf-8'')"
  "header_safe (''Content-Type'', ''application/json'')"
  "header_safe (''Content-Type'', ''application/octet-stream'')"
  by (simp_all add: header_safe_def line_safe_def)

lemma framable_iff:
  "framable J r \<longleftrightarrow> body_ok J (res_body r) \<and> written_type (body_type (res_body r)) \<and> headers_safe r"
  by (auto simp: framable_def headers_safe_def)

section \<open>The send overloads\<close>

lemma headers_safe_send:
  "headers_safe r \<Longrightarrow> headers_safe (send_text t r)" "headers_safe r \<Longrightarrow> headers_safe (send_cstr t r)"
  "headers_safe r \<Longrightarrow> headers_safe (send_binary d r)"
  by (auto simp: send_text_def send_cstr_def send_binary_def intro!: headers_safe_length)

lemma send_bodies [simp]:
  "res_body (send_text t r) = setText t (res_body r)"
  "res_body (send_cstr t r) = setText (c_str t) (res_body r)"
  "res_body (send_binary d r) = setBinary d (res_body r)"
  by (simp_all add: send_text_def send_cstr_def send_binary_def)

lemma send_status [simp]:
  "status (send_text t r) = status r" "status (send_cstr t r) = status r" "status (send_binary d r) = status r"
  "res_protocol (send_text t r) = res_protocol r" "res_protocol (send_cstr t r) = res_protocol r"
  "res_protocol (send_binary d r) = res_protocol r"
  by (simp_all add: send_text_def send_cstr_def send_binary_def)

lemma send_other_headers [simp]:
  "k \<noteq> ''Content-Type'' \<Longrightarrow> k \<noteq> ''Content-Length'' \<Longrightarrow>
     smap_get (res_headers (send_text t r)) k = smap_get (res_headers r) k"
  "k \<noteq> ''Content-Type'' \<Longrightarrow> k \<noteq> ''Content-Length'' \<Longrightarrow>
     smap_get (res_headers (send_cstr t r)) k = smap_get (res_headers r) k"
  "k \<noteq> ''Content-Type'' \<Longrightarrow> k \<noteq> ''Content-Length'' \<Longrightarrow>
     smap_get (res_headers (send_binary d r)) k = smap_get (res_headers r) k"
  by (simp_all add: send_text_def send_cstr_def send_binary_def)

lemma framable_send:
  "headers_safe r \<Longrightarrow> framable J (send_text t r)" "headers_safe r \<Longrightarrow> framable J (send_cstr t r)"
  "headers_safe r \<Longrightarrow> framable J (send_binary d r)"
  by (simp_all add: framable_iff headers_safe_send written_type_def)
    (simp_all add: setText_def setBinary_def)

text \<open>\<open>send(json)\<close> either throws what \<open>dump\<close> throws, or leaves a framable response with that text.\<close>

lemma send_json_dump:
  assumes "j_dump J j = Inr text"
  shows "\<exists>r'. send_json J j r = (None, r') \<and> status r' = status r \<and> res_protocol r' = res_protocol r \<and>
    body_payload J (res_body r') = Inr text \<and> (headers_safe r \<longrightarrow> framable J r') \<and>
    (\<forall>k. k \<noteq> ''Content-Type'' \<longrightarrow> k \<noteq> ''Content-Length'' \<longrightarrow>
       smap_get (res_headers r') k = smap_get (res_headers r) k)"
proof -
  let ?b = "(res_body r)\<lparr>body_type := JSON, json_data := j, raw_data := text\<rparr>"
  let ?r = "set_content_length (setHeader ''Content-Type'' ''application/json'' (r\<lparr>res_body := ?b\<rparr>))"
  have "send_json J j r = (None, ?r)" using assms by (simp add: send_json_def setJson_def)
  moreover have "headers_safe r \<longrightarrow> framable J ?r"
    using assms
    by (auto simp: framable_iff written_type_def body_ok_def intro!: headers_safe_length headers_safe_setHeader)
  ultimately show ?thesis using assms by (simp add: body_payload_def)
qed

lemma payload_setText [simp]: "body_payload J (setText t b) = Inr t"
  by (simp add: body_payload_def setText_def)

lemma payload_setBinary [simp]: "body_payload J (setBinary d b) = Inr (map char_of_byte d)"
  by (simp add: body_payload_def setBinary_def)

section \<open>Status lines\<close>

lemma status_lines:
  "status r = 200 \<Longrightarrow> res_protocol r = ''HTTP/1.1'' \<Longrightarrow> status_line r = ''HTTP/1.1 200 OK''"
  "status r = 401 \<Longrightarrow> res_protocol r = ''HTTP/1.1'' \<Longrightarrow> status_line r = ''HTTP/1.1 401 Unauthorized''"
  "status r = 404 \<Longrightarrow> res_protocol r = ''HTTP/1.1'' \<Longrightarrow> status_line r = ''HTTP/1.1 404 Not Found''"
proof -
  have "int_to_string 200 = ''200''" "getResponseMessage 200 = ''OK''"
    "int_to_string 401 = ''401''" "getResponseMessage 401 = ''Unauthorized''"
    "int_to_string 404 = ''404''" "getResponseMessage 404 = ''Not Found''" by code_simp+
  then show "status r = 200 \<Longrightarrow> res_protocol r = ''HTTP/1.1'' \<Longrightarrow> status_line r = ''HTTP/1.1 200 OK''"
    "status r = 401 \<Longrightarrow> res_protocol r = ''HTTP/1.1'' \<Longrightarrow> status_line r = ''HTTP/1.1 401 Unauthorized''"
    "status r = 404 \<Longrightarrow> res_protocol r = ''HTTP/1.1'' \<Longrightarrow> status_line r = ''HTTP/1.1 404 Not Found''"
    by (simp_all add: status_line_def)
qed

section \<open>From a context to what the client reads\<close>

text \<open>
  What a client reads when the chain leaves a framable response behind: the status line, the body,
  and any header the server does not set itself.
\<close>

lemma client_reads:
  assumes "run_chain J \<sigma> reg (start_ctx J junk r w) = Ret c" and "framable J (res c)"
    and "req_method (req c) \<noteq> ''HEAD''" and "body_payload J (res_body (res c)) = Inr p"
  shows "\<exists>head body hs. handleRequest J \<sigma> reg junk r ka sc w =
      \<lparr>h_exc = None, h_close = \<not> ka, h_head = head, h_body = body, h_world = world c\<rparr> \<and>
    read_message (wire (head, body) @ rest) = Some (status_line (res c), hs, p, rest) \<and>
    (\<forall>k. k \<noteq> ''Connection'' \<longrightarrow> k \<noteq> ''Content-Length'' \<longrightarrow> map_of hs k = smap_get (res_headers (res c)) k)"
proof -
  obtain head body p' where h: "handleRequest J \<sigma> reg junk r ka sc w =
      \<lparr>h_exc = None, h_close = \<not> ka, h_head = head, h_body = body, h_world = world c\<rparr>"
    "body_payload J (res_body (res c)) = Inr p'"
    "read_message (wire (head, body) @ rest) =
      Some (status_line (res c), res_headers (finish_response (\<not> ka) (res c)), p', rest)"
    using handleRequest_framed [OF assms(1-3)] by blast
  have "map_of (res_headers (finish_response (\<not> ka) (res c))) k = smap_get (res_headers (res c)) k"
    if "k \<noteq> ''Connection''" "k \<noteq> ''Content-Length''" for k
    using that unfolding smap_get_def [symmetric] by (simp add: finish_response_def)
  with h assms(4) show ?thesis by auto
qed

section \<open>Headers that end the head\<close>

lemma smap_set_split:
  "smap_ok m \<Longrightarrow> smap_set k v m = filter (\<lambda>kv. fst kv < k) m @ (k, v) # filter (\<lambda>kv. k < fst kv) m"
proof (induction k v m rule: smap_set.induct)
  case (2 k v k' v' m)
  then have above: "\<forall>kv \<in> set m. k' < fst kv" and ok: "smap_ok m" by (auto simp: smap_ok_Cons)
  consider "k < k'" | "k = k'" | "k' < k" by fastforce
  then show ?case
  proof cases
    case 1
    then have "filter (\<lambda>kv. fst kv < k) m = []" "filter (\<lambda>kv. k < fst kv) m = m"
      using above by (force simp: filter_empty_conv filter_id_conv)+
    with 1 show ?thesis by simp
  next
    case 2
    then have "filter (\<lambda>kv. fst kv < k) m = []" "filter (\<lambda>kv. k < fst kv) m = m"
      using above by (force simp: filter_empty_conv filter_id_conv)+
    with 2 show ?thesis by simp
  next
    case 3
    with 2 ok show ?thesis by auto
  qed
qed simp

text \<open>
  C40: \<open>setHeader\<close> does not look at what it is given: a value with a blank line in it ends the head.
  Whoever chooses the part of the value behind the blank line chooses what a client takes for the
  body, and the headers that sort behind this one, the length among them, are lost.
\<close>

theorem header_value_ends_head:
  assumes "smap_ok (res_headers r)" and "\<forall>kv \<in> set (res_headers r). header_safe kv" and "header_safe (k, v)"
    and "line_safe (res_protocol r)"
    and "serialize J (setHeader k (v @ CRLF @ CRLF @ x) r) n includeBody = Inr (head, body)"
  shows "\<exists>more. read_head (wire (head, body)) =
    Some (status_line r, filter (\<lambda>kv. fst kv < k) (res_headers r) @ [(k, v)], x @ more)"
proof -
  let ?r = "setHeader k (v @ CRLF @ CRLF @ x) r"
  let ?hs = "filter (\<lambda>kv. fst kv < k) (res_headers r) @ [(k, v)]"
  let ?after = "filter (\<lambda>kv. k < fst kv) (res_headers r)"
  obtain sink where sink: "wire (head, body) = head_text ?r @ sink"
    using assms(5) by (auto simp: serialize_def wire_def Let_def split: if_splits sum.splits)
  have line: "status_line ?r = status_line r" "line_safe (status_line r)"
    using assms(4) by (simp add: setHeader_def status_line_def) (simp add: assms(4))
  have "res_headers ?r = filter (\<lambda>kv. fst kv < k) (res_headers r) @ (k, v @ CRLF @ CRLF @ x) # ?after"
    using smap_set_split [OF assms(1)] by (simp add: setHeader_def)
  then have "head_text ?r @ sink = status_line r @ CRLF @
      (concat (map header_line ?hs) @ CRLF @ x @ CRLF @ concat (map header_line ?after) @ CRLF @ sink)"
    by (simp add: head_text_def line header_line_def)
  moreover have "\<forall>kv \<in> set ?hs. header_safe kv" using assms(2,3) by auto
  ultimately show ?thesis
    unfolding sink read_head_def using line(2) read_headers_back [of ?hs] by simp
qed

theorem header_value_ends_head_witness:
  "\<exists>head body more.
    serialize text_json (setHeader ''Location'' (''/'' @ CRLF @ CRLF @ ''<script>'') hello_response) 3 True = Inr (head, body) \<and>
    read_head (wire (head, body)) =
      Some (status_line hello_response, [(''Content-Length'', ''5''), (''Content-Type'', ''text/html; charset=utf-8''),
        (''Location'', ''/'')], ''<script>'' @ more)"
proof -
  let ?r = "setHeader ''Location'' (''/'' @ CRLF @ CRLF @ ''<script>'') hello_response"
  obtain head body where ser: "serialize text_json ?r 3 True = Inr (head, body)"
  proof -
    have "body_payload text_json (res_body ?r) = Inr ''hello''"
      by (simp add: body_payload_def setHeader_def hello_response_eq setText_def)
    then have "\<exists>hb. serialize text_json ?r 3 True = Inr hb" unfolding serialize_def Let_def by (simp del: setHeader_simps)
    with that show ?thesis by auto
  qed
  have "filter (\<lambda>kv. fst kv < ''Location'') (res_headers hello_response) =
      [(''Content-Length'', ''5''), (''Content-Type'', ''text/html; charset=utf-8'')]"
    by (simp add: hello_response_eq)
  moreover have "smap_ok (res_headers hello_response)" "line_safe (res_protocol hello_response)"
    "\<forall>kv \<in> set (res_headers hello_response). header_safe kv" "header_safe (''Location'', ''/'')"
    by (simp_all add: hello_response_eq smap_ok_def header_safe_def line_safe_def)
  ultimately show ?thesis using header_value_ends_head [OF _ _ _ _ ser] ser by auto
qed

section \<open>Header names are compared as they are written\<close>

text \<open>The values a client finds under a field name, which HTTP compares without regard to case.\<close>

definition field_values :: "string \<Rightarrow> (string \<times> string) list \<Rightarrow> string set" where
  "field_values name hs = {v. \<exists>k. (k, v) \<in> set hs \<and> map tolower k = map tolower name}"

text \<open>
  C23: The server sets the length of an answer under one spelling of the name. A handler that sets it under
  another one, as in \<open>content-length\<close>, does not replace it and is not replaced: the answer goes out with both
  fields, so a client that compares names as HTTP does finds the handler's value beside the true length.
\<close>

theorem length_header_sent_twice:
  assumes "run_chain J \<sigma> reg (start_ctx J junk r w) = Ret c" and "framable J (res c)"
    and "req_method (req c) \<noteq> ''HEAD''"
    and "smap_get (res_headers (res c)) k = Some v"
    and "map tolower k = ''content-length''" and "k \<noteq> ''Content-Length''"
  shows "\<exists>h hs p. h = handleRequest J \<sigma> reg junk r ka sc w \<and>
    read_message (wire (h_head h, h_body h) @ rest) = Some (status_line (res c), hs, p, rest) \<and>
    {v, nat_to_string (length p)} \<subseteq> field_values ''Content-Length'' hs"
proof -
  let ?hs = "res_headers (finish_response (\<not> ka) (res c))"
  obtain head body p where h: "handleRequest J \<sigma> reg junk r ka sc w =
      \<lparr>h_exc = None, h_close = \<not> ka, h_head = head, h_body = body, h_world = world c\<rparr>"
    "body_payload J (res_body (res c)) = Inr p"
    "read_message (wire (head, body) @ rest) = Some (status_line (res c), ?hs, p, rest)"
    using handleRequest_framed [OF assms(1-3)] by blast
  have "length p = body_length (res_body (res c))"
    using payload_length [of J "res_body (res c)"] assms(2) h(2) by (auto simp: framable_def)
  then have "(''Content-Length'', nat_to_string (length p)) \<in> set ?hs"
    using finish_headers_map_of(2) [of "\<not> ka" "res c"] by (simp add: map_of_SomeD)
  moreover have "map_of ?hs k = Some v"
    using assms(4-6) unfolding smap_get_def [symmetric] by (auto simp: finish_response_def tolower_def)
  then have "(k, v) \<in> set ?hs" by (rule map_of_SomeD)
  moreover have "map tolower ''Content-Length'' = ''content-length''" by code_simp
  ultimately have "{v, nat_to_string (length p)} \<subseteq> field_values ''Content-Length'' ?hs"
    using assms(5) unfolding field_values_def by auto
  with h show ?thesis
    by (intro exI [of _ "handleRequest J \<sigma> reg junk r ka sc w"] exI [of _ ?hs] exI [of _ p]) simp
qed

text \<open>The example: a handler that sets \<open>content-length\<close> to 3 and sends five characters.\<close>

definition spelled_table :: "(string, unit) registry" where
  "spelled_table = GET new_registry ''/x''
     (Some (\<lambda>c. Ret (c\<lparr>res := setHeader ''content-length'' ''3'' (send_text ''hello'' (set_status 200 (res c)))\<rparr>)))"

theorem length_header_sent_twice_witness:
  "\<exists>h hs p. h = handleRequest text_json (\<lambda>r. new_router) spelled_table 0 (get_request ''/x'') True False () \<and>
    read_message (wire (h_head h, h_body h) @ []) = Some (''HTTP/1.1 200 OK'', hs, p, []) \<and>
    {''3'', nat_to_string (length p)} \<subseteq> field_values ''Content-Length'' hs"
proof -
  let ?s = "res (start_ctx text_json 0 (get_request ''/x'') ())"
  let ?r = "setHeader ''content-length'' ''3'' (send_text ''hello'' (set_status 200 ?s))"
  have "resolve spelled_table ''GET'' ''/x'' = Some (\<lambda>c. Ret (c\<lparr>res := setHeader ''content-length'' ''3'' (send_text ''hello'' (set_status 200 (res c)))\<rparr>))"
    unfolding spelled_table_def by (rule resolve_literal_route [of _ "''/x''"]) (simp_all add: GET_def literal_path_def segment_eval)
  then obtain c where c: "run_chain text_json (\<lambda>r. new_router) spelled_table (start_ctx text_json 0 (get_request ''/x'') ()) = Ret c"
    "res c = ?r" "req_method (req c) = ''GET''"
    by (simp add: GET_def run_chain_no_middleware spelled_table_def runRoute_found start_ctx_def)
  have safe: "headers_safe (set_status 200 ?s)" by (simp add: set_status_def start_ctx_def new_response_def headers_safe_def line_safe_def)
  then have "framable text_json (send_text ''hello'' (set_status 200 ?s))" by (rule framable_send)
  moreover have "header_safe (''content-length'', ''3'')" by (simp add: header_safe_def line_safe_def)
  ultimately have f: "framable text_json ?r" by (simp add: framable_iff headers_safe_setHeader)
  have "smap_get (res_headers ?r) ''content-length'' = Some ''3''" by (simp add: setHeader_def)
  moreover have "map tolower ''content-length'' = ''content-length''" by code_simp
  moreover have "status_line (res c) = ''HTTP/1.1 200 OK''"
    unfolding c(2) by (rule status_lines) (simp_all add: set_status_def start_ctx_def new_response_def setHeader_def send_text_def)
  ultimately show ?thesis
    using length_header_sent_twice [OF c(1), of "''content-length''" "''3''" True False "[]"] c f by simp
qed

end
