(* ===== verification/Route_Params.thy ===== *)
theory Route_Params
  imports Registry
begin

text \<open>
  The parameter names of a table with many routes. A place in the trie gets its parameter name from
  the first pattern that passes through it, and keeps it: what a handler finds in \<open>req.params\<close> is
  named by the first route registered through each place of its pattern, which need not be its own.
  A route binds its own names if no earlier pattern has a parameter at the same place, and what a
  route binds does not change when more routes are registered.
\<close>

section \<open>Which places exist\<close>

lemma node_at_insert:
  "(\<forall>s \<in> set ss. s \<noteq> []) \<Longrightarrow>
   node_at (insert_segments n ss h) p \<noteq> None \<longleftrightarrow> node_at n p \<noteq> None \<or> prefix p (map pat_seg ss)"
proof (induction ss arbitrary: n p)
  case Nil
  show ?case by (cases p) simp_all
next
  case (Cons s ss)
  show ?case
  proof (cases p)
    case (Cons q p')
    have new: "node_at (new_node s) p' \<noteq> None \<longleftrightarrow> p' = []" by (cases p') simp_all
    show ?thesis
      using Cons.prems Cons.IH [of _ p'] new
      by (auto simp: Cons child_at_insertChild bind_eq_None_conv split: option.splits)
  qed simp
qed

lemma parameterName_insert_segments [simp]: "parameterName (insert_segments n ss h) = parameterName n"
  using node_tag_insert_segments [of n ss h] by (simp add: node_tag_def)

text \<open>A place that exists keeps its names.\<close>

lemma binds_insert_keeps:
  "node_at n p \<noteq> None \<Longrightarrow> (\<forall>s \<in> set ss. s \<noteq> []) \<Longrightarrow>
   binds (insert_segments n ss h) p vs = binds n p vs"
proof (induction ss arbitrary: n p vs)
  case Nil
  show ?case by (cases p; cases vs) simp_all
next
  case (Cons s ss)
  show ?case
  proof (cases "p = [] \<or> vs = []")
    case True
    then show ?thesis by (cases p; cases vs) auto
  next
    case False
    then obtain q p' v vs' where pv: "p = q # p'" "vs = v # vs'" by (cases p; cases vs) auto
    with Cons.prems(1) obtain c where "child_at n q = Some c" "node_at c p' \<noteq> None"
      by (cases "child_at n q") auto
    with Cons pv show ?thesis by (cases "q = Par") (auto simp: child_at_insertChild)
  qed
qed

text \<open>A pattern that names all its parameter places itself binds its own names.\<close>

definition names_own :: "'h node \<Rightarrow> pattern \<Rightarrow> bool" where
  "names_own n p \<longleftrightarrow> (\<forall>q. prefix (q @ [Par]) p \<longrightarrow> node_at n (q @ [Par]) = None)"

lemma names_own_child:
  "names_own n (x # p) \<Longrightarrow> child_at n x = Some c \<Longrightarrow> names_own c p"
  unfolding names_own_def
proof (intro allI impI)
  fix q
  assume a: "\<forall>q. prefix (q @ [Par]) (x # p) \<longrightarrow> node_at n (q @ [Par]) = None" "child_at n x = Some c"
    "prefix (q @ [Par]) p"
  from a(3) have "prefix ((x # q) @ [Par]) (x # p)" by simp
  with a(1) have "node_at n ((x # q) @ [Par]) = None" by blast
  with a(2) show "node_at c (q @ [Par]) = None" by simp
qed

lemma binds_insert_named:
  "(\<forall>s \<in> set ss. s \<noteq> []) \<Longrightarrow> length vs = length ss \<Longrightarrow> names_own n (map pat_seg ss) \<Longrightarrow>
   binds (insert_segments n ss h) (map pat_seg ss) vs =
     map (\<lambda>(s, v). (tl s, v)) (filter (\<lambda>(s, v). hd s = COLON) (zip ss vs))"
proof (induction ss arbitrary: n vs)
  case Nil
  then show ?case by simp
next
  case (Cons s ss)
  show ?case
  proof (cases "child_at n (pat_seg s)")
    case None
    obtain v vs' where vs: "vs = v # vs'" using Cons.prems(2) by (cases vs) auto
    have "binds (insert_segments (new_node s) ss h) (map pat_seg ss) vs' =
        map (\<lambda>(s, v). (tl s, v)) (filter (\<lambda>(s, v). hd s = COLON) (zip ss vs'))"
      using Cons.prems by (intro binds_insert_fresh) (simp_all add: vs)
    moreover have "(pat_seg s = Par \<and> hd s = COLON \<and> parameterName (new_node s) = tl s) \<or>
        (pat_seg s \<noteq> Par \<and> hd s \<noteq> COLON)"
      using Cons.prems(1) by (simp add: pat_seg_def new_node_def)
    ultimately show ?thesis
      using None Cons.prems(1) by (auto simp: vs child_at_insertChild)
  next
    case (Some c)
    obtain v vs' where vs: "vs = v # vs'" using Cons.prems(2) by (cases vs) auto
    have lit: "hd s \<noteq> COLON"
    proof
      assume "hd s = COLON"
      then have "prefix ([] @ [Par]) (map pat_seg (s # ss))" by (simp add: pat_seg_def)
      with Cons.prems(3) have "node_at n ([] @ [Par]) = None" unfolding names_own_def by blast
      with Some \<open>hd s = COLON\<close> show False by (simp add: pat_seg_def)
    qed
    have "names_own c (map pat_seg ss)" using names_own_child Cons.prems(3) Some by auto
    with Cons.IH [of vs' c] Cons.prems lit Some show ?thesis
      by (simp add: vs child_at_insertChild) (simp add: pat_seg_def)
  qed
qed

section \<open>Registries\<close>

definition place :: "('j, 'w) registry \<Rightarrow> pattern \<Rightarrow> bool" where
  "place reg p \<longleftrightarrow> node_at (root (trie reg)) p \<noteq> None"

lemma route_segments_nonempty: "\<forall>s \<in> set (route_segments m path). s \<noteq> []"
  using split_tokens [of SLASH _ "m @ '':'' @ path"] by (auto simp: route_segments_def)

lemma route_key_map: "route_key m path = map pat_seg (route_segments m path)"
  using pattern_of_split [of "m @ '':'' @ path"]
  by (simp add: route_key_def key_pattern_def route_segments_def)

lemma place_new [simp]: "place new_registry p \<longleftrightarrow> p = []"
  by (cases p) (simp_all add: place_def)

lemma place_Register [simp]:
  "place (Register reg m path h) p \<longleftrightarrow> place reg p \<or> prefix p (route_key m path)"
  using node_at_insert [OF route_segments_nonempty, of "root (trie reg)" m path h p]
  by (simp add: place_def root_Register route_key_map)

lemma place_RegisterMiddleWare [simp]: "place (RegisterMiddleWare reg mw) p \<longleftrightarrow> place reg p"
  by (simp add: place_def RegisterMiddleWare_def)

lemma table_place: "table reg p = Some h \<Longrightarrow> place reg p"
  by (auto simp: table_def trie_routes_def routes_def place_def bind_eq_Some_conv)

definition reg_binds :: "('j, 'w) registry \<Rightarrow> pattern \<Rightarrow> string list \<Rightarrow> (string \<times> string) list" where
  "reg_binds reg p vs = binds (root (trie reg)) p vs"

lemma reg_binds_Register_keeps [simp]:
  "place reg p \<Longrightarrow> reg_binds (Register reg m path h) p vs = reg_binds reg p vs"
  using binds_insert_keeps [OF _ route_segments_nonempty, of "root (trie reg)" p m path h vs]
  by (simp add: place_def reg_binds_def root_Register)

definition own_names :: "('j, 'w) registry \<Rightarrow> pattern \<Rightarrow> bool" where
  "own_names reg p \<longleftrightarrow> (\<forall>q. prefix (q @ [Par]) p \<longrightarrow> \<not> place reg (q @ [Par]))"

lemma own_names_iff: "own_names reg p \<longleftrightarrow> names_own (root (trie reg)) p"
  by (simp add: own_names_def names_own_def place_def)

text \<open>The parameters a pattern with these segments binds on a path with those.\<close>

definition bound_params :: "string list \<Rightarrow> string list \<Rightarrow> (string \<times> string) list" where
  "bound_params ss vs = map (\<lambda>(s, v). (tl s, v)) (filter (\<lambda>(s, v). hd s = COLON) (zip ss vs))"

lemma reg_binds_Register_own:
  assumes "own_names reg (route_key m pat)" and "length vs = length (route_segments m pat)"
  shows "reg_binds (Register reg m pat h) (route_key m pat) vs = bound_params (route_segments m pat) vs"
  using binds_insert_named [OF route_segments_nonempty assms(2), of "root (trie reg)" h] assms(1)
  by (simp add: reg_binds_def root_Register own_names_iff route_key_map bound_params_def)

lemma bindings_best:
  "best (table reg) (route_segments m path) = Some p \<Longrightarrow>
   bindings reg m path = smap_of (reg_binds reg p (route_segments m path))"
  by (simp add: bindings_def reg_binds_def)

lemma best_Register_least:
  assumes "covers (route_key m pat) vs"
    and "\<forall>q. covers q vs \<longrightarrow> q < route_key m pat \<longrightarrow> table reg q = None"
  shows "best (table (Register reg m pat (Some h))) vs = Some (route_key m pat)"
proof -
  let ?f = "table (Register reg m pat (Some h))"
  have "?f (route_key m pat) \<noteq> None" by simp
  then obtain q where q: "best ?f vs = Some q"
    using assms(1) best_None_iff [of ?f vs] by (cases "best ?f vs") auto
  from q have le: "q \<le> route_key m pat" by (rule best_least) (use assms(1) in simp_all)
  from best_SomeD [OF q] have "covers q vs" "?f q \<noteq> None" by (auto simp: candidates_covers)
  with le assms(2) have "q = route_key m pat" by (cases "q = route_key m pat") auto
  with q show ?thesis by simp
qed

lemma serves_with_own_names:
  assumes "covers (route_key m pat) (route_segments m (req_path r))" and "req_method r = m"
    and "\<forall>q. covers q (route_segments m (req_path r)) \<longrightarrow> q < route_key m pat \<longrightarrow> table reg q = None"
    and "own_names reg (route_key m pat)"
  shows "getHandler (Register reg m pat (Some h)) r =
    (Some h, r\<lparr>params := smap_of (bound_params (route_segments m pat) (route_segments m (req_path r)))\<rparr>)"
proof -
  let ?reg = "Register reg m pat (Some h)" and ?vs = "route_segments m (req_path r)"
  have best: "best (table ?reg) ?vs = Some (route_key m pat)"
    using assms(1,3) by (rule best_Register_least)
  have "length ?vs = length (route_segments m pat)"
    using assms(1) by (auto simp: covers_def route_key_map dest: list_all2_lengthD)
  from reg_binds_Register_own [OF assms(4) this, of "Some h"] best
  have "bindings ?reg m (req_path r) = smap_of (bound_params (route_segments m pat) ?vs)"
    by (simp add: bindings_best)
  with best assms(2) show ?thesis by (simp add: getHandler_resolve resolve_def)
qed

section \<open>The name of a place\<close>

definition name_at :: "'h node \<Rightarrow> pattern \<Rightarrow> string" where
  "name_at n q = (case node_at n q of None \<Rightarrow> [] | Some c \<Rightarrow> parameterName c)"

lemma name_at_simps [simp]:
  "name_at n [] = parameterName n"
  "name_at n (x # q) = (case child_at n x of None \<Rightarrow> [] | Some c \<Rightarrow> name_at c q)"
  by (simp_all add: name_at_def split: option.split)

lemma name_at_None: "node_at n q = None \<Longrightarrow> name_at n q = []"
  by (simp add: name_at_def)

text \<open>The parameter places of a pattern, and the bindings when each place has a name.\<close>

definition par_places :: "pattern \<Rightarrow> nat list" where
  "par_places p = filter (\<lambda>i. p ! i = Par) [0..<length p]"

definition named_values :: "(pattern \<Rightarrow> string) \<Rightarrow> pattern \<Rightarrow> string list \<Rightarrow> (string \<times> string) list" where
  "named_values nm p vs = map (\<lambda>i. (nm (take (Suc i) p), vs ! i)) (par_places p)"

lemma par_places_Cons: "par_places (x # p) = (if x = Par then [0] else []) @ map Suc (par_places p)"
proof -
  have "[0..<length (x # p)] = 0 # map Suc [0..<length p]"
    by (simp only: map_Suc_upt list.size upt_conv_Cons) simp
  then show ?thesis by (simp add: par_places_def filter_map comp_def)
qed

lemma binds_names:
  "node_at n p \<noteq> None \<Longrightarrow> length vs = length p \<Longrightarrow> binds n p vs = named_values (name_at n) p vs"
proof (induction p arbitrary: n vs)
  case Nil
  then show ?case by (simp add: named_values_def par_places_def)
next
  case (Cons x p)
  then obtain c v vs' where c: "child_at n x = Some c" "node_at c p \<noteq> None" and vs: "vs = v # vs'"
    "length vs' = length p"
    by (cases "child_at n x"; cases vs) auto
  have "binds c p vs' = map (\<lambda>i. (name_at c (take (Suc i) p), vs' ! i)) (par_places p)"
    using Cons.IH [OF c(2) vs(2)] by (simp add: named_values_def)
  with c(1) vs(1) show ?case by (simp add: named_values_def par_places_Cons comp_def)
qed

lemma parameterName_new: "s \<noteq> [] \<Longrightarrow> hd s = COLON \<Longrightarrow> parameterName (new_node s) = tl s"
  by (simp add: new_node_def)

lemma node_at_new_node: "q \<noteq> [] \<Longrightarrow> node_at (new_node s) q = None"
  by (cases q) simp_all

text \<open>An insertion names the places it creates.\<close>

lemma name_at_insert:
  "(\<forall>s \<in> set ss. s \<noteq> []) \<Longrightarrow> q \<noteq> [] \<Longrightarrow> last q = Par \<Longrightarrow>
   name_at (insert_segments n ss h) q =
     (if node_at n q \<noteq> None then name_at n q
      else if prefix q (map pat_seg ss) then tl (ss ! (length q - 1)) else [])"
proof (induction ss arbitrary: n q)
  case Nil
  then obtain x q' where "q = x # q'" by (cases q) auto
  then show ?case by (simp add: name_at_def split: option.split)
next
  case (Cons s ss)
  then obtain x q' where q: "q = x # q'" by (cases q) auto
  have s: "s \<noteq> []" using Cons.prems(1) by simp
  show ?case
  proof (cases "x = pat_seg s")
    case False
    with s show ?thesis by (auto simp: q child_at_insertChild name_at_None split: option.split)
  next
    case here: True
    let ?c = "case child_at n x of Some c \<Rightarrow> c | None \<Rightarrow> new_node s"
    have child: "child_at (insert_segments n (s # ss) h) x = Some (insert_segments ?c ss h)"
      using s here by (simp add: child_at_insertChild)
    show ?thesis
    proof (cases "q' = []")
      case True
      with Cons.prems(3) q have "x = Par" by simp
      with here have "hd s = COLON" by (simp add: pat_seg_def split: if_splits)
      with True child here s show ?thesis by (simp add: q parameterName_new split: option.split)
    next
      case False
      with Cons.prems(3) q have "last q' = Par" by simp
      with Cons.IH [OF _ False, of ?c] Cons.prems(1)
      have IH: "name_at (insert_segments ?c ss h) q' = (if node_at ?c q' \<noteq> None then name_at ?c q'
          else if prefix q' (map pat_seg ss) then tl (ss ! (length q' - 1)) else [])" by simp
      have len: "length q' - 1 < length q'" "(s # ss) ! length q' = ss ! (length q' - 1)"
        using False by (cases q'; simp)+
      show ?thesis
        using child IH here len False by (cases "child_at n x") (simp_all add: q node_at_new_node)
    qed
  qed
qed

section \<open>Tables as lists of registrations\<close>

type_synonym ('j, 'w) registration = "string \<times> string \<times> ('j, 'w) act option"

definition register_all :: "('j, 'w) registration list \<Rightarrow> ('j, 'w) registry" where
  "register_all regs = fold (\<lambda>(m, pat, h) g. Register g m pat h) regs new_registry"

text \<open>What a table means, without a trie: the last registration of a pattern decides its handler, the
  first registration through a place its name.\<close>

definition registered :: "('j, 'w) registration list \<Rightarrow> pattern \<Rightarrow> ('j, 'w) act option" where
  "registered regs p = Option.bind (map_of (rev (map (\<lambda>(m, pat, h). (route_key m pat, h)) regs)) p) id"

definition first_name :: "('j, 'w) registration list \<Rightarrow> pattern \<Rightarrow> string" where
  "first_name regs q =
     (case find (\<lambda>(m, pat, h). prefix q (route_key m pat)) regs of
        None \<Rightarrow> []
      | Some (m, pat, h) \<Rightarrow> tl (route_segments m pat ! (length q - 1)))"

lemma register_all_simps [simp]:
  "register_all [] = new_registry"
  "register_all (regs @ [(m, pat, h)]) = Register (register_all regs) m pat h"
  by (simp_all add: register_all_def)

lemma table_register_all: "table (register_all regs) p = registered regs p"
proof (induction regs rule: rev_induct)
  case Nil
  show ?case by (simp add: registered_def)
next
  case (snoc x regs)
  then show ?case by (cases x) (simp add: registered_def)
qed

lemma find_snoc: "find P (xs @ [x]) = (case find P xs of Some y \<Rightarrow> Some y | None \<Rightarrow> if P x then Some x else None)"
  by (induction xs) auto

lemma place_register_all:
  "place (register_all regs) q \<longleftrightarrow> q = [] \<or> find (\<lambda>(m, pat, h). prefix q (route_key m pat)) regs \<noteq> None"
proof (induction regs rule: rev_induct)
  case (snoc x regs)
  then show ?case by (cases x) (auto simp: find_snoc split: option.split)
qed simp

lemma name_at_register_all:
  assumes "q \<noteq> []" and "last q = Par"
  shows "name_at (root (trie (register_all regs))) q = first_name regs q"
proof (induction regs rule: rev_induct)
  case Nil
  show ?case using assms(1) by (cases q) (simp_all add: first_name_def new_registry_def new_trie_def)
next
  case (snoc x regs)
  obtain m pat h where x: "x = (m, pat, h)" by (cases x)
  let ?found = "find (\<lambda>(m, pat, h). prefix q (route_key m pat)) regs"
  have old: "node_at (root (trie (register_all regs))) q \<noteq> None \<longleftrightarrow> ?found \<noteq> None"
    using place_register_all [of regs q] assms(1) by (simp add: place_def)
  have "name_at (root (trie (register_all (regs @ [x])))) q =
      (if ?found \<noteq> None then first_name regs q
       else if prefix q (route_key m pat) then tl (route_segments m pat ! (length q - 1)) else [])"
    by (simp only: x register_all_simps root_Register name_at_insert [OF route_segments_nonempty assms]
        old snoc.IH route_key_map [symmetric])
  then show ?case by (cases ?found) (simp_all add: x first_name_def find_snoc)
qed

lemma binds_register_all:
  assumes "place (register_all regs) p" and "length vs = length p"
  shows "binds (root (trie (register_all regs))) p vs = named_values (first_name regs) p vs"
proof -
  have "name_at (root (trie (register_all regs))) (take (Suc i) p) = first_name regs (take (Suc i) p)"
    if "i \<in> set (par_places p)" for i
  proof (rule name_at_register_all)
    have i: "i < length p" "p ! i = Par" using that by (auto simp: par_places_def)
    then show "take (Suc i) p \<noteq> []" by auto
    from i show "last (take (Suc i) p) = Par" by (simp add: take_Suc_conv_app_nth)
  qed
  with binds_names [OF assms(1) [unfolded place_def] assms(2)] show ?thesis
    by (simp add: named_values_def)
qed

section \<open>Properties\<close>

text \<open>
  C25: What a lookup finds in a table of any registrations: the handler registered last for the least
  pattern that covers the path, and in \<open>params\<close>, for each parameter of that pattern, the segment of
  the path at its place, under the name that the first route registered through this place gave it,
  whatever the name in the matched route itself. Without a match the request is untouched.
\<close>

theorem params_in_full_table:
  "getHandler (register_all regs) r =
    (let vs = route_segments (req_method r) (req_path r) in
     case best (registered regs) vs of
       None \<Rightarrow> (None, r)
     | Some p \<Rightarrow> (registered regs p, r\<lparr>params := smap_of (named_values (first_name regs) p vs)\<rparr>))"
proof -
  let ?vs = "route_segments (req_method r) (req_path r)"
  have table: "table (register_all regs) = registered regs" using table_register_all by auto
  show ?thesis
  proof (cases "best (registered regs) ?vs")
    case None
    then show ?thesis by (simp add: getHandler_resolve resolve_def table)
  next
    case (Some p)
    from best_SomeD [OF Some] obtain h where h: "registered regs p = Some h" and "covers p ?vs"
      by (auto simp: candidates_covers)
    then have "length ?vs = length p" by (simp add: covers_def list_all2_lengthD)
    moreover have "place (register_all regs) p" using h table by (simp add: table_place)
    ultimately show ?thesis
      using Some h binds_register_all [of regs p ?vs]
      by (simp add: getHandler_resolve resolve_def bindings_def table)
  qed
qed

text \<open>The example: behind \<open>/users/:id\<close>, the route \<open>/users/:name/x\<close> is handed its value as \<open>id\<close>.\<close>

theorem params_in_full_table_witness:
  "getHandler (register_all [(''GET'', ''/users/:id'', Some Ret), (''GET'', ''/users/:name/x'', Some (Exc Foreign))])
      (plain_request ''GET'' ''/users/7/x'') =
    (Some (Exc Foreign), (plain_request ''GET'' ''/users/7/x'')\<lparr>params := [(''id'', ''7'')]\<rparr>)"
  unfolding params_in_full_table
  by (simp add: segment_eval best_def registered_def named_values_def par_places_def first_name_def smap_of_def
    upt_rec numeral_eq_Suc)

text \<open>
  What a route binds does not change when more routes are registered: as long as the same
  pattern wins, the parameters of a request keep their names and values.
\<close>

theorem params_survive_registrations:
  assumes "best (table reg) (route_segments (req_method r) (req_path r)) = Some p"
    and "best (table (fold (\<lambda>(m, pat, h) g. Register g m pat h) rs reg))
      (route_segments (req_method r) (req_path r)) = Some p"
  shows "params (snd (getHandler (fold (\<lambda>(m, pat, h) g. Register g m pat h) rs reg) r)) =
    params (snd (getHandler reg r))"
proof -
  have keep: "place reg p \<Longrightarrow>
      reg_binds (fold (\<lambda>(m, pat, h) g. Register g m pat h) rs reg) p vs = reg_binds reg p vs" for vs
    by (induction rs arbitrary: reg) auto
  have serve: "params (snd (getHandler g r)) =
      smap_of (reg_binds g p (route_segments (req_method r) (req_path r)))"
    if b: "best (table g) (route_segments (req_method r) (req_path r)) = Some p" for g :: "('a, 'b) registry"
  proof -
    obtain h where "table g p = Some h" using best_SomeD [OF b] by auto
    with b show ?thesis by (simp add: getHandler_resolve resolve_def bindings_best)
  qed
  obtain h where "table reg p = Some h" using best_SomeD [OF assms(1)] by auto
  then have "place reg p" by (rule table_place)
  with keep show ?thesis by (simp add: serve [OF assms(1)] serve [OF assms(2)])
qed

theorem params_survive_registrations_witness:
  "params (snd (getHandler (fold (\<lambda>(m, pat, h) g. Register g m pat h)
      [(''GET'', ''/users/:name/x'', Some Ret)] users_table) (plain_request ''GET'' ''/users/7''))) =
   params (snd (getHandler users_table (plain_request ''GET'' ''/users/7'')))"
  by (rule params_survive_registrations
      [where p = "[Lit ''GET:'', Lit ''users'', Par]"])
    (simp_all add: users_table_def segment_eval best_def)

end
