(* ===== verification/Rest_Api.thy ===== *)
theory Rest_Api
  imports Framing Route_Params
begin

text \<open>
  The example application \<open>examples/rest_api/main.cpp\<close>: its middleware, its handlers and the server
  that \<open>main\<close> builds from them. It is the framework's most complete client in the repository, and
  it guards a part of its routes, so it is where the promises of the middleware chain meet the
  matching rules of the router.
\<close>

section \<open>The world of the application\<close>

text \<open>
  Standard output, the file system, and the clock: the n-th reading of
  \<open>std::chrono::high_resolution_clock\<close>, in nanoseconds.
\<close>

record rest_world =
  stdout :: string
  disk :: "string \<Rightarrow> 8 word list option"
  ticks :: "nat \<Rightarrow> int"
  ticks_read :: nat

definition print_out :: "string \<Rightarrow> ('j, rest_world) ctx \<Rightarrow> ('j, rest_world) ctx" where
  "print_out s c = c\<lparr>world := (world c)\<lparr>stdout := stdout (world c) @ s\<rparr>\<rparr>"

definition clock_now :: "('j, rest_world) ctx \<Rightarrow> int \<times> ('j, rest_world) ctx" where
  "clock_now c =
     (ticks (world c) (ticks_read (world c)),
      c\<lparr>world := (world c)\<lparr>ticks_read := ticks_read (world c) + 1\<rparr>\<rparr>)"

text \<open>\<open>duration_cast<microseconds>\<close> truncates towards zero.\<close>

definition microseconds :: "int \<Rightarrow> int" where
  "microseconds d = (if 0 \<le> d then d div 1000 else - ((- d) div 1000))"

section \<open>Middleware\<close>

definition authMiddleware :: "('j, 'w) mw_fun" where
  "authMiddleware nxt c =
     (let (key, hs) = smap_index ''X-API-Key'' (req_headers (req c));
          c1 = c\<lparr>req := (req c)\<lparr>req_headers := hs\<rparr>\<rparr> in
      if key = ''Bearer token'' then nxt c1
      else Ret (c1\<lparr>res := send_cstr ''Unauthorized'' (set_status 401 (res c1))\<rparr>))"

definition loggingMiddleware :: "('j, rest_world) mw_fun" where
  "loggingMiddleware nxt c =
     nxt (print_out (''[LOG] '' @ req_method (req c) @ '' '' @ req_path (req c) @ NEWLINE) c)"

definition timingMiddleware :: "('j, rest_world) mw_fun" where
  "timingMiddleware nxt c =
     (let (start, c1) = clock_now c in
      and_then (nxt c1)
        (\<lambda>c2. let (stop, c3) = clock_now c2 in
           Ret (print_out (''[TIMING] Request took '' @
             int_to_string (microseconds (stop - start)) @ ''us'' @ NEWLINE) c3)))"

definition headerInjectionMiddleware :: "('j, 'w) mw_fun" where
  "headerInjectionMiddleware nxt c = nxt (c\<lparr>res := setHeader ''X-Powered-By'' ''PlusWeb'' (res c)\<rparr>)"

section \<open>Handlers\<close>

text \<open>\<open>res.status(s).send(text)\<close> with a literal, with a string, and with a JSON value.\<close>

definition reply_literal :: "int \<Rightarrow> string \<Rightarrow> ('j, 'w) act" where
  "reply_literal s t c = Ret (c\<lparr>res := send_cstr t (set_status s (res c))\<rparr>)"

definition reply_string :: "int \<Rightarrow> string \<Rightarrow> ('j, 'w) act" where
  "reply_string s t c = Ret (c\<lparr>res := send_text t (set_status s (res c))\<rparr>)"

definition reply_json :: "'j json_lib \<Rightarrow> int \<Rightarrow> 'j \<Rightarrow> ('j, 'w) act" where
  "reply_json J s j c =
     (case send_json J j (set_status s (res c)) of
        (None, r) \<Rightarrow> Ret (c\<lparr>res := r\<rparr>)
      | (Some what, r) \<Rightarrow> Exc (Std what) (c\<lparr>res := r\<rparr>))"

text \<open>\<open>req.params[name]\<close>\<close>

definition param :: "string \<Rightarrow> ('j, 'w) ctx \<Rightarrow> string \<times> ('j, 'w) ctx" where
  "param name c =
     (let (v, ps) = smap_index name (params (req c)) in (v, c\<lparr>req := (req c)\<lparr>params := ps\<rparr>\<rparr>))"

definition strings_json :: "'j json_lib \<Rightarrow> (string \<times> string) list \<Rightarrow> (string \<times> 'j) list" where
  "strings_json J kvs = map (\<lambda>(k, v). (k, j_string J v)) kvs"

definition router_home :: "('j, 'w) act" where
  "router_home = reply_literal 200 ''<html><body>BASE ROUTER - Authenticated!</body></html>''"

definition router_profile :: "('j, 'w) act" where
  "router_profile = reply_literal 200 ''<html><body>User Profile</body></html>''"

definition file_path :: string where
  "file_path = ''examples/rest_api/public/file.txt''"

definition router_file :: "'j json_lib \<Rightarrow> ('j, rest_world) act" where
  "router_file J c =
     (case readFile (disk (world c)) file_path [] of
        (False, _) \<Rightarrow>
          reply_json J 404 (j_object J (strings_json J [(''error'', ''Not Found''), (''path'', req_path (req c))])) c
      | (True, file_data) \<Rightarrow>
          Ret (c\<lparr>res := setHeader ''Content-Type'' (mimeTypeFor file_path)
                   (send_binary file_data (set_status 200 (res c)))\<rparr>))"

definition home :: "('j, rest_world) act" where
  "home c = reply_literal 200 ''<html><body>HELLO</body></html>'' (print_out (printRequestInfo (req c)) c)"

definition api_home :: "('j, 'w) act" where
  "api_home = reply_literal 200 ''Authorized''"

definition me :: "'j json_lib \<Rightarrow> ('j, 'w) act" where
  "me J c =
     (let (userId, c1) = param ''id'' c in
      reply_json J 200 (j_object J (strings_json J [(''name'', ''ahmed''), (''id'', userId)])) c1)"

definition users :: "'j json_lib \<Rightarrow> ('j, 'w) act" where
  "users J =
     (let user = (\<lambda>name i. j_object J [(''name'', j_string J name), (''id'', j_int J i)]) in
      reply_json J 200 (j_array J [user ''sozzer'' 1, user ''ahmed'' 2, user ''john'' 3]))"

definition user_json :: "'j json_lib \<Rightarrow> string \<Rightarrow> 'j" where
  "user_json J userId =
     j_object J (strings_json J
       [(''name'', ''ahmed''), (''id'', userId), (''email'', ''ahmed@example.com''),
        (''created_at'', ''2025-01-01T00:00:00Z'')])"

definition user_by_id :: "'j json_lib \<Rightarrow> ('j, 'w) act" where
  "user_by_id J c = (let (userId, c1) = param ''id'' c in reply_json J 200 (user_json J userId) c1)"

definition user_policy :: "'j json_lib \<Rightarrow> ('j, 'w) act" where
  "user_policy J c =
     (let (userId, c1) = param ''id'' c; (policyId, c2) = param ''policyId'' c1 in
      reply_json J 200 (j_object J
        [(''userId'', j_string J userId), (''policyId'', j_string J policyId),
         (''policyName'', j_string J ''Standard Policy''),
         (''permissions'', j_array J [j_string J ''read'', j_string J ''write'']),
         (''active'', j_bool J True)]) c2)"

definition name_page :: "('j, 'w) act" where
  "name_page c =
     (let (name, c1) = param ''name'' c in
      reply_string 200
        (''<html>'' @ ''<head><title>Hello '' @ name @ ''</title></head>'' @ ''<body>'' @
         ''<h1>Welcome, '' @ name @ ''!</h1>'' @
         ''<p>Method used: '' @ req_method (req c1) @ ''</p>'' @ ''</body>'' @ ''</html>'') c1)"

definition delete_name :: "'j json_lib \<Rightarrow> ('j, 'w) act" where
  "delete_name J c =
     (let (name, c1) = param ''name'' c in
      reply_json J 200 (j_object J
        [(''deleted'', j_bool J True), (''name'', j_string J name),
         (''message'', j_string J (''Name '' @ CHR 0x27 # name @ CHR 0x27 # '' has been successfully deleted'')),
         (''timestamp'', j_string J ''2025-01-01T00:00:00Z'')]) c1)"

definition user_data :: "'j json_lib \<Rightarrow> ('j, 'w) act" where
  "user_data J c =
     (let (userId, c1) = param ''id'' c in
      reply_json J 200 (j_object J
        [(''id'', j_string J userId), (''data'', j_string J ''Some Data here''),
         (''profile'', j_object J (strings_json J
            [(''preferences'', ''dark_mode''), (''language'', ''en''), (''timezone'', ''UTC'')])),
         (''last_login'', j_string J ''2025-01-01T12:00:00Z'')]) c1)"

definition update_user :: "'j json_lib \<Rightarrow> ('j, 'w) act" where
  "update_user J c =
     (let (userId, c1) = param ''id'' c; b = req_body (req c1) in
      reply_json J 200 (j_object J
        [(''id'', j_string J userId), (''status'', j_string J ''updated''),
         (''message'', j_string J ''User data updated successfully''),
         (''received_data'', if body_type b = JSON then json_data b else j_object J []),
         (''timestamp'', j_string J ''2025-01-01T00:00:00Z'')]) c1)"

definition health :: "'j json_lib \<Rightarrow> ('j, 'w) act" where
  "health J =
     reply_json J 200 (j_object J (strings_json J
       [(''status'', ''healthy''), (''timestamp'', ''2025-01-01T00:00:00Z''),
        (''uptime'', ''24h 15m 32s''), (''version'', ''1.0.0'')]))"

definition api_info :: "'j json_lib \<Rightarrow> ('j, 'w) act" where
  "api_info J =
     reply_json J 200 (j_object J
       [(''name'', j_string J ''PlusWeb API''), (''version'', j_string J ''1.0.0''),
        (''description'', j_string J ''A modern C++ web framework''),
        (''endpoints'', j_array J (map (j_string J) [''/'', ''/users'', ''/users/:id'', ''/health'']))])"

definition echo :: "'j json_lib \<Rightarrow> ('j, 'w) act" where
  "echo J c =
     (let b = req_body (req c) in
      reply_json J 200 (j_object J
        [(''method'', j_string J (req_method (req c))), (''path'', j_string J (req_path (req c))),
         (''headers'', j_object J []),
         (''body'', if body_type b = JSON then json_data b else j_string J (raw_data b)),
         (''timestamp'', j_string J ''2025-01-01T00:00:00Z'')]) c)"

definition error_page :: "'j json_lib \<Rightarrow> ('j, 'w) act" where
  "error_page J =
     reply_json J 500 (j_object J
       [(''error'', j_bool J True), (''message'', j_string J ''This is a test error''),
        (''code'', j_string J ''TEST_ERROR''), (''timestamp'', j_string J ''2025-01-01T00:00:00Z'')])"

section \<open>main\<close>

definition rest_router :: "'j json_lib \<Rightarrow> ('j, rest_world) router" where
  "rest_router J =
     (let r = new_router_at [] in
      r\<lparr>rregistry :=
          GET (GET (GET (rregistry r) ''/'' (Some router_home)) ''/profile'' (Some router_profile))
            ''/file.txt'' (Some (router_file J))\<rparr>)"

text \<open>The one router of the program has identifier 0.\<close>

definition rest_store :: "'j json_lib \<Rightarrow> ('j, rest_world) store" where
  "rest_store J = (\<lambda>r. new_router)(0 := rest_router J)"

definition rest_middleware :: "'j json_lib \<Rightarrow> ('j, rest_world) registry" where
  "rest_middleware J =
     use_all
       (use_path (server_use (rest_store J) new_registry ''/router'' 0) ''/api'' [UserMw authMiddleware])
       [UserMw loggingMiddleware, UserMw timingMiddleware, UserMw headerInjectionMiddleware]"

type_synonym ('j, 'w) verb =
  "('j, 'w) registry \<Rightarrow> string \<Rightarrow> ('j, 'w) act option \<Rightarrow> ('j, 'w) registry"

definition rest_routes ::
  "'j json_lib \<Rightarrow> (('j, rest_world) verb \<times> string \<times> ('j, rest_world) act) list" where
  "rest_routes J =
     [(GET, ''/'', home), (GET, ''/api'', api_home), (GET, ''/me/:id'', me J), (GET, ''/users'', users J),
      (GET, ''/users/:id'', user_by_id J), (GET, ''/users/:id/policy/:policyId'', user_policy J),
      (GET, ''/names/:name'', name_page), (DELETE, ''/names/:name'', delete_name J),
      (GET, ''/users/:id/data'', user_data J), (POST, ''/users/:id'', update_user J),
      (GET, ''/health'', health J), (GET, ''/api/info'', api_info J), (POST, ''/echo'', echo J),
      (GET, ''/error'', error_page J)]"

definition rest_server :: "'j json_lib \<Rightarrow> ('j, rest_world) registry" where
  "rest_server J = fold (\<lambda>(verb, path, h) reg. verb reg path (Some h)) (rest_routes J) (rest_middleware J)"

section \<open>The chain of the application\<close>

lemma queue_verbs [simp]:
  "queue (GET reg p h) = queue reg" "queue (POST reg p h) = queue reg" "queue (DELETE reg p h) = queue reg"
  by (simp_all add: GET_def POST_def DELETE_def)

lemma queue_rest_server:
  "queue (rest_server J) =
     [MountedRouter ''/router'' [RouterRoutes 0], ScopedMw ''/api'' (UserMw authMiddleware),
      UserMw loggingMiddleware, UserMw timingMiddleware, UserMw headerInjectionMiddleware]"
  by (simp add: rest_server_def rest_routes_def rest_middleware_def server_use_def server_normalize_def
      getMiddlewares_def getMiddleWares_def rest_store_def rest_router_def new_router_at_def new_registry_def)

text \<open>What follows the mounted router and the guard.\<close>

definition rest_rest :: "'j json_lib \<Rightarrow> ('j, rest_world) act" where
  "rest_rest J =
     loggingMiddleware (timingMiddleware (headerInjectionMiddleware (runRoute J (rest_server J))))"

lemma run_chain_rest:
  "run_chain J (rest_store J) (rest_server J) =
     run_mw (rest_store J) (MountedRouter ''/router'' [RouterRoutes 0])
       (run_scoped ''/api'' authMiddleware (rest_rest J))"
  by (simp add: run_chain_eq queue_rest_server rest_rest_def)

lemma rest_not_mounted:
  "\<not> mount_serves (rest_store J) (''/router'', 0) c \<Longrightarrow>
   run_chain J (rest_store J) (rest_server J) c = run_scoped ''/api'' authMiddleware (rest_rest J) c"
  using server_mounts.pass [of "rest_store J" "(''/router'', 0)" c]
  by (simp add: run_chain_rest run_mount_def)

lemma api_not_mounted: "prefix ''/api'' (cpath c) \<Longrightarrow> \<not> mount_serves \<sigma> (''/router'', r) c"
  by (auto simp: mount_serves_def server_matches_def prefix_def)

section \<open>What the guarded chain does\<close>

lemma start_ctx_simps [simp]:
  "req (start_ctx J junk r w) = r" "world (start_ctx J junk r w) = w"
  "res (start_ctx J junk r w) = (new_response J junk)\<lparr>res_protocol := ''HTTP/1.1''\<rparr>"
  by (simp_all add: start_ctx_def)

lemma protocol_start [simp]: "res_protocol ((new_response J junk)\<lparr>res_protocol := s\<rparr>) = s"
  by (simp add: new_response_def)

lemma set_status_simps [simp]:
  "status (set_status s r) = s" "res_protocol (set_status s r) = res_protocol r"
  "res_headers (set_status s r) = res_headers r" "res_body (set_status s r) = res_body r"
  by (simp_all add: set_status_def)

text \<open>
  A handler that keeps what the middleware set, adds to standard output only at the end and does
  not read the clock.
\<close>

definition keeps :: "('j, rest_world) ctx \<Rightarrow> ('j, rest_world) ctx \<Rightarrow> bool" where
  "keeps c c' \<longleftrightarrow>
     smap_get (res_headers (res c')) ''X-Powered-By'' = smap_get (res_headers (res c)) ''X-Powered-By'' \<and>
     prefix (stdout (world c)) (stdout (world c')) \<and> ticks_read (world c') = ticks_read (world c) \<and>
     ticks (world c') = ticks (world c)"

definition polite :: "('j, rest_world) act \<Rightarrow> bool" where
  "polite h \<longleftrightarrow> (\<forall>c c'. h c = Ret c' \<longrightarrow> keeps c c')"

lemma keeps_trans: "keeps c c1 \<Longrightarrow> keeps c1 c2 \<Longrightarrow> keeps c c2"
  by (auto simp: keeps_def intro: prefix_order.trans)

lemma keeps_refl [simp]: "keeps c c"
  by (simp add: keeps_def)

lemma keeps_param: "keeps c (snd (param k c))"
  by (cases "smap_index k (params (req c))") (simp add: keeps_def param_def)

lemma send_json_keeps:
  assumes "send_json J j r = (None, r')"
  shows "smap_get (res_headers r') ''X-Powered-By'' = smap_get (res_headers r) ''X-Powered-By''"
proof (cases "j_dump J j")
  case (Inl what)
  with assms show ?thesis by (simp add: send_json_def setJson_def)
next
  case (Inr t)
  from send_json_dump [OF this, of r] assms show ?thesis by auto
qed

lemma keeps_reply:
  "reply_json J s j c = Ret c' \<Longrightarrow> keeps c c'" "reply_literal s t c = Ret c' \<Longrightarrow> keeps c c'"
  "reply_string s t c = Ret c' \<Longrightarrow> keeps c c'"
  using send_json_keeps [of J j "set_status s (res c)"]
  by (auto simp: keeps_def reply_json_def reply_literal_def reply_string_def
      split: prod.splits option.splits)

lemma polite_reply_after:
  assumes "\<And>c. \<exists>c1 s j. keeps c c1 \<and> h c = reply_json J s j c1"
  shows "polite h"
  unfolding polite_def
proof (intro allI impI)
  fix c c' assume "h c = Ret c'"
  moreover obtain c1 s j where "keeps c c1" "h c = reply_json J s j c1" using assms by blast
  ultimately show "keeps c c'" using keeps_reply(1) keeps_trans by metis
qed

lemma polite_replies [simp]:
  "polite (reply_json J s j)" "polite (reply_literal s t)" "polite (reply_string s t)"
  using keeps_reply by (auto simp: polite_def)

lemma keeps_param2: "keeps c (snd (param k (snd (param l c))))"
  using keeps_param keeps_param by (rule keeps_trans)

lemmas handler_defs = me_def user_by_id_def user_policy_def delete_name_def user_data_def
  update_user_def echo_def case_prod_beta Let_def

lemma polite_handlers:
  "polite (me J)" "polite (user_by_id J)" "polite (delete_name J)" "polite (user_data J)"
  "polite (update_user J)"
  unfolding handler_defs
  by (rule polite_reply_after, intro exI conjI, rule keeps_param, rule refl)+

lemma polite_policy: "polite (user_policy J)"
  unfolding handler_defs by (rule polite_reply_after, intro exI conjI, rule keeps_param2, rule refl)

lemma polite_echo: "polite (echo J)"
  unfolding handler_defs by (rule polite_reply_after, intro exI conjI, rule keeps_refl, rule refl)

lemma polite_home: "polite home"
  unfolding polite_def
proof (intro allI impI)
  fix c c' :: "('a, rest_world) ctx"
  assume "home c = Ret c'"
  then have "keeps (print_out (printRequestInfo (req c)) c) c'"
    by (auto simp: home_def dest: keeps_reply(2))
  moreover have "keeps c (print_out (printRequestInfo (req c)) c)" by (simp add: keeps_def print_out_def)
  ultimately show "keeps c c'" using keeps_trans by blast
qed

lemma polite_name_page: "polite name_page"
  by (auto simp: polite_def name_page_def case_prod_beta Let_def dest!: keeps_reply(3)
      intro: keeps_trans [OF keeps_param])

lemma polite_routes: "\<forall>(verb, path, h) \<in> set (rest_routes J). polite h"
  by (simp add: rest_routes_def api_home_def users_def health_def api_info_def error_page_def Let_def
      polite_handlers polite_policy polite_echo polite_home polite_name_page)

text \<open>So is every handler the server has in its table.\<close>

definition all_polite :: "('j, rest_world) registry \<Rightarrow> bool" where
  "all_polite reg \<longleftrightarrow> (\<forall>q h. table reg q = Some h \<longrightarrow> polite h)"

lemma all_polite_Register: "all_polite reg \<Longrightarrow> polite h \<Longrightarrow> all_polite (Register reg m p (Some h))"
  by (simp add: all_polite_def)

lemma all_polite_verbs:
  assumes "all_polite reg" and "polite h" and "verb \<in> {GET, POST, DELETE}"
  shows "all_polite (verb reg p (Some h))"
  using assms by (auto simp: GET_def POST_def DELETE_def intro!: all_polite_Register)

lemma table_rest_middleware: "table (rest_middleware J) = Map.empty"
  by (simp add: rest_middleware_def server_use_def)

lemma all_polite_fold:
  "all_polite reg \<Longrightarrow> \<forall>(verb, path, h) \<in> set rs. polite h \<and> verb \<in> {GET, POST, DELETE} \<Longrightarrow>
   all_polite (fold (\<lambda>(verb, path, h) reg. verb reg path (Some h)) rs reg)"
  by (induction rs arbitrary: reg) (auto simp: all_polite_verbs)

lemma all_polite_rest: "all_polite (rest_server J)"
  unfolding rest_server_def
proof (rule all_polite_fold)
  show "all_polite (rest_middleware J)" by (simp add: all_polite_def table_rest_middleware)
  have "\<forall>(verb, path, h) \<in> set (rest_routes J). verb \<in> {GET, POST, DELETE}" by (simp add: rest_routes_def)
  with polite_routes [of J]
  show "\<forall>(verb, path, h) \<in> set (rest_routes J). polite h \<and> verb \<in> {GET, POST, DELETE}" by fast
qed

lemma resolve_table: "resolve reg m path = Some h \<Longrightarrow> \<exists>q. table reg q = Some h"
  by (auto simp: resolve_def bind_eq_Some_conv)

lemma polite_runRoute: "polite (runRoute J (rest_server J))"
  unfolding polite_def
proof (intro allI impI)
  fix c c' assume run: "runRoute J (rest_server J) c = Ret c'"
  show "keeps c c'"
  proof (cases "resolve (rest_server J) (req_method (req c)) (cpath c)")
    case None
    with run have "reply_json J 404 (not_found_json J (req c)) c = Ret c'"
      by (simp add: runRoute_def getHandler_resolve reply_json_def split: prod.splits option.splits)
    then show ?thesis by (rule keeps_reply)
  next
    case (Some h)
    then have "polite h" using resolve_table all_polite_rest [of J] unfolding all_polite_def by blast
    moreover have "h (c\<lparr>req := (req c)\<lparr>params := bindings (rest_server J) (req_method (req c)) (cpath c)\<rparr>\<rparr>) = Ret c'"
      using run runRoute_found [OF Some, of J] by simp
    ultimately show ?thesis unfolding polite_def keeps_def by fastforce
  qed
qed

text \<open>
  The three outer middleware around the route: what they leave behind is the context of the route
  with a line printed in front and one behind, two clock readings, and a header.
\<close>

definition log_line :: "('j, 'w) ctx \<Rightarrow> string" where
  "log_line c = ''[LOG] '' @ req_method (req c) @ '' '' @ req_path (req c) @ NEWLINE"

definition timing_line :: "int \<Rightarrow> string" where
  "timing_line d = ''[TIMING] Request took '' @ int_to_string (microseconds d) @ ''us'' @ NEWLINE"

definition entered :: "('j, rest_world) ctx \<Rightarrow> ('j, rest_world) ctx" where
  "entered c =
     (snd (clock_now (print_out (log_line c) c)))\<lparr>res := setHeader ''X-Powered-By'' ''PlusWeb'' (res c)\<rparr>"

definition left :: "int \<Rightarrow> ('j, rest_world) ctx \<Rightarrow> ('j, rest_world) ctx" where
  "left start c = (case clock_now c of (stop, c1) \<Rightarrow> print_out (timing_line (stop - start)) c1)"

lemma rest_rest_eq:
  "rest_rest J c =
     and_then (runRoute J (rest_server J) (entered c))
       (\<lambda>c2. Ret (left (ticks (world c) (ticks_read (world c))) c2))"
proof -
  have "headerInjectionMiddleware nxt (snd (clock_now (print_out (log_line c) c))) = nxt (entered c)" for nxt
    by (simp add: headerInjectionMiddleware_def entered_def clock_now_def print_out_def)
  then show ?thesis
    by (simp add: rest_rest_def loggingMiddleware_def timingMiddleware_def log_line_def timing_line_def
        left_def clock_now_def print_out_def Let_def)
qed

lemma entered_simps [simp]:
  "req (entered c) = req c" "res (entered c) = setHeader ''X-Powered-By'' ''PlusWeb'' (res c)"
  "stdout (world (entered c)) = stdout (world c) @ log_line c"
  "ticks_read (world (entered c)) = ticks_read (world c) + 1" "ticks (world (entered c)) = ticks (world c)"
  "disk (world (entered c)) = disk (world c)"
  by (simp_all add: entered_def clock_now_def print_out_def)

lemma left_simps [simp]:
  "req (left t c) = req c" "res (left t c) = res c"
  "stdout (world (left t c)) = stdout (world c) @ timing_line (ticks (world c) (ticks_read (world c)) - t)"
  "ticks_read (world (left t c)) = ticks_read (world c) + 1"
  by (simp_all add: left_def clock_now_def print_out_def)

lemma headers_safe_powered [simp]: "headers_safe r \<Longrightarrow> headers_safe (setHeader ''X-Powered-By'' ''PlusWeb'' r)"
  by (rule headers_safe_setHeader) (simp_all add: header_safe_def line_safe_def)

section \<open>The table of the application\<close>

lemma rest_keys:
  "route_key ''GET'' ''/'' = [Lit ''GET:'']" "route_key ''HEAD'' ''/'' = [Lit ''HEAD:'']"
  "route_key ''GET'' ''/api'' = [Lit ''GET:'', Lit ''api'']" "route_key ''HEAD'' ''/api'' = [Lit ''HEAD:'', Lit ''api'']"
  "route_key ''GET'' ''/me/:id'' = [Lit ''GET:'', Lit ''me'', Par]" "route_key ''HEAD'' ''/me/:id'' = [Lit ''HEAD:'', Lit ''me'', Par]"
  "route_key ''GET'' ''/users'' = [Lit ''GET:'', Lit ''users'']" "route_key ''HEAD'' ''/users'' = [Lit ''HEAD:'', Lit ''users'']"
  "route_key ''GET'' ''/users/:id'' = [Lit ''GET:'', Lit ''users'', Par]"
  "route_key ''HEAD'' ''/users/:id'' = [Lit ''HEAD:'', Lit ''users'', Par]"
  "route_key ''GET'' ''/users/:id/policy/:policyId'' = [Lit ''GET:'', Lit ''users'', Par, Lit ''policy'', Par]"
  "route_key ''HEAD'' ''/users/:id/policy/:policyId'' = [Lit ''HEAD:'', Lit ''users'', Par, Lit ''policy'', Par]"
  "route_key ''GET'' ''/names/:name'' = [Lit ''GET:'', Lit ''names'', Par]"
  "route_key ''HEAD'' ''/names/:name'' = [Lit ''HEAD:'', Lit ''names'', Par]"
  "route_key ''DELETE'' ''/names/:name'' = [Lit ''DELETE:'', Lit ''names'', Par]"
  "route_key ''GET'' ''/users/:id/data'' = [Lit ''GET:'', Lit ''users'', Par, Lit ''data'']"
  "route_key ''HEAD'' ''/users/:id/data'' = [Lit ''HEAD:'', Lit ''users'', Par, Lit ''data'']"
  "route_key ''POST'' ''/users/:id'' = [Lit ''POST:'', Lit ''users'', Par]"
  "route_key ''GET'' ''/health'' = [Lit ''GET:'', Lit ''health'']" "route_key ''HEAD'' ''/health'' = [Lit ''HEAD:'', Lit ''health'']"
  "route_key ''GET'' ''/api/info'' = [Lit ''GET:'', Lit ''api'', Lit ''info'']"
  "route_key ''HEAD'' ''/api/info'' = [Lit ''HEAD:'', Lit ''api'', Lit ''info'']"
  "route_key ''POST'' ''/echo'' = [Lit ''POST:'', Lit ''echo'']"
  "route_key ''GET'' ''/error'' = [Lit ''GET:'', Lit ''error'']" "route_key ''HEAD'' ''/error'' = [Lit ''HEAD:'', Lit ''error'']"
  by (simp_all add: segment_eval)

lemmas rest_verbs = GET_def POST_def DELETE_def

lemmas rest_table = rest_server_def rest_routes_def rest_verbs rest_keys table_rest_middleware

lemma rest_table_user:
  "best (table (rest_server J)) [''GET:'', ''users'', v] = Some [Lit ''GET:'', Lit ''users'', Par]"
  "table (rest_server J) [Lit ''GET:'', Lit ''users'', Par] = Some (user_by_id J)"
  by (simp_all add: rest_table best_def)

lemma rest_table_api:
  "best (table (rest_server J)) [''GET:'', ''api''] = Some [Lit ''GET:'', Lit ''api'']"
  "table (rest_server J) [Lit ''GET:'', Lit ''api''] = Some api_home"
  by (simp_all add: rest_table best_def)

lemma rest_table_nowhere: "best (table (rest_server J)) [''GET:'', ''nowhere''] = None"
  by (simp add: rest_table best_def)

text \<open>The names the parameter of \<open>/users/:id\<close> has in the table: that of its own pattern.\<close>

definition rest_prefix :: "'j json_lib \<Rightarrow> ('j, rest_world) registry" where
  "rest_prefix J =
     GET (GET (GET (GET (rest_middleware J) ''/'' (Some home)) ''/api'' (Some api_home)) ''/me/:id'' (Some (me J)))
       ''/users'' (Some (users J))"

lemma place_rest_middleware [simp]: "place (rest_middleware J) p \<longleftrightarrow> p = []"
  by (simp add: rest_middleware_def server_use_def)

lemma rest_user_binds:
  "reg_binds (rest_server J) [Lit ''GET:'', Lit ''users'', Par] [''GET:'', ''users'', v] = [(''id'', v)]"
proof -
  let ?p = "[Lit ''GET:'', Lit ''users'', Par]"
  let ?g = "Register (rest_prefix J) ''GET'' ''/users/:id'' (Some (user_by_id J))"
  have "q = [Lit ''GET:'', Lit ''users'']" if "prefix (q @ [Par]) ?p" for q
    using that by (auto simp: prefix_def append_eq_Cons_conv Cons_eq_append_conv)
  moreover have "\<not> place (rest_prefix J) ?p"
    by (simp add: rest_prefix_def rest_verbs rest_keys)
  ultimately have "own_names (rest_prefix J) ?p" unfolding own_names_def by force
  then have "reg_binds ?g ?p [''GET:'', ''users'', v] = [(''id'', v)]"
    using reg_binds_Register_own [of "rest_prefix J" "''GET''" "''/users/:id''" "[''GET:'', ''users'', v]"]
    by (simp add: rest_keys) (simp add: segment_eval bound_params_def)
  then show ?thesis
    by (simp add: rest_server_def rest_routes_def rest_prefix_def rest_verbs rest_keys)
qed

lemma user_segments:
  assumes "v \<noteq> []" and "SLASH \<notin> set v" and "NUL \<notin> set v"
  shows "route_segments ''GET'' (''/users/'' @ v) = [''GET:'', ''users'', v]"
proof -
  have "c_str (''users/'' @ v) = ''users/'' @ v" using assms(3) by (auto simp: c_str_def takeWhile_eq_all_conv)
  then have "split (''users/'' @ v) ''/'' = [''users'', v]"
    using assms(1,2) tokens_append_sep [of SLASH "[]" "''users''" v]
    by (simp add: split_eq_tokens tokens_aux_no_sep)
  then show ?thesis using route_segments_slash [of "''GET''" "''users/'' @ v"] by simp
qed

section \<open>Properties\<close>

text \<open>
  C27: The guard stops what lacks the key: a request below \<open>/api\<close> without exactly the right
  \<open>X-API-Key\<close> is answered 401, for every method but HEAD, whose answer is the head alone, whatever is registered behind the
  guard, and nothing else of the application runs: the world is as before.
\<close>

theorem guard_stops_requests_without_key:
  assumes "prefix ''/api'' (req_path r)" and "req_method r \<noteq> ''HEAD''"
    and "smap_get (req_headers r) ''X-API-Key'' \<noteq> Some ''Bearer token''"
  shows "\<exists>head body hs. handleRequest J (rest_store J) (rest_server J) junk r ka sc w =
      \<lparr>h_exc = None, h_close = \<not> ka, h_head = head, h_body = body, h_world = w\<rparr> \<and>
    read_message (wire (head, body) @ rest) = Some (''HTTP/1.1 401 Unauthorized'', hs, ''Unauthorized'', rest)"
proof -
  let ?c = "start_ctx J junk r w"
  let ?res = "send_cstr ''Unauthorized'' (set_status 401 (res ?c))"
  have "\<not> mount_serves (rest_store J) (''/router'', 0) ?c" using assms(1) by (intro api_not_mounted) simp
  moreover have "fst (smap_index ''X-API-Key'' (req_headers r)) \<noteq> ''Bearer token''"
    using assms(3) by (auto simp: smap_index_fst split: option.splits)
  ultimately obtain c where c: "run_chain J (rest_store J) (rest_server J) ?c = Ret c"
    "res c = ?res" "world c = w" "req_method (req c) = req_method r"
    using assms(1) by (cases "smap_index ''X-API-Key'' (req_headers r)")
      (simp add: rest_not_mounted run_scoped_def authMiddleware_def)
  have "framable J (res c)" "body_payload J (res_body (res c)) = Inr ''Unauthorized''"
    by (simp_all add: c(2) framable_send) (simp add: c_str_def)
  moreover have "status_line (res c) = ''HTTP/1.1 401 Unauthorized''"
    by (rule status_lines) (simp_all add: c(2))
  ultimately show ?thesis
    using client_reads [OF c(1), of "''Unauthorized''" ka sc rest] c(3,4) assms(2) by auto
qed

definition sample_rest_world :: rest_world where
  "sample_rest_world = \<lparr>stdout = [], disk = (\<lambda>p. None), ticks = (\<lambda>n. 7000 * int n), ticks_read = 0\<rparr>"

lemma get_request_headers [simp]: "req_headers (get_request path) = []"
  by (simp add: get_request_def new_request_def)

theorem guard_stops_requests_without_key_witness:
  "\<exists>head body hs. handleRequest text_json (rest_store text_json) (rest_server text_json) 7 (get_request ''/api/info'')
      True False sample_rest_world =
      \<lparr>h_exc = None, h_close = False, h_head = head, h_body = body, h_world = sample_rest_world\<rparr> \<and>
    read_message (wire (head, body) @ []) = Some (''HTTP/1.1 401 Unauthorized'', hs, ''Unauthorized'', [])"
  using guard_stops_requests_without_key [of "get_request ''/api/info''" text_json 7 True False sample_rest_world "[]"]
  by simp

text \<open>
  Every request that comes past the mounted router and the guard is logged, timed and stamped:
  when it is answered, by whatever route or by none, its log line comes first and the timing line
  last in what was printed, the clock was read twice, and the answer carries the header.
\<close>

theorem answered_requests_are_logged_and_stamped:
  assumes "\<not> mount_serves (rest_store J) (''/router'', 0) c"
    and "prefix ''/api'' (cpath c) \<longrightarrow> smap_get (req_headers (req c)) ''X-API-Key'' = Some ''Bearer token''"
    and "run_chain J (rest_store J) (rest_server J) c = Ret c'"
  shows "smap_get (res_headers (res c')) ''X-Powered-By'' = Some ''PlusWeb'' \<and>
    ticks_read (world c') = ticks_read (world c) + 2 \<and>
    (\<exists>middle. stdout (world c') = stdout (world c) @
       (''[LOG] '' @ req_method (req c) @ '' '' @ cpath c @ NEWLINE) @ middle @
       timing_line (ticks (world c) (ticks_read (world c) + 1) - ticks (world c) (ticks_read (world c))))"
proof -
  have "run_scoped ''/api'' authMiddleware (rest_rest J) c = rest_rest J c"
  proof (cases "prefix ''/api'' (cpath c)")
    case True
    with assms(2) have "smap_index ''X-API-Key'' (req_headers (req c)) = (''Bearer token'', req_headers (req c))"
      by (intro smap_index_Some) simp
    then show ?thesis by (simp add: run_scoped_def authMiddleware_def)
  qed (simp add: run_scoped_def)
  with assms(1,3) obtain c2 where c2: "runRoute J (rest_server J) (entered c) = Ret c2"
    "c' = left (ticks (world c) (ticks_read (world c))) c2"
    by (cases "runRoute J (rest_server J) (entered c)") (auto simp: rest_not_mounted rest_rest_eq)
  have keeps: "keeps (entered c) c2" using polite_runRoute [of J] c2(1) by (simp add: polite_def)
  then obtain middle where "stdout (world c2) = stdout (world (entered c)) @ middle"
    by (auto simp: keeps_def prefix_def)
  with keeps c2(2) show ?thesis by (simp add: keeps_def log_line_def)
qed

theorem answered_requests_are_logged_and_stamped_witness:
  "\<exists>c' middle. run_chain text_json (rest_store text_json) (rest_server text_json)
      (start_ctx text_json 7 (get_request ''/nowhere'') sample_rest_world) = Ret c' \<and>
    smap_get (res_headers (res c')) ''X-Powered-By'' = Some ''PlusWeb'' \<and>
    stdout (world c') = [] @ (''[LOG] '' @ ''GET'' @ '' '' @ ''/nowhere'' @ NEWLINE) @ middle @ timing_line 7000"
proof -
  let ?c = "start_ctx text_json 7 (get_request ''/nowhere'') sample_rest_world"
  have not: "\<not> mount_serves (rest_store text_json) (''/router'', 0) ?c"
    by (simp add: mount_serves_def server_matches_def)
  have "resolve (rest_server text_json) ''GET'' ''/nowhere'' = None"
    by (simp add: resolve_def segment_eval rest_table_nowhere)
  then have "\<exists>c2. runRoute text_json (rest_server text_json) (entered ?c) = Ret c2"
    by (simp add: runRoute_def getHandler_resolve send_json_def setJson_def Let_def)
  then obtain c' where c': "run_chain text_json (rest_store text_json) (rest_server text_json) ?c = Ret c'"
    using not by (auto simp: rest_not_mounted run_scoped_def rest_rest_eq)
  from answered_requests_are_logged_and_stamped [OF not _ c'] c' show ?thesis
    by (auto simp: sample_rest_world_def)
qed

text \<open>
  One more slash in front walks around the guard: a GET of \<open>//api\<close> gets the page behind the guard
  without any key.
\<close>

theorem doubled_slash_needs_no_key:
  assumes "req_method r = ''GET''" and "req_path r = ''//api''"
  shows "\<exists>head body hs w'. handleRequest J (rest_store J) (rest_server J) junk r ka sc w =
      \<lparr>h_exc = None, h_close = \<not> ka, h_head = head, h_body = body, h_world = w'\<rparr> \<and>
    read_message (wire (head, body) @ rest) = Some (''HTTP/1.1 200 OK'', hs, ''Authorized'', rest)"
proof -
  let ?c = "start_ctx J junk r w"
  have "\<not> mount_serves (rest_store J) (''/router'', 0) ?c"
    using assms by (simp add: mount_serves_def server_matches_def)
  moreover have "resolve (rest_server J) (req_method r) (req_path r) = Some api_home"
    using assms rest_table_api [of J] by (simp add: resolve_def segment_eval)
  ultimately obtain c where c: "run_chain J (rest_store J) (rest_server J) ?c = Ret c"
    "res c = send_cstr ''Authorized'' (set_status 200 (setHeader ''X-Powered-By'' ''PlusWeb'' (res ?c)))"
    "req_method (req c) = ''GET''"
    using assms runRoute_found [of "rest_server J" "entered ?c" api_home J]
    by (simp add: rest_not_mounted run_scoped_def rest_rest_eq api_home_def reply_literal_def)
  have "framable J (res c)" "body_payload J (res_body (res c)) = Inr ''Authorized''"
    by (simp_all add: c(2) framable_send) (simp add: c_str_def)
  moreover have "status_line (res c) = ''HTTP/1.1 200 OK''"
    by (rule status_lines) (simp_all add: c(2))
  ultimately show ?thesis
    using client_reads [OF c(1), of "''Authorized''" ka sc rest] c(3) by fastforce
qed

theorem doubled_slash_needs_no_key_witness:
  "\<exists>head body hs w'. handleRequest text_json (rest_store text_json) (rest_server text_json) 7 (get_request ''//api'')
      True False sample_rest_world =
      \<lparr>h_exc = None, h_close = False, h_head = head, h_body = body, h_world = w'\<rparr> \<and>
    read_message (wire (head, body) @ []) = Some (''HTTP/1.1 200 OK'', hs, ''Authorized'', [])"
  using doubled_slash_needs_no_key [of "get_request ''//api''" text_json 7 True False sample_rest_world "[]"]
  by simp

text \<open>
  The pages of the mounted router are outside all of it: \<open>/router\<close> and \<open>/router/\<close> are served
  without a key, although the page says that the client is authenticated, and the request is
  neither logged nor stamped.
\<close>

theorem router_page_needs_no_key:
  assumes "req_method r = ''GET''" and "req_path r = ''/router'' \<or> req_path r = ''/router/''"
  shows "\<exists>head body hs. handleRequest J (rest_store J) (rest_server J) junk r ka sc w =
      \<lparr>h_exc = None, h_close = \<not> ka, h_head = head, h_body = body, h_world = w\<rparr> \<and>
    read_message (wire (head, body) @ rest) = Some (''HTTP/1.1 200 OK'', hs,
      ''<html><body>BASE ROUTER - Authenticated!</body></html>'', rest) \<and>
    map_of hs ''X-Powered-By'' = None"
proof -
  let ?c = "start_ctx J junk r w"
  let ?page = "''<html><body>BASE ROUTER - Authenticated!</body></html>''"
  have rel: "server_matches ''/router'' (cpath ?c)" "server_relative ''/router'' (cpath ?c) = ''/''"
    using assms(2) by (auto simp: server_matches_def server_relative_def sub_relative_def)
  have "resolve (rregistry (rest_store J 0)) ''GET'' ''/'' = Some router_home"
    by (simp add: resolve_def segment_eval rest_store_def rest_router_def new_router_at_def rest_verbs best_def)
  then have "resolve (rregistry (rest_store J 0)) (req_method (req ?c)) (server_relative ''/router'' (cpath ?c)) =
      Some router_home"
    using assms(1) rel(2) by simp
  from run_mounted_routes [where \<sigma> = "rest_store J" and r = 0, OF rel(1) this] obtain c where
    c: "run_chain J (rest_store J) (rest_server J) ?c = Ret c" "world c = w" "req_method (req c) = ''GET''"
    "res c = send_cstr ?page (set_status 200 (res ?c))"
    using assms(1) unfolding run_chain_rest by (auto simp: router_home_def reply_literal_def)
  have "framable J (res c)" "body_payload J (res_body (res c)) = Inr ?page"
    by (simp_all add: c(4) framable_send) (simp add: c_str_def)
  moreover have "status_line (res c) = ''HTTP/1.1 200 OK''"
    by (rule status_lines) (simp_all add: c(4))
  moreover have "smap_get (res_headers (res c)) ''X-Powered-By'' = None"
    by (simp add: c(4) new_response_def)
  ultimately show ?thesis
    using client_reads [OF c(1), of ?page ka sc rest] c(2,3) by fastforce
qed

theorem router_page_needs_no_key_witness:
  "\<exists>head body hs. handleRequest text_json (rest_store text_json) (rest_server text_json) 7 (get_request ''/router'')
      True False sample_rest_world =
      \<lparr>h_exc = None, h_close = False, h_head = head, h_body = body, h_world = sample_rest_world\<rparr> \<and>
    read_message (wire (head, body) @ []) = Some (''HTTP/1.1 200 OK'', hs,
      ''<html><body>BASE ROUTER - Authenticated!</body></html>'', []) \<and>
    map_of hs ''X-Powered-By'' = None"
  using router_page_needs_no_key [of "get_request ''/router''" text_json 7 True False sample_rest_world "[]"]
  by simp

text \<open>
  A user's page shows the user of the path: for every identifier that is one path segment, GET
  \<open>/users/<id>\<close> is answered 200 with the JSON text that has this identifier, stamped by the
  middleware, whatever headers the request has; the other routes of the table do not get in the way.
\<close>

theorem user_page_shows_requested_user:
  assumes "req_method r = ''GET''" and "req_path r = ''/users/'' @ v"
    and "v \<noteq> []" and "SLASH \<notin> set v" and "NUL \<notin> set v"
    and "j_dump J (user_json J v) = Inr t"
  shows "\<exists>head body hs w'. handleRequest J (rest_store J) (rest_server J) junk r ka sc w =
      \<lparr>h_exc = None, h_close = \<not> ka, h_head = head, h_body = body, h_world = w'\<rparr> \<and>
    read_message (wire (head, body) @ rest) = Some (''HTTP/1.1 200 OK'', hs, t, rest) \<and>
    map_of hs ''X-Powered-By'' = Some ''PlusWeb''"
proof -
  let ?c = "start_ctx J junk r w"
  note segs = user_segments [OF assms(3-5)]
  have best: "best (table (rest_server J)) (route_segments ''GET'' (''/users/'' @ v)) =
      Some [Lit ''GET:'', Lit ''users'', Par]"
    unfolding segs by (rule rest_table_user(1))
  then have found: "resolve (rest_server J) ''GET'' (''/users/'' @ v) = Some (user_by_id J)"
    unfolding resolve_def by (simp only: rest_table_user(2) Option.bind.simps)
  have bound: "bindings (rest_server J) ''GET'' (''/users/'' @ v) = [(''id'', v)]"
    using bindings_best [OF best] unfolding segs rest_user_binds by (simp add: smap_of_def)
  have path: "cpath (entered ?c) = ''/users/'' @ v" "req_method (req (entered ?c)) = ''GET''"
    using assms(1,2) by simp_all
  have "runRoute J (rest_server J) (entered ?c) =
      user_by_id J ((entered ?c)\<lparr>req := r\<lparr>params := [(''id'', v)]\<rparr>\<rparr>)"
    using runRoute_found [of "rest_server J" "entered ?c" "user_by_id J" J]
    unfolding path found bound by simp
  also have "\<dots> = reply_json J 200 (user_json J v) ((entered ?c)\<lparr>req := r\<lparr>params := [(''id'', v)]\<rparr>\<rparr>)"
    by (simp add: user_by_id_def param_def smap_index_def smap_get_def)
  finally have run: "runRoute J (rest_server J) (entered ?c) =
      reply_json J 200 (user_json J v) ((entered ?c)\<lparr>req := r\<lparr>params := [(''id'', v)]\<rparr>\<rparr>)" .
  let ?res = "set_status 200 (res (entered ?c))"
  obtain r' where sent: "send_json J (user_json J v) ?res = (None, r')" "status r' = status ?res"
    "res_protocol r' = res_protocol ?res" "body_payload J (res_body r') = Inr t"
    and safe: "headers_safe ?res \<longrightarrow> framable J r'"
    and kept: "\<forall>k. k \<noteq> ''Content-Type'' \<longrightarrow> k \<noteq> ''Content-Length'' \<longrightarrow>
       smap_get (res_headers r') k = smap_get (res_headers ?res) k"
    using send_json_dump [OF assms(6), of ?res] by (elim exE conjE) rule
  have r': "status r' = 200" "res_protocol r' = ''HTTP/1.1''" "framable J r'"
    "smap_get (res_headers r') ''X-Powered-By'' = Some ''PlusWeb''"
    using sent(2,3) safe kept by simp_all
  let ?d = "(entered ?c)\<lparr>req := r\<lparr>params := [(''id'', v)]\<rparr>, res := r'\<rparr>"
  have "runRoute J (rest_server J) (entered ?c) = Ret ?d"
    unfolding run reply_json_def using sent(1) by simp
  then have rest: "rest_rest J ?c = Ret (left (ticks w (ticks_read w)) ?d)"
    unfolding rest_rest_eq by simp
  have "\<not> mount_serves (rest_store J) (''/router'', 0) ?c" "\<not> prefix ''/api'' (cpath ?c)"
    using assms(2) by (simp_all add: mount_serves_def server_matches_def)
  then obtain c where c: "run_chain J (rest_store J) (rest_server J) ?c = Ret c" "res c = r'"
    "req_method (req c) = ''GET''"
    using assms(1) rest by (simp add: rest_not_mounted run_scoped_def left_def clock_now_def print_out_def)
  have "status_line (res c) = ''HTTP/1.1 200 OK''" by (rule status_lines) (simp_all add: c(2) r')
  then show ?thesis
    using client_reads [OF c(1), of t ka sc rest] c(2,3) r'(3,4) sent(4) by fastforce
qed

theorem user_page_shows_requested_user_witness:
  "\<exists>head body hs w'. handleRequest text_json (rest_store text_json) (rest_server text_json) 7 (get_request ''/users/42'')
      True False sample_rest_world =
      \<lparr>h_exc = None, h_close = False, h_head = head, h_body = body, h_world = w'\<rparr> \<and>
    read_message (wire (head, body) @ []) = Some (''HTTP/1.1 200 OK'', hs, user_json text_json ''42'', []) \<and>
    map_of hs ''X-Powered-By'' = Some ''PlusWeb''"
  using user_page_shows_requested_user [of "get_request ''/users/42''" "''42''" text_json
      "user_json text_json ''42''" 7 True False sample_rest_world "[]"]
  by simp

section \<open>The smallest application\<close>

text \<open>\<open>examples/hello_world/main.cpp\<close>: one route, which answers every GET of the root.\<close>

definition hello_world :: "('j, 'w) registry" where
  "hello_world = GET new_registry ''/'' (Some (reply_literal 200 ''Hello World!''))"

theorem hello_world_answers:
  fixes J :: "'j json_lib" and w :: 'w
  assumes "req_method r = ''GET''" and "req_path r = ''/''"
  shows "\<exists>head body hs. handleRequest J \<sigma> hello_world junk r ka sc w =
      \<lparr>h_exc = None, h_close = \<not> ka, h_head = head, h_body = body, h_world = w\<rparr> \<and>
    read_message (wire (head, body) @ rest) = Some (''HTTP/1.1 200 OK'', hs, ''Hello World!'', rest)"
proof -
  let ?c = "start_ctx J junk r w"
  have "queue (hello_world :: ('j, 'w) registry) = []" by (simp add: hello_world_def new_registry_def)
  note chain = run_chain_no_middleware [OF this]
  have "resolve (hello_world :: ('j, 'w) registry) ''GET'' ''/'' = Some (reply_literal 200 ''Hello World!'')"
    by (rule resolve_literal_route [of _ "''/''"])
      (simp_all add: hello_world_def GET_def rest_keys literal_path_def method_ok_def segment_eval)
  then obtain c where c: "run_chain J \<sigma> hello_world ?c = Ret c" "world c = w" "req_method (req c) = ''GET''"
    "res c = send_cstr ''Hello World!'' (set_status 200 (res ?c))"
    using assms runRoute_found [of hello_world ?c "reply_literal 200 ''Hello World!''" J]
    by (simp add: chain reply_literal_def)
  have "framable J (res c)" "body_payload J (res_body (res c)) = Inr ''Hello World!''"
    by (simp_all add: c(4) framable_send) (simp add: c_str_def)
  moreover have "status_line (res c) = ''HTTP/1.1 200 OK''" by (rule status_lines) (simp_all add: c(4))
  ultimately show ?thesis using client_reads [OF c(1), of "''Hello World!''" ka sc rest] c(2,3) by fastforce
qed

end
