(* ===== verification/Micro_Bench.thy ===== *)
theory Micro_Bench
  imports Framing Route_Params
begin

text \<open>
  The in-process benchmarks (\<open>bench/microbench.cpp\<close>): the allocation counters and the measuring
  loop, the route tables the lookups are measured on, and the synthetic request cycle. What the
  numbers mean depends on these: that the \<open>hit\<close> rows find a route and the \<open>miss\<close> rows none, that
  the counters count one run of the measured code per iteration, and that the full cycle does the
  work of the server.
\<close>

section \<open>Allocation counters\<close>

record alloc =
  a_count :: size_t
  a_bytes :: size_t
  a_frees :: size_t
  a_on :: bool

definition alloc_reset :: "alloc \<Rightarrow> alloc" where
  "alloc_reset a = a\<lparr>a_count := 0, a_bytes := 0, a_frees := 0\<rparr>"

definition operator_new :: "size_t \<Rightarrow> alloc \<Rightarrow> alloc" where
  "operator_new sz a = (if a_on a then a\<lparr>a_count := a_count a + 1, a_bytes := a_bytes a + sz\<rparr> else a)"

definition operator_delete :: "bool \<Rightarrow> alloc \<Rightarrow> alloc" where
  "operator_delete nonnull a = (if a_on a \<and> nonnull then a\<lparr>a_frees := a_frees a + 1\<rparr> else a)"

section \<open>The measuring loop\<close>

text \<open>
  The measured function works on a state of its own and on the counters. \<open>double\<close> is a parameter
  type: the quotient of a count by the number of iterations, the time per iteration of a repetition
  (the clock), the bound \<open>1e18\<close> and \<open>std::min\<close> are arguments.
\<close>

record 'd stat =
  ns_per_op :: 'd
  allocs_per_op :: 'd
  bytes_per_op :: 'd

definition trunc_div :: "int \<Rightarrow> int \<Rightarrow> int" where
  "trunc_div a b = (if 0 \<le> a then a div b else - ((- a) div b))"

text \<open>The measured code may end the process, by \<open>abort()\<close> or with an exception that leaves \<open>main\<close>:
  \<^term>\<open>None\<close>.\<close>

fun repeat_run :: "nat \<Rightarrow> ('s \<Rightarrow> 's option) \<Rightarrow> 's \<Rightarrow> 's option" where
  "repeat_run 0 fn st = Some st"
| "repeat_run (Suc n) fn st = (case fn st of None \<Rightarrow> None | Some st1 \<Rightarrow> repeat_run n fn st1)"

fun timed_reps ::
  "('d \<Rightarrow> 'd \<Rightarrow> 'd) \<Rightarrow> (nat \<Rightarrow> 'd) \<Rightarrow> nat \<Rightarrow> ('s \<Rightarrow> 's option) \<Rightarrow> nat list \<Rightarrow> 'd \<times> 's \<Rightarrow> ('d \<times> 's) option" where
  "timed_reps dmin elapsed n fn [] bst = Some bst"
| "timed_reps dmin elapsed n fn (rep # reps) (least, st) =
     (case repeat_run n fn st of
        None \<Rightarrow> None
      | Some st1 \<Rightarrow> timed_reps dmin elapsed n fn reps (dmin least (elapsed rep), st1))"

definition measure_run ::
  "(size_t \<Rightarrow> int \<Rightarrow> 'd) \<Rightarrow> (nat \<Rightarrow> 'd) \<Rightarrow> 'd \<Rightarrow> ('d \<Rightarrow> 'd \<Rightarrow> 'd) \<Rightarrow> int \<Rightarrow> ('s \<times> alloc \<Rightarrow> ('s \<times> alloc) option) \<Rightarrow>
   's \<times> alloc \<Rightarrow> ('d stat \<times> 's \<times> alloc) option" where
  "measure_run quot elapsed big dmin iters fn st =
     (case repeat_run (nat (trunc_div iters 10 + 1)) fn st of
        None \<Rightarrow> None
      | Some (s1, a1) \<Rightarrow>
          (case repeat_run (nat iters) fn (s1, (alloc_reset a1)\<lparr>a_on := True\<rparr>) of
             None \<Rightarrow> None
           | Some (s2, a2) \<Rightarrow>
               (let a3 = a2\<lparr>a_on := False\<rparr>;
                    allocs = quot (a_count a3) iters;
                    abytes = quot (a_bytes a3) iters in
                case timed_reps dmin elapsed (nat iters) fn [0..<5] (big, (s2, a3)) of
                  None \<Rightarrow> None
                | Some (least, st5) \<Rightarrow>
                    Some (\<lparr>ns_per_op = least, allocs_per_op = allocs, bytes_per_op = abytes\<rparr>, st5))))"

section \<open>Fixtures\<close>

definition seg_n :: "nat \<Rightarrow> string" where
  "seg_n i = ''seg'' @ nat_to_string i"

definition makePath :: "int \<Rightarrow> string" where
  "makePath depth =
     (let p = concat (map (\<lambda>i. ''/'' @ seg_n i) [0..<nat depth]) in if p = [] then ''/'' else p)"

definition send_x :: "('j, 'w) act" where
  "send_x c = Ret (c\<lparr>res := send_cstr ''x'' (res c)\<rparr>)"

definition fill_path :: "nat \<Rightarrow> nat \<Rightarrow> string" where
  "fill_path i depth = ''/r'' @ nat_to_string i @ concat (map (\<lambda>d. ''/'' @ seg_n d) [1..<depth])"

definition fillRoutes :: "('j, 'w) registry \<Rightarrow> nat \<Rightarrow> nat \<Rightarrow> ('j, 'w) registry" where
  "fillRoutes reg n depth = fold (\<lambda>i reg. Register reg ''GET'' (fill_path i depth) (Some send_x)) [0..<n] reg"

text \<open>The tables and paths of the lookup benchmarks.\<close>

definition hit_path :: "nat \<Rightarrow> string" where
  "hit_path n = ''/r'' @ nat_to_string (n div 2) @ ''/seg1/seg2''"

definition miss_path :: string where
  "miss_path = ''/nope/seg1/seg2''"

definition depth_table :: "int \<Rightarrow> ('j, 'w) registry" where
  "depth_table depth =
     fold (\<lambda>i reg. Register reg ''GET'' (''/r'' @ nat_to_string i @ makePath (depth - 1)) (Some send_x))
       [0..<1000] new_registry"

definition depth_path :: "int \<Rightarrow> string" where
  "depth_path depth = ''/r500'' @ makePath (depth - 1)"

definition param_table :: "('j, 'w) registry" where
  "param_table = Register (fillRoutes new_registry 1000 3) ''GET'' ''/users/:id/posts'' (Some send_x)"

definition bench_request :: "'j json_lib \<Rightarrow> string \<Rightarrow> 'j request" where
  "bench_request J path = (new_request J)\<lparr>req_method := ''GET'', req_path := path\<rparr>"

section \<open>The full cycle\<close>

text \<open>
  What is done with one parsed request: the response or an exception, and the middleware list, which
  is fetched and not used.
\<close>

definition cycle_bytes ::
  "'j json_lib \<Rightarrow> ('j, 'w) registry \<Rightarrow> int \<Rightarrow> 'j request \<Rightarrow> 'w \<Rightarrow> (exn + string) \<times> 'w" where
  "cycle_bytes J reg junk request w =
     (let response = (new_response J junk)\<lparr>res_protocol := ''HTTP/1.1''\<rparr>;
          (handler, request1) = getHandler reg request;
          c = \<lparr>req = request1, res = response, world = w\<rparr>;
          out =
            (case handler of
               Some h \<Rightarrow> h c
             | None \<Rightarrow>
                 (case send_json J (j_object J [(''error'', j_string J ''Not Found'')]) (set_status 404 response) of
                    (None, r) \<Rightarrow> Ret (c\<lparr>res := r\<rparr>)
                  | (Some what, r) \<Rightarrow> Exc (Std what) (c\<lparr>res := r\<rparr>))) in
      case out of
        Exc e c1 \<Rightarrow> (Inl e, world c1)
      | Ret c1 \<Rightarrow>
          let mws = getMiddleWares reg;
              r1 = setHeader ''Connection'' ''keep-alive'' (res c1) in
          (case prepareResponse J (set_content_length r1) of
             Inl what \<Rightarrow> (Inl (Std what), world c1)
           | Inr bytes \<Rightarrow> (Inr bytes, world c1)))"

text \<open>The callback of the parser; the state says whether \<open>abort()\<close> was called.\<close>

definition cycle :: "'j json_lib \<Rightarrow> ('j, 'w) registry \<Rightarrow> int \<Rightarrow> ('j, 'w \<times> bool) request_handler" where
  "cycle J reg junk request keepAlive s =
     (case cycle_bytes J reg junk request (fst s) of
        (Inl e, w) \<Rightarrow> (Some e, w, snd s)
      | (Inr bytes, w) \<Rightarrow> (None, w, snd s \<or> bytes = []))"

definition pass_on :: "('j, 'w) mw_fun" where
  "pass_on nxt = nxt"

definition cycle_table :: "nat \<Rightarrow> nat \<Rightarrow> ('j, 'w) registry" where
  "cycle_table nroutes m =
     fold (\<lambda>i reg. RegisterMiddleWare reg (UserMw pass_on)) [0..<m] (fillRoutes new_registry nroutes 3)"

definition cycle_raw :: "nat \<Rightarrow> string" where
  "cycle_raw nroutes =
     ''GET /r'' @ nat_to_string (nroutes div 2) @ ''/seg1/seg2 HTTP/1.1'' @ CRLF @ ''Host: localhost:8084'' @ CRLF @
     ''User-Agent: bench/1.0'' @ CRLF @ ''Accept: */*'' @ CRLF @ ''Connection: keep-alive'' @ CRLF @ CRLF"

definition full_cycle ::
  "'j json_lib \<Rightarrow> 'l llhttp \<Rightarrow> nat \<Rightarrow> nat \<Rightarrow> int \<Rightarrow> 'w \<times> bool \<Rightarrow> 'w \<times> bool" where
  "full_cycle J L nroutes m junk s =
     (case execute J L (cycle J (cycle_table nroutes m) junk) (cycle_raw nroutes)
             (new_parser L kMaxHeaderBytes) s of (ok, p, s1) \<Rightarrow> s1)"

section \<open>Counting\<close>

text \<open>What a piece of code does to the counters: allocations with their sizes, and frees.\<close>

definition alloc_op :: "size_t + bool \<Rightarrow> alloc \<Rightarrow> alloc" where
  "alloc_op e = (case e of Inl sz \<Rightarrow> operator_new sz | Inr nonnull \<Rightarrow> operator_delete nonnull)"

definition sizes :: "(size_t + bool) list \<Rightarrow> size_t list" where
  "sizes es = map projl (filter isl es)"

lemma sizes_simps [simp]:
  "sizes [] = []" "sizes (Inl sz # es) = sz # sizes es" "sizes (Inr b # es) = sizes es"
  by (simp_all add: sizes_def)

lemma alloc_ops_on:
  "a_on a \<Longrightarrow> a_on (fold alloc_op es a) \<and> a_count (fold alloc_op es a) = a_count a + of_nat (length (sizes es)) \<and>
     a_bytes (fold alloc_op es a) = a_bytes a + sum_list (sizes es)"
proof (induction es arbitrary: a)
  case (Cons e es)
  have "a_on (alloc_op e a)" using Cons.prems by (simp add: alloc_op_def operator_new_def operator_delete_def split: sum.split)
  with Cons show ?case
    by (cases e) (simp_all add: alloc_op_def operator_new_def operator_delete_def add_ac)
qed simp

text \<open>Code that works on its own state and does the same allocations in every run.\<close>

lemma runs_step:
  assumes "\<forall>s a. P s \<longrightarrow> fn (s, a) = Some (g s, fold alloc_op es a) \<and> P (g s)" and "P s"
  shows "repeat_run n fn (s, a) = Some ((g ^^ n) s, ((fold alloc_op es) ^^ n) a) \<and> P ((g ^^ n) s)"
  using assms(2)
proof (induction n arbitrary: s a)
  case (Suc n)
  with assms(1) have "fn (s, a) = Some (g s, fold alloc_op es a)" "P (g s)" by blast+
  with Suc.IH [of "g s" "fold alloc_op es a"] show ?case
    by (simp add: funpow_swap1 del: funpow.simps) (simp add: funpow_swap1)
qed simp

lemma runs_counted:
  "a_on a \<Longrightarrow> a_on (((fold alloc_op es) ^^ n) a) \<and>
     a_count (((fold alloc_op es) ^^ n) a) = a_count a + of_nat (n * length (sizes es)) \<and>
     a_bytes (((fold alloc_op es) ^^ n) a) = a_bytes a + of_nat n * sum_list (sizes es)"
  by (induction n) (simp_all add: alloc_ops_on algebra_simps)

lemma repetitions:
  assumes "\<forall>s a. P s \<longrightarrow> fn (s, a) = Some (g s, fold alloc_op es a) \<and> P (g s)" and "P s"
  shows "\<exists>a'. timed_reps dmin elapsed n fn reps (b, (s, a)) =
      Some (fold (\<lambda>rep best. dmin best (elapsed rep)) reps b, (g ^^ (length reps * n)) s, a') \<and>
    P ((g ^^ (length reps * n)) s)"
  using assms(2)
proof (induction reps arbitrary: b s a)
  case (Cons rep reps)
  note run = runs_step [OF assms(1) Cons.prems, of n a]
  have "(g ^^ (length reps * n)) ((g ^^ n) s) = (g ^^ (length (rep # reps) * n)) s"
    by (simp add: funpow_add [unfolded comp_def fun_eq_iff, rule_format, symmetric] add.commute)
  with run Cons.IH [of "(g ^^ n) s" "dmin b (elapsed rep)" "((fold alloc_op es) ^^ n) a"] show ?case by simp
qed simp

section \<open>Route tables\<close>

lemma no_sep_in_digits [simp]: "SLASH \<notin> set (nat_to_string i)" "NUL \<notin> set (nat_to_string i)"
  using nat_to_string_digits [of SLASH i] nat_to_string_digits [of NUL i] by (auto simp: isdigit_def)

lemma seg_n_plain: "seg_n i \<noteq> [] \<and> SLASH \<notin> set (seg_n i) \<and> NUL \<notin> set (seg_n i) \<and> hd (seg_n i) \<noteq> COLON"
  by (auto simp: seg_n_def)

definition route_n :: "nat \<Rightarrow> string" where
  "route_n i = ''r'' @ nat_to_string i"

lemma route_n_plain: "route_n i \<noteq> [] \<and> SLASH \<notin> set (route_n i) \<and> NUL \<notin> set (route_n i) \<and> hd (route_n i) \<noteq> COLON"
  by (auto simp: route_n_def)

lemma route_n_inject [simp]: "route_n i = route_n j \<longleftrightarrow> i = j"
  by (simp add: route_n_def)

definition plain_segs :: "string list \<Rightarrow> bool" where
  "plain_segs ps \<longleftrightarrow> ps \<noteq> [] \<and> (\<forall>p \<in> set ps. p \<noteq> [] \<and> SLASH \<notin> set p \<and> NUL \<notin> set p \<and> hd p \<noteq> COLON)"

text \<open>A path made of plain segments: its key is those segments as literals.\<close>

lemma key_of_segs_method:
  assumes "plain_segs ps" and "method_ok m"
  shows "route_segments m (join_path SLASH ps) = (m @ '':'') # ps"
    and "route_key m (join_path SLASH ps) = map Lit ((m @ '':'') # ps)"
    and "literal_path (join_path SLASH ps)"
proof -
  obtain q qs where ps: "ps = q # qs" using assms by (cases ps) (auto simp: plain_segs_def)
  have split: "split (join_path SLASH ps) ''/'' = ps"
    using split_join_path [of ps] assms by (simp add: plain_segs_def)
  obtain t where t: "join_path SLASH ps = SLASH # t" by (simp add: ps join_path_def)
  have "split t ''/'' = ps" using split unfolding t split_slash .
  then show segs: "route_segments m (join_path SLASH ps) = (m @ '':'') # ps"
    unfolding t by (simp add: route_segments_slash [OF assms(2)])
  show lit: "literal_path (join_path SLASH ps)"
    using assms split by (simp add: literal_path_def plain_segs_def list_all_iff t)
  show "route_key m (join_path SLASH ps) = map Lit ((m @ '':'') # ps)"
    using literal_key_segments [OF assms(2) lit] segs by simp
qed

lemma key_of_segs:
  assumes "plain_segs ps"
  shows "route_segments ''GET'' (join_path SLASH ps) = ''GET:'' # ps"
    and "route_key ''GET'' (join_path SLASH ps) = map Lit (''GET:'' # ps)"
    and "literal_path (join_path SLASH ps)"
  using key_of_segs_method [OF assms, of "''GET''"] by (simp_all add: method_ok_def)

lemma fill_path_segs:
  "fill_path i depth = join_path SLASH (route_n i # map seg_n [1..<depth])" "plain_segs (route_n i # map seg_n [1..<depth])"
  using seg_n_plain route_n_plain
  by (auto simp: fill_path_def join_path_def route_n_def comp_def plain_segs_def)

text \<open>The table of a run of registrations with one handler.\<close>

lemma table_fold_Register:
  "table (fold (\<lambda>i reg. Register reg ''GET'' (pth i) (Some h)) xs reg) =
     (\<lambda>p. if \<exists>i \<in> set xs. p = route_key ''GET'' (pth i) then Some h else table reg p)"
proof (induction xs arbitrary: reg)
  case (Cons x xs)
  then show ?case by (auto simp: fun_eq_iff)
qed simp

lemma place_fold_Register:
  "place (fold (\<lambda>i reg. Register reg ''GET'' (pth i) (Some h)) xs reg) p \<longleftrightarrow>
     place reg p \<or> (\<exists>i \<in> set xs. prefix p (route_key ''GET'' (pth i)))"
  by (induction xs arbitrary: reg) auto

lemma table_fillRoutes:
  "table (fillRoutes reg n depth) p =
     (if \<exists>i < n. p = map Lit (''GET:'' # route_n i # map seg_n [1..<depth]) then Some send_x else table reg p)"
  unfolding fillRoutes_def table_fold_Register fill_path_segs(1) key_of_segs(2) [OF fill_path_segs(2)] by auto

lemma covers_literals_iff [simp]: "covers (map Lit xs) vs \<longleftrightarrow> xs = vs"
  by (simp add: covers_def list_all2_map1 list.rel_eq)

lemma resolve_literal_self:
  "literal_path p \<Longrightarrow> table reg (route_key ''GET'' p) = Some h \<Longrightarrow> resolve reg ''GET'' p = Some h"
  by (rule resolve_literal_route) (auto simp: literal_path_def method_ok_def)

lemma hit_path_fill: "hit_path n = fill_path (n div 2) 3"
proof -
  have "[1..<3] = [1, 2 :: nat]" "seg_n 1 = ''seg1''" "seg_n 2 = ''seg2''" by code_simp+
  then show ?thesis by (simp add: hit_path_def fill_path_def)
qed

lemma hit_resolves: "0 < n \<Longrightarrow> resolve (fillRoutes reg n 3) ''GET'' (hit_path n) = Some send_x"
  unfolding hit_path_fill
proof (rule resolve_literal_self)
  assume n: "0 < n"
  show "literal_path (fill_path (n div 2) 3)"
    unfolding fill_path_segs(1) by (rule key_of_segs(3) [OF fill_path_segs(2)])
  have "n div 2 < n" using n by simp
  then show "table (fillRoutes reg n 3) (route_key ''GET'' (fill_path (n div 2) 3)) = Some send_x"
    unfolding table_fillRoutes fill_path_segs(1) key_of_segs(2) [OF fill_path_segs(2)] by auto
qed

text \<open>Filler routes match only paths whose first segment is theirs.\<close>

lemma fill_not_covering:
  assumes "covers p (''GET:'' # v # vs)" and "\<forall>i. route_n i \<noteq> v"
  shows "table (fillRoutes reg n depth) p = table reg p"
proof (rule ccontr)
  assume "table (fillRoutes reg n depth) p \<noteq> table reg p"
  then obtain i where "p = map Lit (''GET:'' # route_n i # map seg_n [1..<depth])"
    unfolding table_fillRoutes by (auto split: if_splits)
  with assms(1) have "''GET:'' # route_n i # map seg_n [1..<depth] = ''GET:'' # v # vs"
    by (simp only: covers_literals_iff)
  with assms(2) show False by simp
qed

lemma miss_resolves: "resolve (fillRoutes new_registry n 3) ''GET'' miss_path = None"
proof -
  have vs: "route_segments ''GET'' miss_path = [''GET:'', ''nope'', ''seg1'', ''seg2'']"
    by (simp add: miss_path_def segment_eval)
  have other: "\<forall>i. route_n i \<noteq> ''nope''" by (simp add: route_n_def)
  have "table (fillRoutes new_registry n 3) p = None" if "covers p [''GET:'', ''nope'', ''seg1'', ''seg2'']" for p
    by (simp only: fill_not_covering [OF that other] table_new)
  then show ?thesis unfolding resolve_None_iff vs by blast
qed

lemma depth_literal: "literal_path (''/r'' @ nat_to_string i @ makePath k)"
proof (cases "nat k")
  case 0
  have "''/r'' @ nat_to_string i @ ''/'' = join_path SLASH [route_n i] @ SLASH # []"
    by (simp add: join_path_def route_n_def)
  moreover have "split (join_path SLASH [route_n i] @ SLASH # []) ''/'' = [route_n i]"
    using split_join_path [of "[route_n i]"] route_n_plain [of i]
    by (simp add: split_eq_tokens tokens_append_sep c_str_no_NUL join_path_def)
  ultimately have "split (''/r'' @ nat_to_string i @ ''/'') ''/'' = [route_n i]" by metis
  then show ?thesis using route_n_plain [of i] by (simp add: makePath_def 0 literal_path_def)
next
  case (Suc j)
  let ?ps = "route_n i # map seg_n [0..<Suc j]"
  have "''/r'' @ nat_to_string i @ makePath k = join_path SLASH ?ps"
    unfolding makePath_def Suc by (simp add: join_path_def route_n_def comp_def)
  moreover have "plain_segs ?ps" using seg_n_plain route_n_plain by (auto simp: plain_segs_def)
  ultimately show ?thesis using key_of_segs(3) by metis
qed

lemma depth_resolves: "resolve (depth_table depth) ''GET'' (depth_path depth) = Some send_x"
  unfolding depth_path_def
proof (rule resolve_literal_self)
  have r500: "''/r500'' @ x = ''/r'' @ nat_to_string 500 @ x" for x
  proof -
    have "nat_to_string 500 = ''500''" by code_simp
    then show ?thesis by simp
  qed
  show "literal_path (''/r500'' @ makePath (depth - 1))" unfolding r500 by (rule depth_literal)
  have "500 \<in> set [0..<1000]" by simp
  then show "table (depth_table depth) (route_key ''GET'' (''/r500'' @ makePath (depth - 1))) = Some send_x"
    unfolding depth_table_def table_fold_Register r500 by (metis (lifting))
qed

lemma no_param_in_fill: "\<not> place (fillRoutes new_registry n depth) (q @ [Par])"
proof -
  have "\<not> prefix (q @ [Par]) (map Lit xs)" for xs by (auto simp: prefix_def map_eq_append_conv Cons_eq_map_conv)
  then show ?thesis
    unfolding fillRoutes_def place_fold_Register fill_path_segs(1) key_of_segs(2) [OF fill_path_segs(2)]
    by (simp del: list.map)
qed

lemma param_resolves:
  "getHandler param_table (bench_request J ''/users/12345/posts'') =
     (Some send_x, (bench_request J ''/users/12345/posts'')\<lparr>params := [(''id'', ''12345'')]\<rparr>)"
proof -
  let ?r = "bench_request J ''/users/12345/posts''" and ?pat = "''/users/:id/posts''"
  let ?reg = "fillRoutes new_registry 1000 3"
  have r: "req_method ?r = ''GET''" "req_path ?r = ''/users/12345/posts''" by (simp_all add: bench_request_def)
  have key: "route_key ''GET'' ?pat = [Lit ''GET:'', Lit ''users'', Par, Lit ''posts'']"
    and pat: "route_segments ''GET'' ?pat = [''GET:'', ''users'', '':id'', ''posts'']"
    and vs: "route_segments ''GET'' (req_path ?r) = [''GET:'', ''users'', ''12345'', ''posts'']"
    unfolding r by (simp_all add: segment_eval)
  have covered: "covers (route_key ''GET'' ?pat) (route_segments ''GET'' (req_path ?r))"
    unfolding key vs by (simp add: covers_def)
  have other: "\<forall>i. route_n i \<noteq> ''users''" by (simp add: route_n_def)
  have "table ?reg q = None" if "covers q [''GET:'', ''users'', ''12345'', ''posts'']" for q
    by (simp only: fill_not_covering [OF that other] table_new)
  then have least: "\<forall>q. covers q (route_segments ''GET'' (req_path ?r)) \<longrightarrow> q < route_key ''GET'' ?pat \<longrightarrow> table ?reg q = None"
    unfolding vs by blast
  have own: "own_names ?reg (route_key ''GET'' ?pat)" by (simp add: own_names_def no_param_in_fill)
  have "smap_of (bound_params (route_segments ''GET'' ?pat) (route_segments ''GET'' (req_path ?r))) = [(''id'', ''12345'')]"
    unfolding pat vs by (simp add: bound_params_def smap_of_def)
  with serves_with_own_names [OF covered r(1) least own, of send_x] show ?thesis
    unfolding param_table_def by simp
qed

lemma bench_found:
  "resolve reg ''GET'' path = Some h \<Longrightarrow> fst (getHandler reg (bench_request J path)) = Some h"
  by (simp add: getHandler_resolve bench_request_def)

lemma bench_missed:
  "resolve reg ''GET'' path = None \<Longrightarrow> getHandler reg (bench_request J path) = (None, bench_request J path)"
  by (simp add: getHandler_resolve bench_request_def)

section \<open>The cycle and the server\<close>

lemma prepareResponse_wire:
  assumes "body_length (res_body r) \<le> SIZE_MAX"
  shows "prepareResponse J r = map_sum id wire (serialize J r n True)"
  using assms serialize_wire [of J r n]
  by (auto simp: prepareResponse_def serialize_def Let_def split: sum.splits)

lemma finish_body [simp]: "res_body (finish_response cl r) = res_body r"
  by (simp add: finish_response_def set_content_length_def setHeader_def)

lemma getHandler_RegisterMiddleWare [simp]: "getHandler (RegisterMiddleWare reg mw) r = getHandler reg r"
  by (simp add: getHandler_def RegisterMiddleWare_def)

lemma cycle_RegisterMiddleWare [simp]: "cycle J (RegisterMiddleWare reg mw) junk = cycle J reg junk"
  by (intro ext) (simp only: cycle_def cycle_bytes_def getHandler_RegisterMiddleWare Let_def)

lemma cycle_middleware:
  "cycle J (fold (\<lambda>i reg. RegisterMiddleWare reg (UserMw pass_on)) xs reg) junk = cycle J reg junk"
  by (induction xs arbitrary: reg) simp_all

text \<open>What the request handler keeps of the owner's state, the parser keeps.\<close>

lemma execute_keeps:
  assumes "\<And>r ka s. P s \<Longrightarrow> P (snd (h r ka s))" and "P s"
  shows "P (snd (snd (execute J L h data p s)))"
proof -
  have one: "P (snd (snd (callback J h e i s)))" if "P s" for e i s
    using that assms(1)
  proof (cases "\<exists>m ma mi ka. e = OnMessageComplete m ma mi ka")
    case True
    then show ?thesis
      using that assms(1)
      by (auto simp: onMessageComplete_def Let_def split: prod.split sum.split option.split exn.split)
        (metis snd_conv)+
  next
    case False
    with that show ?thesis by (cases e) (auto split: prod.split)
  qed
  have "P (snd (snd (run_events J h es i s)))" if "P s" for es i s
    using that
  proof (induction es arbitrary: i s)
    case (Cons e es)
    obtain ok i1 s1 where "callback J h e i s = (ok, i1, s1)" by (cases "callback J h e i s")
    with one [OF Cons.prems, of e i] Cons show ?case by (cases ok) auto
  qed simp
  then show ?thesis using assms(2) by (auto simp: execute_def Let_def case_prod_beta)
qed

lemma prepareResponse_nonempty: "prepareResponse J r \<noteq> Inr []"
  by (auto simp: prepareResponse_def serialize_def head_text_def CRLF_def Let_def split: sum.splits)

lemma cycle_never_aborts: "snd (snd (cycle J reg junk r ka s)) = snd s"
proof -
  have "fst (cycle_bytes J reg junk r w) \<noteq> Inr []" for w
    using prepareResponse_nonempty
    by (auto simp: cycle_bytes_def Let_def case_prod_beta split: outcome.split sum.split)
  then show ?thesis
    by (cases "cycle_bytes J reg junk r (fst s)") (auto simp: cycle_def split: sum.split, metis fst_conv)
qed

section \<open>Properties\<close>

text \<open>
  What the counters report: when every run of the measured code does the same allocations, the
  reported allocations and bytes are those of the counted runs alone, whatever was counted before;
  and the code has run once per warm-up, per counted and per timed iteration.
\<close>

theorem measured_allocations_are_exact:
  assumes "\<forall>s a. P s \<longrightarrow> fn (s, a) = Some (g s, fold alloc_op es a) \<and> P (g s)" and "P s"
  shows "\<exists>a'. measure_run quot elapsed big dmin iters fn (s, a) =
    Some (\<lparr>ns_per_op = fold (\<lambda>rep best. dmin best (elapsed rep)) [0..<5] big,
        allocs_per_op = quot (of_nat (nat iters * length (sizes es))) iters,
        bytes_per_op = quot (of_nat (nat iters) * sum_list (sizes es)) iters\<rparr>,
      (g ^^ (nat (trunc_div iters 10 + 1) + 6 * nat iters)) s, a')"
proof -
  let ?n = "nat iters" and ?k = "nat (trunc_div iters 10 + 1)" and ?ops = "fold alloc_op es"
  let ?a1 = "(?ops ^^ ?k) a"
  let ?a2 = "(?ops ^^ ?n) ((alloc_reset ?a1)\<lparr>a_on := True\<rparr>)"
  let ?a3 = "?a2\<lparr>a_on := False\<rparr>"
  have warm: "repeat_run ?k fn (s, a) = Some ((g ^^ ?k) s, ?a1)" "P ((g ^^ ?k) s)"
    using runs_step [OF assms] by simp_all
  have counted: "repeat_run ?n fn ((g ^^ ?k) s, (alloc_reset ?a1)\<lparr>a_on := True\<rparr>) =
      Some ((g ^^ ?n) ((g ^^ ?k) s), ?a2)" "P ((g ^^ ?n) ((g ^^ ?k) s))"
    using runs_step [OF assms(1) warm(2)] by simp_all
  have counts: "a_count ?a3 = of_nat (?n * length (sizes es))" "a_bytes ?a3 = of_nat ?n * sum_list (sizes es)"
    using runs_counted [of "(alloc_reset ?a1)\<lparr>a_on := True\<rparr>" ?n es] by (simp_all add: alloc_reset_def)
  obtain a' where timed: "timed_reps dmin elapsed ?n fn [0..<5] (big, ((g ^^ ?n) ((g ^^ ?k) s), ?a3)) =
      Some (fold (\<lambda>rep best. dmin best (elapsed rep)) [0..<5] big,
        (g ^^ (length [0..<5] * ?n)) ((g ^^ ?n) ((g ^^ ?k) s)), a')"
    using repetitions [OF assms(1) counted(2), of dmin elapsed ?n "[0..<5]" big ?a3] by blast
  have "5 * ?n + (?n + ?k) = ?k + 6 * ?n" by simp
  then have "(g ^^ (length [0..<5] * ?n)) ((g ^^ ?n) ((g ^^ ?k) s)) = (g ^^ (?k + 6 * ?n)) s"
    by (metis comp_apply diff_zero funpow_add length_upt)
  then show ?thesis
    using timed counts by (simp add: measure_run_def warm(1) counted(1) Let_def del: upt_rec_numeral)
qed

text \<open>
  The rows of the lookup benchmarks measure what they say: in a table of any positive number of
  filler routes the path of the \<open>hit\<close> rows finds its route, the path of the \<open>miss\<close> rows finds none,
  the path of every depth finds its route, and the parameter row finds the parameter route, with the
  parameter bound, among a thousand others; so no benchmark calls \<open>abort\<close>.
\<close>

theorem lookup_rows_hit_and_miss:
  shows "(0 < n \<longrightarrow> fst (getHandler (fillRoutes new_registry n 3) (bench_request J (hit_path n))) = Some send_x) \<and>
    getHandler (fillRoutes new_registry n 3) (bench_request J miss_path) = (None, bench_request J miss_path) \<and>
    fst (getHandler (depth_table depth) (bench_request J (depth_path depth))) = Some send_x \<and>
    getHandler param_table (bench_request J ''/users/12345/posts'') =
      (Some send_x, (bench_request J ''/users/12345/posts'')\<lparr>params := [(''id'', ''12345'')]\<rparr>)"
  by (intro conjI impI bench_found bench_missed hit_resolves miss_resolves depth_resolves param_resolves)

text \<open>
  C31: The full cycle is the server's work without the middleware: for a request whose route exists and
  that is not answered as a HEAD, the bytes prepared (or the exception, with the state it leaves) are
  those the server of the same table without middleware would write on a kept-alive connection.
\<close>

theorem full_cycle_mirrors_server:
  assumes "queue reg = []" and "resolve reg (req_method r) (req_path r) = Some h"
    and "\<forall>c c'. h c = Ret c' \<longrightarrow> req_method (req c) = req_method r \<longrightarrow>
      req_method (req c') \<noteq> ''HEAD'' \<and> body_length (res_body (res c')) \<le> SIZE_MAX"
  shows "cycle_bytes J reg junk r w =
    (case handleRequest J \<sigma> reg junk r True sc w of H \<Rightarrow>
       ((case h_exc H of Some e \<Rightarrow> Inl e | None \<Rightarrow> Inr (wire (h_head H, h_body H))), h_world H))"
proof -
  let ?c = "start_ctx J junk r w"
  have "resolve reg (req_method (req ?c)) (cpath ?c) = Some h" using assms(2) by (simp add: start_ctx_def)
  note found = runRoute_found [OF this, of J]
  let ?d = "?c\<lparr>req := (req ?c)\<lparr>params := bindings reg (req_method (req ?c)) (cpath ?c)\<rparr>\<rparr>"
  have cyc: "cycle_bytes J reg junk r w =
      (case h ?d of Exc e c1 \<Rightarrow> (Inl e, world c1)
       | Ret c1 \<Rightarrow>
           (case prepareResponse J (finish_response False (res c1)) of
              Inl what \<Rightarrow> (Inl (Std what), world c1) | Inr bytes \<Rightarrow> (Inr bytes, world c1)))"
    using assms(2)
    by (simp add: cycle_bytes_def getHandler_resolve start_ctx_def finish_response_def split: outcome.split)
  have srv: "run_chain J \<sigma> reg ?c = h ?d" using found run_chain_no_middleware [OF assms(1)] by simp
  show ?thesis
  proof (cases "h ?d")
    case (Ret c1)
    moreover have "req_method (req ?d) = req_method r" by (simp add: start_ctx_def)
    ultimately have "req_method (req c1) \<noteq> ''HEAD''" "body_length (res_body (res c1)) \<le> SIZE_MAX"
      using assms(3) by blast+
    with Ret show ?thesis
      using prepareResponse_wire [of "finish_response False (res c1)" J kCoalesceBelow]
      by (auto simp: cyc srv handleRequest_def split: sum.splits)
  next
    case (Exc e c1)
    then show ?thesis by (simp add: cyc srv handleRequest_def)
  qed
qed

text \<open>
  The rows \<open>N mw\<close> of the full cycle run no middleware: whatever their number, the cycle is that of
  the table without any, although the header of the file says that it runs the chain. The cycle
  never aborts.
\<close>

theorem middleware_rows_run_no_middleware:
  "full_cycle J L nroutes m junk s = full_cycle J L nroutes 0 junk s \<and> snd (full_cycle J L nroutes m junk s) = snd s"
proof
  show "full_cycle J L nroutes m junk s = full_cycle J L nroutes 0 junk s"
    by (simp add: full_cycle_def cycle_table_def cycle_middleware)
  have "snd (snd (snd (execute J L (cycle J (cycle_table nroutes m) junk) (cycle_raw nroutes)
      (new_parser L kMaxHeaderBytes) s))) = snd s"
    by (rule execute_keeps [where P = "\<lambda>x. snd x = snd s"]) (simp_all add: cycle_never_aborts)
  then show "snd (full_cycle J L nroutes m junk s) = snd s" by (simp add: full_cycle_def case_prod_beta)
qed

section \<open>Examples\<close>

theorem measured_allocations_are_exact_witness:
  "\<exists>a'. measure_run (\<lambda>w i. (unat w, i)) (\<lambda>rep. (0, 0)) (1, 0) (\<lambda>a b. a) 20
      (\<lambda>(s, a). Some (Suc s, fold alloc_op [Inl 32, Inr True] a))
      (0, \<lparr>a_count = 5, a_bytes = 7, a_frees = 0, a_on = True\<rparr>) =
    Some (\<lparr>ns_per_op = (1, 0), allocs_per_op = (20, 20), bytes_per_op = (640, 20)\<rparr>, 123, a')"
proof -
  have "(Suc ^^ n) 0 = n" for n by (induction n) simp_all
  moreover have "fold (\<lambda>rep b. b) [0..<5] x = x" for x :: "nat \<times> int" by (simp add: upt_rec)
  ultimately show ?thesis
    using measured_allocations_are_exact [where fn = "\<lambda>(s, a). Some (Suc s, fold alloc_op [Inl 32, Inr True] a)"
        and g = Suc and es = "[Inl 32, Inr True]" and quot = "\<lambda>w i. (unat w, i)" and elapsed = "\<lambda>rep. (0, 0)"
        and big = "(1, 0)" and dmin = "\<lambda>a b. a" and iters = 20 and s = 0 and P = "\<lambda>s. True"
        and a = "\<lparr>a_count = 5, a_bytes = 7, a_frees = 0, a_on = True\<rparr>"]
    by (simp add: trunc_div_def)
qed

theorem lookup_rows_hit_and_miss_witness:
  "fst (getHandler (fillRoutes new_registry 10 3) (bench_request text_json (hit_path 10))) = Some send_x"
  by (rule lookup_rows_hit_and_miss [THEN conjunct1, rule_format]) simp

theorem full_cycle_mirrors_server_witness:
  "fst (cycle_bytes text_json (fillRoutes new_registry 2 3) 7 (bench_request text_json (hit_path 2)) ()) =
    (case handleRequest text_json (\<lambda>r. new_router) (fillRoutes new_registry 2 3) 7
        (bench_request text_json (hit_path 2)) True False () of H \<Rightarrow>
       (case h_exc H of Some e \<Rightarrow> Inl e | None \<Rightarrow> Inr (wire (h_head H, h_body H))))"
proof -
  let ?r = "bench_request text_json (hit_path 2)"
  have r: "req_method ?r = ''GET''" "req_path ?r = hit_path 2" by (simp_all add: bench_request_def)
  have small: "body_length (setText (c_str ''x'') b) \<le> SIZE_MAX" for b :: "string http_body"
    by (simp add: body_length_def setText_def SIZE_MAX_def c_str_def)
  have "cycle_bytes text_json (fillRoutes new_registry 2 3) 7 ?r () =
    (case handleRequest text_json (\<lambda>r. new_router) (fillRoutes new_registry 2 3) 7 ?r True False () of H \<Rightarrow>
       ((case h_exc H of Some e \<Rightarrow> Inl e | None \<Rightarrow> Inr (wire (h_head H, h_body H))), h_world H))"
  proof (rule full_cycle_mirrors_server [where h = send_x])
    show "queue (fillRoutes new_registry 2 3) = []" by (simp add: fillRoutes_def numeral_2_eq_2 new_registry_def)
    show "resolve (fillRoutes new_registry 2 3) (req_method ?r) (req_path ?r) = Some send_x"
      unfolding r by (rule hit_resolves) simp
  qed (auto simp: send_x_def r small)
  then show ?thesis by simp
qed

end
