(* ===== verification/Bench_App.thy ===== *)
theory Bench_App
  imports Rest_Api Micro_Bench
begin

text \<open>
  The server under test of the benchmarks (\<open>bench/benchserver.cpp\<close>): filler routes in any number,
  probe routes that report what the parser produced, and a literal route beside a parameter at the
  same level. The world of its handlers is the time they have slept, in milliseconds.
\<close>

section \<open>Handlers\<close>

definition filler :: "('j, 'w) act" where
  "filler c = Ret (c\<lparr>res := send_cstr ''filler'' (res c)\<rparr>)"

definition plain :: "('j, 'w) act" where
  "plain = reply_string 200 ''hello''"

definition payload_of :: "nat \<Rightarrow> ('j, 'w) act" where
  "payload_of n = reply_string 200 (replicate n (CHR ''x''))"

definition json_page :: "'j json_lib \<Rightarrow> ('j, 'w) act" where
  "json_page J = reply_json J 200 (j_object J [(''ok'', j_bool J True), (''n'', j_int J 42)])"

definition user_id :: "'j json_lib \<Rightarrow> ('j, 'w) act" where
  "user_id J c =
     (let (i, c1) = param ''id'' c in reply_json J 200 (j_object J [(''id'', j_string J i)]) c1)"

definition echo_parsed :: "'j json_lib \<Rightarrow> ('j, 'w) act" where
  "echo_parsed J c =
     (let h = j_object J (strings_json J (req_headers (req c)));
          q = j_object J (strings_json J (query (req c))) in
      reply_json J 200 (j_object J
        [(''method'', j_string J (req_method (req c))), (''path'', j_string J (req_path (req c))),
         (''protocol'', j_string J (req_protocol (req c))), (''headers'', h), (''query'', q)]) c)"

definition echobody :: "'j json_lib \<Rightarrow> ('j, 'w) act" where
  "echobody J c =
     (let b = req_body (req c) in
      reply_json J 200 (j_object J
        [(''raw_len'', j_int J (int (length (raw_data b)))),
         (''raw_prefix'', j_string J (substr (raw_data b) 0 40)),
         (''is_json'', j_bool J (body_type b = JSON)),
         (''content_length_header'', j_string J
            (case smap_get (req_headers (req c)) ''Content-Length'' of Some v \<Rightarrow> v | None \<Rightarrow> []))]) c)"

definition files_name :: "'j json_lib \<Rightarrow> ('j, 'w) act" where
  "files_name J c =
     (let (name, c1) = param ''name'' c in
      reply_json J 200 (j_object J [(''matched'', j_string J ''param''), (''name'', j_string J name)]) c1)"

definition files_list :: "'j json_lib \<Rightarrow> ('j, 'w) act" where
  "files_list J = reply_json J 200 (j_object J [(''matched'', j_string J ''literal'')])"

definition slow :: "('j, nat) act" where
  "slow c = reply_string 200 ''slow'' (c\<lparr>world := world c + 500\<rparr>)"

section \<open>The application\<close>

definition filler_path :: "nat \<Rightarrow> string" where
  "filler_path i = ''/r'' @ nat_to_string i @ ''/seg1/seg2''"

definition bench_fill :: "nat \<Rightarrow> ('j, 'w) registry \<Rightarrow> ('j, 'w) registry" where
  "bench_fill nroutes reg = fold (\<lambda>i reg. GET reg (filler_path i) (Some filler)) [0..<nroutes] reg"

definition bench_middleware :: "nat \<Rightarrow> ('j, 'w) registry" where
  "bench_middleware nmw = fold (\<lambda>i reg. use_mw reg (UserMw pass_on)) [0..<nmw] new_registry"

definition bench_app :: "'j json_lib \<Rightarrow> nat \<Rightarrow> nat \<Rightarrow> ('j, nat) registry" where
  "bench_app J nroutes nmw =
     (let r0 = bench_fill nroutes (bench_middleware nmw);
          r1 = GET r0 ''/plain'' (Some plain);
          r2 = GET r1 ''/p1k'' (Some (payload_of 1024));
          r3 = GET r2 ''/p10k'' (Some (payload_of (10 * 1024)));
          r4 = GET r3 ''/p100k'' (Some (payload_of (100 * 1024)));
          r5 = GET r4 ''/json'' (Some (json_page J));
          r6 = GET r5 ''/users/:id'' (Some (user_id J));
          r7 = GET r6 ''/echo'' (Some (echo_parsed J));
          r8 = POST r7 ''/echobody'' (Some (echobody J));
          r9 = GET r8 ''/files/:name'' (Some (files_name J));
          r10 = GET r9 ''/files/archive/list'' (Some (files_list J)) in
      GET r10 ''/slow'' (Some slow))"

section \<open>Its table\<close>

lemma filler_path_fill: "filler_path i = fill_path i 3"
proof -
  have "[1..<3] = [1, 2 :: nat]" "seg_n 1 = ''seg1''" "seg_n 2 = ''seg2''" by code_simp+
  then show ?thesis by (simp add: filler_path_def fill_path_def)
qed

lemma filler_keys:
  "route_key ''GET'' (filler_path i) = map Lit (''GET:'' # route_n i # map seg_n [1..<3])"
  "route_key ''HEAD'' (filler_path i) = map Lit (''HEAD:'' # route_n i # map seg_n [1..<3])"
  unfolding filler_path_fill fill_path_segs(1)
  using key_of_segs_method [OF fill_path_segs(2), of "''GET''" i 3] key_of_segs_method [OF fill_path_segs(2), of "''HEAD''" i 3]
  by (simp_all add: method_ok_def)

lemma table_fold_GET:
  "table (fold (\<lambda>i reg. GET reg (pth i) (Some h)) xs reg) p =
     (if \<exists>i \<in> set xs. p = route_key ''GET'' (pth i) \<or> p = route_key ''HEAD'' (pth i) then Some h else table reg p)"
  by (induction xs arbitrary: reg) (auto simp: GET_def)

lemma place_fold_GET:
  "place (fold (\<lambda>i reg. GET reg (pth i) (Some h)) xs reg) p \<longleftrightarrow>
     place reg p \<or> (\<exists>i \<in> set xs. prefix p (route_key ''GET'' (pth i)) \<or> prefix p (route_key ''HEAD'' (pth i)))"
  by (induction xs arbitrary: reg) (auto simp: GET_def)

lemma bench_fill_other:
  assumes "\<forall>i. s \<noteq> Lit (route_n i)"
  shows "table (bench_fill n reg) (m # s # ps) = table reg (m # s # ps)"
  using assms unfolding bench_fill_def table_fold_GET filler_keys by auto

lemma bench_fill_short: "table (bench_fill n reg) [m] = table reg [m]"
  unfolding bench_fill_def table_fold_GET filler_keys by auto

lemma bench_fill_par: "table (bench_fill n reg) (Par # ps) = table reg (Par # ps)"
  unfolding bench_fill_def table_fold_GET filler_keys by auto

lemma bench_fill_place: "place (bench_fill n reg) (q @ [Par]) \<longleftrightarrow> place reg (q @ [Par])"
proof -
  have "\<not> prefix (q @ [Par]) (map Lit xs)" for xs by (auto simp: prefix_def map_eq_append_conv Cons_eq_map_conv)
  then show ?thesis unfolding bench_fill_def place_fold_GET filler_keys by (simp del: list.map)
qed

lemma table_bench_middleware [simp]: "table (bench_middleware nmw) = Map.empty"
  unfolding bench_middleware_def by (rule fold_invariant [where Q = "\<lambda>x. True" and P = "\<lambda>r. table r = Map.empty"])
    (simp_all add: use_mw_def)

lemma place_bench_middleware [simp]: "place (bench_middleware nmw) p \<longleftrightarrow> p = []"
proof -
  have "\<forall>p. place (bench_middleware nmw) p \<longleftrightarrow> p = []"
    unfolding bench_middleware_def by (rule fold_invariant [where Q = "\<lambda>x. True"]) (simp_all add: use_mw_def)
  then show ?thesis by blast
qed

lemma not_filler:
  "Par \<noteq> Lit (route_n i)" "Lit ''files'' \<noteq> Lit (route_n i)" "Lit ''users'' \<noteq> Lit (route_n i)"
  by (simp_all add: route_n_def)

lemma bench_keys:
  "route_key ''GET'' ''/plain'' = [Lit ''GET:'', Lit ''plain'']"
  "route_key ''HEAD'' ''/plain'' = [Lit ''HEAD:'', Lit ''plain'']"
  "route_key ''GET'' ''/p1k'' = [Lit ''GET:'', Lit ''p1k'']"
  "route_key ''HEAD'' ''/p1k'' = [Lit ''HEAD:'', Lit ''p1k'']"
  "route_key ''GET'' ''/p10k'' = [Lit ''GET:'', Lit ''p10k'']"
  "route_key ''HEAD'' ''/p10k'' = [Lit ''HEAD:'', Lit ''p10k'']"
  "route_key ''GET'' ''/p100k'' = [Lit ''GET:'', Lit ''p100k'']"
  "route_key ''HEAD'' ''/p100k'' = [Lit ''HEAD:'', Lit ''p100k'']"
  "route_key ''GET'' ''/json'' = [Lit ''GET:'', Lit ''json'']"
  "route_key ''HEAD'' ''/json'' = [Lit ''HEAD:'', Lit ''json'']"
  "route_key ''GET'' ''/users/:id'' = [Lit ''GET:'', Lit ''users'', Par]"
  "route_key ''HEAD'' ''/users/:id'' = [Lit ''HEAD:'', Lit ''users'', Par]"
  "route_key ''GET'' ''/echo'' = [Lit ''GET:'', Lit ''echo'']"
  "route_key ''HEAD'' ''/echo'' = [Lit ''HEAD:'', Lit ''echo'']"
  "route_key ''GET'' ''/files/:name'' = [Lit ''GET:'', Lit ''files'', Par]"
  "route_key ''HEAD'' ''/files/:name'' = [Lit ''HEAD:'', Lit ''files'', Par]"
  "route_key ''GET'' ''/files/archive/list'' = [Lit ''GET:'', Lit ''files'', Lit ''archive'', Lit ''list'']"
  "route_key ''HEAD'' ''/files/archive/list'' = [Lit ''HEAD:'', Lit ''files'', Lit ''archive'', Lit ''list'']"
  "route_key ''GET'' ''/slow'' = [Lit ''GET:'', Lit ''slow'']"
  "route_key ''HEAD'' ''/slow'' = [Lit ''HEAD:'', Lit ''slow'']"
  "route_key ''POST'' ''/echobody'' = [Lit ''POST:'', Lit ''echobody'']"
  by (simp_all add: segment_eval)

lemmas bench_table = bench_app_def Let_def GET_def POST_def bench_keys

lemma fill_files [simp]:
  "table (bench_fill n (bench_middleware k)) (m # Lit ''files'' # ps) = None"
  "table (bench_fill n (bench_middleware k)) (m # Par # ps) = None"
  "table (bench_fill n (bench_middleware k)) (Par # ps) = None"
  using not_filler by (simp_all add: bench_fill_other bench_fill_par)

lemma bench_files:
  "best (table (bench_app J n k)) [''GET:'', ''files'', v] = Some [Lit ''GET:'', Lit ''files'', Par]"
  "table (bench_app J n k) [Lit ''GET:'', Lit ''files'', Par] = Some (files_name J)"
  "best (table (bench_app J n k)) [''GET:'', ''files'', v, ''list''] =
     (if v = ''archive'' then Some [Lit ''GET:'', Lit ''files'', Lit ''archive'', Lit ''list''] else None)"
  "table (bench_app J n k) [Lit ''GET:'', Lit ''files'', Lit ''archive'', Lit ''list''] = Some (files_list J)"
  by (simp_all add: bench_table best_def)

definition bench_before_files :: "'j json_lib \<Rightarrow> nat \<Rightarrow> nat \<Rightarrow> ('j, nat) registry" where
  "bench_before_files J n k =
     POST (GET (GET (GET (GET (GET (GET (GET (bench_fill n (bench_middleware k)) ''/plain'' (Some plain))
       ''/p1k'' (Some (payload_of 1024))) ''/p10k'' (Some (payload_of (10 * 1024))))
       ''/p100k'' (Some (payload_of (100 * 1024)))) ''/json'' (Some (json_page J)))
       ''/users/:id'' (Some (user_id J))) ''/echo'' (Some (echo_parsed J))) ''/echobody'' (Some (echobody J))"

lemma bench_files_binds:
  "reg_binds (bench_app J n k) [Lit ''GET:'', Lit ''files'', Par] [''GET:'', ''files'', v] = [(''name'', v)]"
proof -
  let ?p = "[Lit ''GET:'', Lit ''files'', Par]"
  let ?g = "Register (bench_before_files J n k) ''GET'' ''/files/:name'' (Some (files_name J))"
  have "q @ [Par] = [Lit ''GET:'', Lit ''files''] @ [Par]" if "prefix (q @ [Par]) ?p" for q
    using that by (auto simp: prefix_def append_eq_Cons_conv Cons_eq_append_conv)
  moreover have "\<not> place (bench_before_files J n k) ([Lit ''GET:'', Lit ''files''] @ [Par])"
    using bench_fill_place [of n "bench_middleware k" "[Lit ''GET:'', Lit ''files'']"]
    by (simp add: bench_before_files_def GET_def POST_def bench_keys)
  ultimately have "own_names (bench_before_files J n k) ?p" unfolding own_names_def by metis
  then have "reg_binds ?g ?p [''GET:'', ''files'', v] = [(''name'', v)]"
    using reg_binds_Register_own [of "bench_before_files J n k" "''GET''" "''/files/:name''" "[''GET:'', ''files'', v]"]
    by (simp add: bench_keys) (simp add: segment_eval bound_params_def)
  then show ?thesis
    by (simp add: bench_app_def bench_before_files_def Let_def GET_def POST_def bench_keys)
qed

lemma binds_literals: "binds n (map Lit xs) vs = []"
  by (induction n "map Lit xs" vs arbitrary: xs rule: binds.induct) (auto split: option.split)

lemma files_segments:
  assumes "v \<noteq> []" and "SLASH \<notin> set v" and "NUL \<notin> set v"
  shows "route_segments ''GET'' (''/files/'' @ v) = [''GET:'', ''files'', v]"
    and "route_segments ''GET'' (''/files/'' @ v @ ''/list'') = [''GET:'', ''files'', v, ''list'']"
proof -
  have "split (join_path SLASH [''files'', v]) ''/'' = [''files'', v]"
    "split (join_path SLASH [''files'', v, ''list'']) ''/'' = [''files'', v, ''list'']"
    using split_join_path [of "[''files'', v]"] split_join_path [of "[''files'', v, ''list'']"] assms by simp_all
  then have "split (''files/'' @ v) ''/'' = [''files'', v]" "split (''files/'' @ v @ ''/list'') ''/'' = [''files'', v, ''list'']"
    using split_slash [of "''files/'' @ v"] split_slash [of "''files/'' @ v @ ''/list''"] by (simp_all add: join_path_def)
  then show "route_segments ''GET'' (''/files/'' @ v) = [''GET:'', ''files'', v]"
    "route_segments ''GET'' (''/files/'' @ v @ ''/list'') = [''GET:'', ''files'', v, ''list'']"
    using route_segments_slash [of "''GET''" "''files/'' @ v"] route_segments_slash [of "''GET''" "''files/'' @ v @ ''/list''"]
    by (simp_all add: method_ok_def)
qed

section \<open>Properties\<close>

text \<open>
  The backtracking probe: whatever the number of filler routes and middleware, a file name is
  served by the parameter route with the name bound (also the name \<open>archive\<close>, where the search has
  to leave the literal branch again), the longer literal path by the literal route with no
  parameter left over from the branch that was tried, and any other name in its place by nothing,
  with the request unchanged.
\<close>

theorem backtracking_probe:
  assumes "req_method r = ''GET''" and "v \<noteq> []" and "SLASH \<notin> set v" and "NUL \<notin> set v"
  shows "(req_path r = ''/files/'' @ v \<longrightarrow>
      getHandler (bench_app J n k) r = (Some (files_name J), r\<lparr>params := [(''name'', v)]\<rparr>)) \<and>
    (req_path r = ''/files/'' @ v @ ''/list'' \<longrightarrow>
      getHandler (bench_app J n k) r =
        (if v = ''archive'' then (Some (files_list J), r\<lparr>params := []\<rparr>) else (None, r)))"
proof (intro conjI impI)
  note segs = files_segments [OF assms(2-4)]
  let ?app = "bench_app J n k"
  show "getHandler ?app r = (Some (files_name J), r\<lparr>params := [(''name'', v)]\<rparr>)" if path: "req_path r = ''/files/'' @ v"
  proof -
    have best: "best (table ?app) (route_segments ''GET'' (''/files/'' @ v)) = Some [Lit ''GET:'', Lit ''files'', Par]"
      unfolding segs by (rule bench_files(1))
    have "resolve ?app ''GET'' (''/files/'' @ v) = Some (files_name J)"
      unfolding resolve_def by (simp only: best bench_files(2) Option.bind.simps)
    moreover have "bindings ?app ''GET'' (''/files/'' @ v) = [(''name'', v)]"
      using bindings_best [OF best] unfolding segs bench_files_binds by (simp add: smap_of_def)
    ultimately show ?thesis unfolding getHandler_resolve assms(1) path by simp
  qed
  show "getHandler ?app r = (if v = ''archive'' then (Some (files_list J), r\<lparr>params := []\<rparr>) else (None, r))"
    if path: "req_path r = ''/files/'' @ v @ ''/list''"
  proof (cases "v = ''archive''")
    case True
    let ?p = "[Lit ''GET:'', Lit ''files'', Lit ''archive'', Lit ''list'']"
    have best: "best (table ?app) (route_segments ''GET'' (''/files/'' @ v @ ''/list'')) = Some ?p"
      unfolding segs bench_files(3) using True by simp
    have "resolve ?app ''GET'' (''/files/'' @ v @ ''/list'') = Some (files_list J)"
      unfolding resolve_def by (simp only: best bench_files(4) Option.bind.simps)
    moreover have "bindings ?app ''GET'' (''/files/'' @ v @ ''/list'') = []"
      using bindings_best [OF best] binds_literals [of "root (trie ?app)" "[''GET:'', ''files'', ''archive'', ''list'']"]
      by (simp add: reg_binds_def smap_of_def)
    ultimately show ?thesis unfolding getHandler_resolve assms(1) path using True by simp
  next
    case False
    have "resolve ?app ''GET'' (''/files/'' @ v @ ''/list'') = None"
      unfolding resolve_def segs bench_files(3) using False by simp
    then show ?thesis unfolding getHandler_resolve assms(1) path using False by simp
  qed
qed

theorem backtracking_probe_witness:
  "getHandler (bench_app text_json 100 2) (get_request ''/files/archive'') =
     (Some (files_name text_json), (get_request ''/files/archive'')\<lparr>params := [(''name'', ''archive'')]\<rparr>)"
  using backtracking_probe [of "get_request ''/files/archive''" "''archive''" text_json 100 2] by simp

end
