(* ===== verification/Trie_Heap.thy ===== *)
theory Trie_Heap
  imports Routing_Trie
begin

text \<open>
  The trie as the code has it: nodes on the heap that point to each other (\<open>src/trie.cpp\<close>). The
  operations read and write cells through raw pointers, and reading a pointer to nothing, or deleting
  one, is undefined behaviour, the value \<^term>\<open>None\<close>. The theorem is that none of this happens:
  the heap always holds the tree of \<open>Routing_Trie\<close>, with one cell for each node, and the destructor
  frees every cell exactly once.
\<close>

section \<open>The heap\<close>

text \<open>A \<open>Node\<close>: \<open>children\<close> maps segments to pointers, \<open>paramChild\<close> may be null.\<close>

record 'h cell =
  c_value :: string
  c_leaf :: bool
  c_children :: "(string \<times> nat) list"
  c_param :: "nat option"
  c_handler :: "'h option"
  c_isparam :: bool
  c_pname :: string

text \<open>Addresses from \<open>nxt\<close> on have never been used.\<close>

record 'h heap =
  mem :: "nat \<Rightarrow> 'h cell option"
  nxt :: nat

text \<open>\<open>new Node(v)\<close>\<close>

definition new_cell :: "string \<Rightarrow> 'h cell" where
  "new_cell v =
     (if v \<noteq> [] \<and> hd v = COLON
      then \<lparr>c_value = v, c_leaf = False, c_children = [], c_param = None, c_handler = None, c_isparam = True, c_pname = tl v\<rparr>
      else \<lparr>c_value = v, c_leaf = False, c_children = [], c_param = None, c_handler = None, c_isparam = False, c_pname = []\<rparr>)"

definition alloc_cell :: "'h cell \<Rightarrow> 'h heap \<Rightarrow> nat \<times> 'h heap" where
  "alloc_cell c H = (nxt H, H\<lparr>mem := (mem H)(nxt H \<mapsto> c), nxt := nxt H + 1\<rparr>)"

definition store :: "nat \<Rightarrow> 'h cell \<Rightarrow> 'h heap \<Rightarrow> 'h heap" where
  "store p c H = H\<lparr>mem := (mem H)(p \<mapsto> c)\<rparr>"

section \<open>The operations\<close>

definition heap_insertChild :: "nat \<Rightarrow> string \<Rightarrow> 'h heap \<Rightarrow> (nat \<times> 'h heap) option" where
  "heap_insertChild p segment H =
     (if segment = [] then Some (p, H)
      else case mem H p of None \<Rightarrow> None
        | Some c \<Rightarrow>
            if hd segment = COLON then
              (case c_param c of
                 None \<Rightarrow> let (q, H1) = alloc_cell (new_cell segment) H in
                   Some (q, store p (c\<lparr>c_param := Some q, c_leaf := False\<rparr>) H1)
               | Some q \<Rightarrow> Some (q, H))
            else
              (case map_of (c_children c) segment of
                 Some q \<Rightarrow> Some (q, H)
               | None \<Rightarrow> let (q, H1) = alloc_cell (new_cell segment) H in
                   Some (q, store p (c\<lparr>c_children := c_children c @ [(segment, q)], c_leaf := False\<rparr>) H1)))"

fun heap_insert_segments :: "nat \<Rightarrow> string list \<Rightarrow> 'h option \<Rightarrow> 'h heap \<Rightarrow> 'h heap option" where
  "heap_insert_segments p [] func H =
     (case mem H p of None \<Rightarrow> None | Some c \<Rightarrow> Some (store p (c\<lparr>c_leaf := True, c_handler := func\<rparr>) H))"
| "heap_insert_segments p (segment # segments) func H =
     (case heap_insertChild p segment H of None \<Rightarrow> None
      | Some (q, H1) \<Rightarrow> heap_insert_segments q segments func H1)"

definition heap_node_insert :: "nat \<Rightarrow> string \<Rightarrow> 'h option \<Rightarrow> 'h heap \<Rightarrow> 'h heap option" where
  "heap_node_insert cur path func H = heap_insert_segments cur (split path ''/'') func H"

text \<open>The search returns a pointer to the node, or null, and the parameters.\<close>

fun heap_findFrom :: "(nat \<Rightarrow> 'h cell option) \<Rightarrow> nat \<Rightarrow> string list \<Rightarrow> strmap \<Rightarrow> (nat option \<times> strmap) option" where
  "heap_findFrom m p [] params =
     (case m p of None \<Rightarrow> None | Some c \<Rightarrow> Some (if c_handler c \<noteq> None then Some p else None, params))"
| "heap_findFrom m p (segment # segments) params =
     (case m p of None \<Rightarrow> None
      | Some c \<Rightarrow>
          (case (case map_of (c_children c) segment of
                   Some q \<Rightarrow> heap_findFrom m q segments params
                 | None \<Rightarrow> Some (None, params)) of
             None \<Rightarrow> None
           | Some (Some hit, params1) \<Rightarrow> Some (Some hit, params1)
           | Some (None, params1) \<Rightarrow>
               (case c_param c of None \<Rightarrow> Some (None, params1)
                | Some q \<Rightarrow>
                    (case m q of None \<Rightarrow> None
                     | Some child \<Rightarrow>
                         let name = c_pname child; previous = smap_get params1 name in
                         (case heap_findFrom m q segments (smap_set name segment params1) of
                            None \<Rightarrow> None
                          | Some (Some hit, params2) \<Rightarrow> Some (Some hit, params2)
                          | Some (None, params2) \<Rightarrow>
                              Some (None, case previous of
                                            Some saved \<Rightarrow> smap_set name saved params2
                                          | None \<Rightarrow> smap_erase name params2))))))"

definition heap_node_find :: "(nat \<Rightarrow> 'h cell option) \<Rightarrow> nat \<Rightarrow> string \<Rightarrow> strmap \<Rightarrow> (nat option \<times> strmap) option" where
  "heap_node_find m p path params = heap_findFrom m p (split path ''/'') params"

text \<open>
  \<open>delete p\<close>: the destructor deletes the children and the parameter child, then the cell is freed.
  The first argument bounds the depth of the recursion.
\<close>

fun delete_node :: "nat \<Rightarrow> nat \<Rightarrow> 'h heap \<Rightarrow> 'h heap option"
  and delete_nodes :: "nat \<Rightarrow> nat list \<Rightarrow> 'h heap \<Rightarrow> 'h heap option" where
  "delete_node 0 p H = None"
| "delete_node (Suc n) p H =
     (case mem H p of None \<Rightarrow> None
      | Some c \<Rightarrow>
          (case delete_nodes n (map snd (c_children c) @ (case c_param c of None \<Rightarrow> [] | Some q \<Rightarrow> [q])) H of
             None \<Rightarrow> None
           | Some H1 \<Rightarrow> Some (H1\<lparr>mem := (mem H1)(p := None)\<rparr>)))"
| "delete_nodes n [] H = Some H"
| "delete_nodes n (q # qs) H =
     (case delete_node n q H of None \<Rightarrow> None | Some H1 \<Rightarrow> delete_nodes n qs H1)"

text \<open>\<open>Trie\<close>: the root is made by the constructor, \<open>~Trie\<close> deletes it.\<close>

definition heap_trie :: "'h heap" where
  "heap_trie =
     \<lparr>mem = [0 \<mapsto> \<lparr>c_value = [], c_leaf = True, c_children = [], c_param = None, c_handler = None,
                   c_isparam = False, c_pname = []\<rparr>], nxt = 1\<rparr>"

fun heap_insert_all :: "(string \<times> 'h option) list \<Rightarrow> 'h heap \<Rightarrow> 'h heap option" where
  "heap_insert_all [] H = Some H"
| "heap_insert_all ((path, h) # rs) H =
     (case heap_node_insert 0 path h H of None \<Rightarrow> None | Some H1 \<Rightarrow> heap_insert_all rs H1)"

section \<open>Trees with addresses\<close>

datatype 'h atree =
  ANode (addr: nat) (a_value: string) (a_leaf: bool) (a_children: "(string \<times> 'h atree) list")
    (a_param: "'h atree option") (a_handler: "'h option") (a_isparam: bool) (a_pname: string)

primrec erase :: "'h atree \<Rightarrow> 'h node" where
  "erase (ANode a v l cs pc h i n) = Node v l (map (map_prod id erase) cs) (map_option erase pc) h i n"

primrec addrs :: "'h atree \<Rightarrow> nat list" where
  "addrs (ANode a v l cs pc h i n) =
     a # concat (map snd (map (map_prod id addrs) cs)) @ (case map_option addrs pc of None \<Rightarrow> [] | Some as \<Rightarrow> as)"

definition cell_of :: "'h atree \<Rightarrow> 'h cell" where
  "cell_of t =
     \<lparr>c_value = a_value t, c_leaf = a_leaf t, c_children = map (map_prod id addr) (a_children t),
      c_param = map_option addr (a_param t), c_handler = a_handler t, c_isparam = a_isparam t, c_pname = a_pname t\<rparr>"

lemma cell_of_ANode:
  "cell_of (ANode a v l cs pc h i n) =
     \<lparr>c_value = v, c_leaf = l, c_children = map (map_prod id addr) cs, c_param = map_option addr pc,
      c_handler = h, c_isparam = i, c_pname = n\<rparr>"
  by (simp add: cell_of_def)

definition kids :: "'h atree \<Rightarrow> 'h atree list" where
  "kids t = map snd (a_children t) @ (case a_param t of None \<Rightarrow> [] | Some p \<Rightarrow> [p])"

lemma kids_ANode:
  "kids (ANode a v l cs pc h i n) = map snd cs @ (case pc of None \<Rightarrow> [] | Some p \<Rightarrow> [p])"
  by (simp add: kids_def)

lemma addrs_kids: "addrs t = addr t # concat (map addrs (kids t))"
  by (cases t) (auto simp: kids_def comp_def map_prod_def case_prod_beta split: option.splits)

lemma kids_smaller: "s \<in> set (kids t) \<Longrightarrow> size s < size t"
proof (cases t)
  case (ANode a v l cs pc h i n)
  assume "s \<in> set (kids t)"
  then consider x where "(x, s) \<in> set cs" | "pc = Some s"
    by (auto simp: ANode kids_def split: option.splits)
  then show ?thesis
  proof cases
    case 1
    have "size s \<le> size_list (size_prod (\<lambda>x. 0) size) cs"
      using 1 by (intro size_list_estimation' [OF 1]) simp
    then show ?thesis by (simp add: ANode)
  next
    case 2
    then show ?thesis by (simp add: ANode)
  qed
qed

lemma kids_induct [case_names kids]:
  assumes "\<And>t. (\<And>s. s \<in> set (kids t) \<Longrightarrow> P s) \<Longrightarrow> P t"
  shows "P (t :: 'h atree)"
  by (induction t rule: measure_induct_rule [of size]) (blast intro: assms kids_smaller)

text \<open>The heap holds the tree: every node has its cell.\<close>

function placed :: "(nat \<Rightarrow> 'h cell option) \<Rightarrow> 'h atree \<Rightarrow> bool" where
  "placed m t \<longleftrightarrow> m (addr t) = Some (cell_of t) \<and> (\<forall>s \<in> set (kids t). placed m s)"
  by pat_completeness auto
termination by (relation "measure (\<lambda>(m, t). size t)") (auto dest: kids_smaller)

declare placed.simps [simp del]

lemma placed_root: "placed m t \<Longrightarrow> m (addr t) = Some (cell_of t)"
  by (simp add: placed.simps [of m t])

lemma placed_leaf: "kids t = [] \<Longrightarrow> placed m t \<longleftrightarrow> m (addr t) = Some (cell_of t)"
  by (simp add: placed.simps [of m t])

lemma placed_cong: "(\<And>a. a \<in> set (addrs t) \<Longrightarrow> m' a = m a) \<Longrightarrow> placed m' t = placed m t"
proof (induction t rule: kids_induct)
  case (kids t)
  then have "placed m' s = placed m s" if "s \<in> set (kids t)" for s
    using that by (auto simp: addrs_kids [of t])
  moreover have "m' (addr t) = m (addr t)" using kids.prems by (simp add: addrs_kids [of t])
  ultimately show ?case by (simp add: placed.simps [of _ t])
qed

section \<open>A heap that holds a tree and nothing beyond the used addresses\<close>

definition intact :: "'h heap \<Rightarrow> 'h atree \<Rightarrow> bool" where
  "intact H t \<longleftrightarrow>
     placed (mem H) t \<and> distinct (addrs t) \<and> (\<forall>a \<in> set (addrs t). a < nxt H) \<and> (\<forall>a \<ge> nxt H. mem H a = None)"

text \<open>A tree grows in place: it keeps its address, takes the new cells, and nothing else changes.\<close>

definition grows :: "'h heap \<Rightarrow> 'h atree \<Rightarrow> 'h heap \<Rightarrow> 'h atree \<Rightarrow> bool" where
  "grows H t H' t' \<longleftrightarrow>
     addr t' = addr t \<and> intact H' t' \<and> nxt H \<le> nxt H' \<and> set (addrs t') = set (addrs t) \<union> {nxt H..<nxt H'} \<and>
     (\<forall>a < nxt H. a \<notin> set (addrs t) \<longrightarrow> mem H' a = mem H a)"

lemma grows_intact: "grows H t H' t' \<Longrightarrow> intact H' t'"
  by (simp add: grows_def)

lemma grows_trans:
  assumes "grows H t H1 t1" and "grows H1 t1 H2 t2"
  shows "grows H t H2 t2"
  using assms unfolding grows_def by (auto simp: ivl_disj_un)

lemma intact_kid:
  assumes "intact H t" and "s \<in> set (kids t)"
  shows "intact H s"
proof -
  have "distinct (addrs s)" using assms by (auto simp: intact_def addrs_kids [of t] distinct_concat_iff)
  moreover have "placed (mem H) s" using assms placed.simps [of _ t] by (auto simp: intact_def)
  ultimately show ?thesis using assms by (auto simp: intact_def addrs_kids [of t])
qed

text \<open>Addresses that were taken before are none of the new ones.\<close>

lemma distinct_grown:
  assumes "distinct (a # as @ cs @ bs)" and "\<forall>x \<in> set (a # as @ cs @ bs). x < (n :: nat)" and "distinct cs'"
    and "set cs' = set cs \<union> {n..<n'}"
  shows "distinct (a # as @ cs' @ bs)"
proof -
  have low: "A \<inter> {n..<n'} = {}" if "A \<subseteq> set (a # as @ cs @ bs)" for A
    using assms(2) that by (meson atLeastLessThan_iff disjoint_iff not_le subsetD)
  have "set as \<inter> {n..<n'} = {}" "set bs \<inter> {n..<n'} = {}" "{a} \<inter> {n..<n'} = {}" by (rule low; auto)+
  with assms(1,3) show ?thesis unfolding distinct.simps distinct_append set_append assms(4) by blast
qed

lemma grows_kid:
  assumes "intact H t" and "kids t = us @ c # vs" and "grows H c H' c'"
    and "kids t' = us @ c' # vs" and "addr t' = addr t" and "cell_of t' = cell_of t"
  shows "grows H t H' t'"
proof -
  let ?A = "\<lambda>ts. set (concat (map addrs ts))"
  have t: "addrs t = addr t # concat (map addrs us) @ addrs c @ concat (map addrs vs)"
    "addrs t' = addr t # concat (map addrs us) @ addrs c' @ concat (map addrs vs)"
    using assms(2,4,5) by (simp_all add: addrs_kids [of t] addrs_kids [of t'])
  have old: "placed (mem H) t" "distinct (addrs t)" "\<forall>a \<in> set (addrs t). a < nxt H"
    using assms(1) by (simp_all add: intact_def)
  have c: "intact H' c'" "nxt H \<le> nxt H'" "set (addrs c') = set (addrs c) \<union> {nxt H..<nxt H'}"
    "\<forall>a < nxt H. a \<notin> set (addrs c) \<longrightarrow> mem H' a = mem H a"
    using assms(3) by (auto simp: grows_def)
  have apart: "mem H' a = mem H a" if "a \<in> set (addrs t)" "a \<notin> set (addrs c)" for a
    using old(3) c(4) that by blast
  have "placed (mem H') s" if "s \<in> set us \<union> set vs" for s
  proof -
    have "set (addrs s) \<inter> set (addrs c) = {}" "set (addrs s) \<subseteq> set (addrs t)"
      using old(2) that unfolding t(1) by auto
    then have "placed (mem H') s = placed (mem H) s" by (intro placed_cong apart) auto
    moreover have "placed (mem H) s" using old(1) that assms(2) by (auto simp: placed.simps [of _ t])
    ultimately show ?thesis by simp
  qed
  moreover have "placed (mem H') c'" using c(1) by (simp add: intact_def)
  moreover have "mem H' (addr t) = mem H (addr t)" using old(2) by (intro apart) (auto simp: t(1))
  then have "mem H' (addr t') = Some (cell_of t')"
    using old(1) assms(5,6) by (simp add: placed.simps [of _ t])
  ultimately have "placed (mem H') t'" using assms(4) by (auto simp: placed.simps [of _ t'])
  moreover have "distinct (addrs t')"
    using distinct_grown [OF old(2,3) [unfolded t(1)] _ c(3)] c(1) unfolding t(2) intact_def by blast
  moreover have sets: "set (addrs t') = set (addrs t) \<union> {nxt H..<nxt H'}"
    unfolding t set_append list.set(2) c(3) by blast
  moreover have "\<forall>a \<in> set (addrs t'). a < nxt H'"
    using old(3) c(2) unfolding sets by auto
  moreover have "\<forall>a \<ge> nxt H'. mem H' a = None" using c(1) by (simp add: intact_def)
  ultimately have "intact H' t'" by (simp add: intact_def)
  moreover have "a \<notin> set (addrs c)" if "a \<notin> set (addrs t)" for a using that unfolding t(1) by simp
  ultimately show ?thesis using c(2,4) assms(5) sets unfolding grows_def by blast
qed

lemma grows_new_kid:
  assumes "intact H t" and "kids t = us @ vs" and "kids t' = us @ c # vs" and "addr t' = addr t"
    and "addr c = nxt H" and "kids c = []"
    and "H' = H\<lparr>mem := (mem H)(nxt H \<mapsto> cell_of c, addr t \<mapsto> cell_of t'), nxt := nxt H + 1\<rparr>"
  shows "grows H t H' t'"
proof -
  have t: "addrs t = addr t # concat (map addrs us) @ concat (map addrs vs)"
    "addrs t' = addr t # concat (map addrs us) @ nxt H # concat (map addrs vs)"
    using assms(2-6) by (simp_all add: addrs_kids [of t] addrs_kids [of t'] addrs_kids [of c])
  have old: "placed (mem H) t" "distinct (addrs t)" "\<forall>a \<in> set (addrs t). a < nxt H" "\<forall>a \<ge> nxt H. mem H a = None"
    using assms(1) by (simp_all add: intact_def)
  have less: "addr t < nxt H" using old(3) by (simp add: t(1))
  have "placed (mem H') s" if "s \<in> set us \<union> set vs" for s
  proof -
    have "addr t \<notin> set (addrs s)" "nxt H \<notin> set (addrs s)"
      using old(2,3) that unfolding t(1) by auto
    then have "placed (mem H') s = placed (mem H) s" by (intro placed_cong) (auto simp: assms(7))
    moreover have "placed (mem H) s" using old(1) that assms(2) by (auto simp: placed.simps [of _ t])
    ultimately show ?thesis by simp
  qed
  moreover have "placed (mem H') c" using assms(5-7) less by (simp add: placed.simps [of _ c])
  ultimately have "placed (mem H') t'" using assms(3,4,7) by (auto simp: placed.simps [of _ t'])
  moreover have "distinct (addrs t')" using old(2,3) unfolding t by auto
  moreover have sets: "set (addrs t') = insert (nxt H) (set (addrs t))" unfolding t by auto
  ultimately have "intact H' t'" using old(3,4) less by (auto simp: intact_def assms(7) less_SucI)
  moreover have "addr t \<in> set (addrs t)" by (simp add: t(1))
  ultimately show ?thesis using assms(4) sets unfolding grows_def by (auto simp: assms(7))
qed

lemma grows_root:
  assumes "intact H t" and "kids t' = kids t" and "addr t' = addr t" and "H' = store (addr t) (cell_of t') H"
  shows "grows H t H' t'"
proof -
  have old: "placed (mem H) t" "distinct (addrs t)" "\<forall>a \<in> set (addrs t). a < nxt H" "\<forall>a \<ge> nxt H. mem H a = None"
    using assms(1) by (simp_all add: intact_def)
  have same: "addrs t' = addrs t" using assms(2,3) by (simp add: addrs_kids [of t] addrs_kids [of t'])
  have root: "addr t \<in> set (addrs t)" by (simp add: addrs_kids [of t])
  have "placed (mem H') s" if "s \<in> set (kids t)" for s
  proof -
    have "addr t \<notin> set (addrs s)" using old(2) that by (auto simp: addrs_kids [of t])
    then have "placed (mem H') s = placed (mem H) s" by (intro placed_cong) (auto simp: assms(4) store_def)
    then show ?thesis using old(1) that by (auto simp: placed.simps [of _ t])
  qed
  then have "placed (mem H') t'" using assms(2-4) by (simp add: placed.simps [of _ t'] store_def)
  then show ?thesis using old root assms(3,4) unfolding grows_def intact_def same by (auto simp: store_def)
qed

section \<open>Insertion\<close>

text \<open>The node that \<open>new Node(segment)\<close> makes.\<close>

definition new_anode :: "nat \<Rightarrow> string \<Rightarrow> 'h atree" where
  "new_anode a s =
     (if s \<noteq> [] \<and> hd s = COLON then ANode a s False [] None None True (tl s) else ANode a s False [] None None False [])"

lemma new_anode_simps [simp]:
  "addr (new_anode a s) = a" "kids (new_anode a s) = []" "erase (new_anode a s) = new_node s"
  "cell_of (new_anode a s) = new_cell s"
  by (simp_all add: new_anode_def kids_def new_node_def cell_of_def new_cell_def)

lemma map_of_SomeE:
  assumes "map_of xs k = Some v"
  obtains us vs where "xs = us @ (k, v) # vs" "k \<notin> fst ` set us"
  using assms
proof (induction xs arbitrary: thesis)
  case (Cons x xs)
  show ?case
  proof (cases "fst x = k")
    case True
    with Cons.prems show ?thesis by (cases x) (auto intro!: Cons.prems(1) [of "[]" xs])
  next
    case False
    with Cons.prems(2) have "map_of xs k = Some v" by (cases x) auto
    then obtain us vs where "xs = us @ (k, v) # vs" "k \<notin> fst ` set us" using Cons.IH by blast
    with False show ?thesis by (intro Cons.prems(1) [of "x # us" vs]) auto
  qed
qed simp

lemma AList_update_here: "k \<notin> fst ` set us \<Longrightarrow> AList.update k w (us @ (k, v) # vs) = us @ (k, w) # vs"
  by (induction us) auto

lemma AList_update_new: "map_of xs k = None \<Longrightarrow> AList.update k w xs = xs @ [(k, w)]"
  by (induction xs) (auto split: if_splits)

text \<open>
  Inserting into a child, which is new or was there before. The function \<open>f\<close> puts the child into its
  place in the node.
\<close>

definition inserts :: "string list \<Rightarrow> 'h option \<Rightarrow> 'h heap \<Rightarrow> 'h atree \<Rightarrow> bool" where
  "inserts ss func H t \<longleftrightarrow>
     (\<exists>H' t'. heap_insert_segments (addr t) ss func H = Some H' \<and> grows H t H' t' \<and>
        erase t' = insert_segments (erase t) ss func)"

definition place_for :: "'h atree \<Rightarrow> 'h atree list \<Rightarrow> 'h atree list \<Rightarrow> ('h atree \<Rightarrow> 'h atree) \<Rightarrow> bool" where
  "place_for t us vs f \<longleftrightarrow>
     (\<forall>c. addr (f c) = addr t \<and> kids (f c) = us @ c # vs) \<and> (\<forall>c c'. addr c = addr c' \<longrightarrow> cell_of (f c) = cell_of (f c'))"

lemma place_kid: "place_for t us vs f \<Longrightarrow> c \<in> set (kids (f c))"
  by (simp add: place_for_def)

lemma place_grows:
  assumes "place_for t us vs f" and "intact H (f c)" and "grows H c H' c'"
  shows "grows H (f c) H' (f c')"
proof (rule grows_kid [OF assms(2) _ assms(3)])
  show "kids (f c) = us @ c # vs" "kids (f c') = us @ c' # vs" "addr (f c') = addr (f c)"
    using assms(1) by (simp_all add: place_for_def)
  show "cell_of (f c') = cell_of (f c)" using assms(1,3) unfolding place_for_def grows_def by blast
qed

lemma insert_new_kid:
  assumes "intact H t" and "kids t = us @ vs" and "place_for t us vs f"
    and "heap_insertChild (addr t) s H = Some (nxt H,
      H\<lparr>mem := (mem H)(nxt H \<mapsto> new_cell s, addr t \<mapsto> cell_of (f (new_anode (nxt H) s))), nxt := nxt H + 1\<rparr>)"
    and rest: "\<And>G c. intact G c \<Longrightarrow> inserts ss func G c"
    and "\<And>c. erase c = insert_segments (new_node s) ss func \<Longrightarrow> erase (f c) = insert_segments (erase t) (s # ss) func"
  shows "inserts (s # ss) func H t"
proof -
  let ?new = "new_anode (nxt H) s"
  let ?H = "H\<lparr>mem := (mem H)(nxt H \<mapsto> cell_of ?new, addr t \<mapsto> cell_of (f ?new)), nxt := nxt H + 1\<rparr>"
  have grow: "grows H t ?H (f ?new)"
    using assms(3) by (intro grows_new_kid [OF assms(1,2), where c = ?new]) (simp_all add: place_for_def)
  then have placed: "intact ?H (f ?new)" by (rule grows_intact)
  then have "intact ?H ?new" using place_kid [OF assms(3)] by (rule intact_kid)
  from rest [OF this] obtain H2 c where c: "heap_insert_segments (nxt H) ss func ?H = Some H2"
    "grows ?H ?new H2 c" "erase c = insert_segments (new_node s) ss func" by (auto simp: inserts_def)
  have "grows H t H2 (f c)" using grow place_grows [OF assms(3) placed c(2)] by (rule grows_trans)
  then show ?thesis using c assms(4,6) unfolding inserts_def by (intro exI [of _ H2] exI [of _ "f c"]) simp
qed

lemma insert_old_kid:
  assumes "intact H (f p)" and "place_for (f p) us vs f" and "heap_insertChild (addr (f p)) s H = Some (addr p, H)"
    and rest: "\<And>G c. intact G c \<Longrightarrow> inserts ss func G c"
    and "\<And>c. erase c = insert_segments (erase p) ss func \<Longrightarrow> erase (f c) = insert_segments (erase (f p)) (s # ss) func"
  shows "inserts (s # ss) func H (f p)"
proof -
  have "intact H p" using assms(1) place_kid [OF assms(2)] by (rule intact_kid)
  from rest [OF this] obtain H2 c where c: "heap_insert_segments (addr p) ss func H = Some H2"
    "grows H p H2 c" "erase c = insert_segments (erase p) ss func" by (auto simp: inserts_def)
  have "grows H (f p) H2 (f c)" using assms(2,1) c(2) by (rule place_grows)
  then show ?thesis using c assms(3,5) unfolding inserts_def by (intro exI [of _ H2] exI [of _ "f c"]) simp
qed

lemma insert_here:
  assumes "intact H t"
  shows "inserts [] func H t"
proof -
  obtain a v l cs pc h i n where t: "t = ANode a v l cs pc h i n" by (cases t)
  let ?t = "ANode a v True cs pc func i n"
  have "mem H (addr t) = Some (cell_of t)" using assms by (simp add: intact_def placed_root)
  moreover have "grows H t (store (addr t) (cell_of ?t) H) ?t"
    by (rule grows_root [OF assms]) (simp_all add: t kids_ANode)
  moreover have "(cell_of t)\<lparr>c_leaf := True, c_handler := func\<rparr> = cell_of ?t" by (simp add: t cell_of_ANode)
  ultimately show ?thesis unfolding inserts_def
    by (intro exI [of _ "store (addr t) (cell_of ?t) H"] exI [of _ ?t]) (simp add: t)
qed

lemma insert_old_literal:
  assumes "intact H (ANode a v l cs pc h i n)" and "map_of cs s = Some c" and "s \<noteq> []" and "hd s \<noteq> COLON"
    and IH: "\<And>H t. intact H t \<Longrightarrow> inserts ss func H t"
  shows "inserts (s # ss) func H (ANode a v l cs pc h i n)"
proof -
  let ?t = "ANode a v l cs pc h i n" and ?vs = "case pc of None \<Rightarrow> [] | Some p \<Rightarrow> [p]"
  have "placed (mem H) ?t" using assms(1) unfolding intact_def by blast
  then have cell: "mem H (addr ?t) = Some (cell_of ?t)" by (rule placed_root)
  obtain us vs where cs: "cs = us @ (s, c) # vs" "s \<notin> fst ` set us" using assms(2) by (rule map_of_SomeE)
  let ?f = "\<lambda>c. ANode a v l (us @ (s, c) # vs) pc h i n"
  have f: "?f c = ?t" by (simp add: cs(1))
  have "s \<notin> fst ` set (map (map_prod id erase) us)" using cs(2) by force
  then have update: "AList.update s (erase d) (map (map_prod id erase) cs) = map (map_prod id erase) (us @ (s, d) # vs)" for d
    by (simp add: cs(1) AList_update_here)
  have "inserts (s # ss) func H (?f c)"
  proof (rule insert_old_kid [where f = ?f and us = "map snd us" and vs = "map snd vs @ ?vs"])
    show "intact H (?f c)" unfolding f by (rule assms(1))
    show "place_for (?f c) (map snd us) (map snd vs @ ?vs) ?f" by (simp add: place_for_def kids_ANode cell_of_ANode)
    show "heap_insertChild (addr (?f c)) s H = Some (addr c, H)"
      unfolding f using cell assms(2-4) by (simp add: cell_of_ANode heap_insertChild_def)
    show "erase (?f d) = insert_segments (erase (?f c)) (s # ss) func" if "erase d = insert_segments (erase c) ss func" for d
      unfolding f using assms(2-4) update [of d] by (simp add: that [symmetric])
  qed (rule IH)
  then show ?thesis unfolding f .
qed

lemma heap_insert_refines: "intact H t \<Longrightarrow> inserts ss func H t"
proof (induction ss arbitrary: H t)
  case Nil
  then show ?case by (rule insert_here)
next
  case (Cons s ss)
  obtain a v l cs pc h i n where t: "t = ANode a v l cs pc h i n" by (cases t)
  have cell: "mem H (addr t) = Some (cell_of t)" using Cons.prems by (simp add: intact_def placed_root)
  let ?vs = "case pc of None \<Rightarrow> [] | Some p \<Rightarrow> [p]"
  consider "s = []" | (par_new) "s \<noteq> []" "hd s = COLON" "pc = None" | (par) p where "s \<noteq> []" "hd s = COLON" "pc = Some p"
    | (lit_new) "s \<noteq> []" "hd s \<noteq> COLON" "map_of cs s = None" | (lit) c where "s \<noteq> []" "hd s \<noteq> COLON" "map_of cs s = Some c"
    by (cases pc; cases "map_of cs s") auto
  then show ?case
  proof cases
    case 1
    with Cons.IH [OF Cons.prems] show ?thesis by (simp add: inserts_def heap_insertChild_def t)
  next
    case par_new
    show ?thesis
      by (rule insert_new_kid [OF Cons.prems, where f = "\<lambda>c. ANode a v False cs (Some c) h i n" and us = "map snd cs" and vs = "[]"])
        (use cell par_new Cons.IH in \<open>cases H; simp add: t place_for_def kids_ANode cell_of_ANode heap_insertChild_def
          alloc_cell_def store_def\<close>)+
  next
    case par
    have "inserts (s # ss) func H (ANode a v l cs (Some p) h i n)"
      by (rule insert_old_kid [where f = "\<lambda>c. ANode a v l cs (Some c) h i n" and us = "map snd cs" and vs = "[]"])
        (use cell par Cons.IH Cons.prems in \<open>simp add: t place_for_def kids_ANode cell_of_ANode heap_insertChild_def\<close>)+
    then show ?thesis by (simp add: t par)
  next
    case lit_new
    show ?thesis
      by (rule insert_new_kid [OF Cons.prems, where f = "\<lambda>c. ANode a v False (cs @ [(s, c)]) pc h i n" and us = "map snd cs" and vs = ?vs])
        (use cell lit_new Cons.IH in \<open>cases H; simp add: t place_for_def kids_ANode cell_of_ANode heap_insertChild_def
          alloc_cell_def store_def AList_update_new\<close>)+
  next
    case lit
    with Cons.IH Cons.prems show ?thesis unfolding t by (intro insert_old_literal)
  qed
qed

section \<open>Search\<close>

text \<open>What the search hands back: a pointer to the cell of a node, or null.\<close>

definition points_to :: "(nat \<Rightarrow> 'h cell option) \<Rightarrow> nat option \<Rightarrow> 'h node option \<Rightarrow> bool" where
  "points_to m r n \<longleftrightarrow> r = None \<and> n = None \<or> (\<exists>s. r = Some (addr s) \<and> placed m s \<and> n = Some (erase s))"

lemma points_to_simps [simp]:
  "points_to m None n \<longleftrightarrow> n = None" "points_to m r None \<longleftrightarrow> r = None"
  by (auto simp: points_to_def)

lemma points_to_handler: "points_to m r n \<Longrightarrow> Option.bind r (\<lambda>q. map_option c_handler (m q)) = map_option handler n"
proof -
  have "handler (erase s) = a_handler s" for s :: "'a atree" by (cases s) simp
  moreover assume "points_to m r n"
  ultimately show ?thesis by (auto simp: points_to_def cell_of_def dest!: placed_root)
qed

text \<open>One step of the two searches, by the outcome of the literal branch.\<close>

lemma findFrom_step:
  assumes "(case map_of (children n) s of Some c \<Rightarrow> findFrom c ss ps | None \<Rightarrow> (None, ps)) = (hit, ps1)"
  shows "hit \<noteq> None \<or> paramChild n = None \<Longrightarrow> findFrom n (s # ss) ps = (hit, ps1)"
    and "hit = None \<Longrightarrow> paramChild n = Some d \<Longrightarrow>
      findFrom d ss (smap_set (parameterName d) s ps1) = (hit2, ps2) \<Longrightarrow>
      findFrom n (s # ss) ps = (hit2, if hit2 \<noteq> None then ps2
        else case smap_get ps1 (parameterName d) of
            Some saved \<Rightarrow> smap_set (parameterName d) saved ps2 | None \<Rightarrow> smap_erase (parameterName d) ps2)"
  unfolding findFrom.simps(2) assms
  by (cases hit; simp; fail) (cases hit2; simp add: Let_def; fail)

lemma heap_findFrom_step:
  assumes "(case map_of (c_children c) s of Some q \<Rightarrow> heap_findFrom m q ss ps | None \<Rightarrow> Some (None, ps)) = Some (r, ps1)"
    and "m p = Some c"
  shows "r \<noteq> None \<or> c_param c = None \<Longrightarrow> heap_findFrom m p (s # ss) ps = Some (r, ps1)"
    and "r = None \<Longrightarrow> c_param c = Some q \<Longrightarrow> m q = Some d \<Longrightarrow>
      heap_findFrom m q ss (smap_set (c_pname d) s ps1) = Some (r2, ps2) \<Longrightarrow>
      heap_findFrom m p (s # ss) ps = Some (r2, if r2 \<noteq> None then ps2
        else case smap_get ps1 (c_pname d) of
            Some saved \<Rightarrow> smap_set (c_pname d) saved ps2 | None \<Rightarrow> smap_erase (c_pname d) ps2)"
  unfolding heap_findFrom.simps(2) assms(2) option.case assms(1)
  by (cases r; simp; fail) (cases r2; simp add: Let_def; fail)

lemma findFrom_param_refines:
  assumes "placed m t" and "paramChild (erase t) = Some (erase p)" and "c_param (cell_of t) = Some (addr p)" and "placed m p"
    and lit: "(case map_of (c_children (cell_of t)) s of Some q \<Rightarrow> heap_findFrom m q ss params | None \<Rightarrow> Some (None, params)) =
      Some (None, ps1)"
    and lit': "(case map_of (children (erase t)) s of Some c \<Rightarrow> findFrom c ss params | None \<Rightarrow> (None, params)) = (None, ps1)"
    and IH: "\<And>params. \<exists>r. heap_findFrom m (addr p) ss params = Some (r, snd (findFrom (erase p) ss params)) \<and>
      points_to m r (fst (findFrom (erase p) ss params))"
  shows "\<exists>r. heap_findFrom m (addr t) (s # ss) params = Some (r, snd (findFrom (erase t) (s # ss) params)) \<and>
    points_to m r (fst (findFrom (erase t) (s # ss) params))"
proof -
  let ?name = "parameterName (erase p)"
  have cell: "m (addr t) = Some (cell_of t)" using assms(1) by (rule placed_root)
  have d: "m (addr p) = Some (cell_of p)" "c_pname (cell_of p) = ?name"
    using placed_root [OF \<open>placed m p\<close>] by (cases p; simp add: cell_of_ANode)+
  obtain hit ps2 where f2: "findFrom (erase p) ss (smap_set ?name s ps1) = (hit, ps2)" by fastforce
  obtain r where r: "heap_findFrom m (addr p) ss (smap_set ?name s ps1) = Some (r, ps2)" "points_to m r hit"
    using IH [of "smap_set ?name s ps1"] by (auto simp: f2)
  have "heap_findFrom m (addr t) (s # ss) params = Some (r, if r \<noteq> None then ps2
      else case smap_get ps1 ?name of Some saved \<Rightarrow> smap_set ?name saved ps2 | None \<Rightarrow> smap_erase ?name ps2)"
    using heap_findFrom_step(2) [OF lit cell refl assms(3) d(1), unfolded d(2), OF r(1)] .
  moreover have "findFrom (erase t) (s # ss) params = (hit, if hit \<noteq> None then ps2
      else case smap_get ps1 ?name of Some saved \<Rightarrow> smap_set ?name saved ps2 | None \<Rightarrow> smap_erase ?name ps2)"
    by (rule findFrom_step(2) [OF lit' refl assms(2) f2])
  moreover have "(r \<noteq> None) = (hit \<noteq> None)" using r(2) by (auto simp: points_to_def)
  ultimately show ?thesis using r(2) by simp
qed

lemma heap_findFrom_refines:
  assumes "placed m t"
  shows "\<exists>r. heap_findFrom m (addr t) ss params = Some (r, snd (findFrom (erase t) ss params)) \<and>
    points_to m r (fst (findFrom (erase t) ss params))"
  using assms
proof (induction ss arbitrary: t params)
  case Nil
  then show ?case
    using placed_root [OF Nil] by (cases t) (auto simp: points_to_def cell_of_ANode intro!: exI [of _ t])
next
  case (Cons s ss)
  obtain a v l cs pc h i n where t: "t = ANode a v l cs pc h i n" by (cases t)
  have cell: "m (addr t) = Some (cell_of t)" and sub: "\<And>c. c \<in> set (kids t) \<Longrightarrow> placed m c"
    using Cons.prems by (simp_all add: placed.simps [of _ t])
  have fields: "c_children (cell_of t) = map (map_prod id addr) cs" "c_param (cell_of t) = map_option addr pc"
    "children (erase t) = map (map_prod id erase) cs" "paramChild (erase t) = map_option erase pc"
    by (simp_all add: t cell_of_ANode)
  define lit where "lit = (case map_of (children (erase t)) s of Some c \<Rightarrow> findFrom c ss params | None \<Rightarrow> (None, params))"
  obtain hit1 ps1 where lit1: "lit = (hit1, ps1)" by fastforce
  have "\<exists>r. (case map_of (c_children (cell_of t)) s of Some q \<Rightarrow> heap_findFrom m q ss params | None \<Rightarrow> Some (None, params))
      = Some (r, snd lit) \<and> points_to m r (fst lit)"
  proof (cases "map_of cs s")
    case (Some c)
    then have "placed m c" by (intro sub) (force simp: t kids_ANode dest: map_of_SomeD)
    with Cons.IH [of c params] show ?thesis by (simp add: lit_def fields Some)
  qed (simp add: lit_def fields)
  then obtain r1 where r1: "(case map_of (c_children (cell_of t)) s of Some q \<Rightarrow> heap_findFrom m q ss params
      | None \<Rightarrow> Some (None, params)) = Some (r1, ps1)" "points_to m r1 hit1" by (auto simp: lit1)
  show ?case
  proof (cases "hit1 \<noteq> None \<or> pc = None")
    case True
    then have "r1 \<noteq> None \<or> c_param (cell_of t) = None" using r1(2) by (auto simp: fields points_to_def)
    then have "heap_findFrom m (addr t) (s # ss) params = Some (r1, ps1)"
      by (rule heap_findFrom_step(1) [OF r1(1) cell])
    moreover have "findFrom (erase t) (s # ss) params = (hit1, ps1)"
      using True by (intro findFrom_step(1) [OF lit1 [unfolded lit_def]]) (simp add: fields)
    ultimately show ?thesis using r1(2) by simp
  next
    case False
    then obtain p where pc: "pc = Some p" "hit1 = None" by auto
    have "placed m p" by (rule sub) (simp add: t kids_ANode pc)
    moreover have "r1 = None" using pc r1(2) by simp
    ultimately show ?thesis
      using r1(1) lit1 [unfolded lit_def] pc
      by (intro findFrom_param_refines [OF Cons.prems _ _ _ _ _ Cons.IH]) (simp_all add: fields)
  qed
qed

section \<open>Destruction\<close>

lemma delete_nodes_frees:
  assumes "\<And>s n H. s \<in> set ts \<Longrightarrow> placed (mem H) s \<Longrightarrow> distinct (addrs s) \<Longrightarrow> length (addrs s) \<le> n \<Longrightarrow>
      delete_node n (addr s) H = Some (H\<lparr>mem := mem H |` (- set (addrs s))\<rparr>)"
    and "\<forall>s \<in> set ts. placed (mem H) s" and "distinct (concat (map addrs ts))" and "length (concat (map addrs ts)) \<le> n"
  shows "delete_nodes n (map addr ts) H = Some (H\<lparr>mem := mem H |` (- set (concat (map addrs ts)))\<rparr>)"
  using assms
proof (induction ts arbitrary: H)
  case Nil
  show ?case by (simp add: restrict_map_def)
next
  case (Cons t ts)
  let ?H = "H\<lparr>mem := mem H |` (- set (addrs t))\<rparr>"
  have first: "delete_node n (addr t) H = Some ?H"
    using Cons.prems(2-4) by (intro Cons.prems(1)) auto
  have "placed (mem ?H) s" if "s \<in> set ts" for s
  proof -
    have "placed (mem ?H) s = placed (mem H) s"
      using Cons.prems(3) that by (intro placed_cong) (auto simp: restrict_map_def)
    then show ?thesis using Cons.prems(2) that by simp
  qed
  then have "delete_nodes n (map addr ts) ?H = Some (?H\<lparr>mem := mem ?H |` (- set (concat (map addrs ts)))\<rparr>)"
    using Cons.prems by (intro Cons.IH) auto
  with first show ?case by (simp add: Compl_Un)
qed

lemma delete_node_frees:
  assumes "placed (mem H) t" and "distinct (addrs t)" and "length (addrs t) \<le> n"
  shows "delete_node n (addr t) H = Some (H\<lparr>mem := mem H |` (- set (addrs t))\<rparr>)"
  using assms
proof (induction t arbitrary: n H rule: kids_induct)
  case (kids t)
  obtain k where n: "n = Suc k" using kids.prems(3) by (cases n) (auto simp: addrs_kids [of t])
  have cell: "mem H (addr t) = Some (cell_of t)" using kids.prems(1) by (simp add: placed.simps [of _ t])
  have ptrs: "map snd (c_children (cell_of t)) @ (case c_param (cell_of t) of None \<Rightarrow> [] | Some q \<Rightarrow> [q]) = map addr (kids t)"
    by (cases t) (auto simp: cell_of_ANode kids_ANode split: option.splits)
  have "delete_nodes k (map addr (kids t)) H = Some (H\<lparr>mem := mem H |` (- set (concat (map addrs (kids t))))\<rparr>)"
    using kids.prems by (intro delete_nodes_frees kids.IH) (auto simp: n addrs_kids [of t] placed.simps [of _ t])
  moreover have "(mem H |` (- set (concat (map addrs (kids t)))))(addr t := None) = mem H |` (- set (addrs t))"
    by (auto simp: addrs_kids [of t] restrict_map_def)
  ultimately show ?case by (simp add: n cell ptrs del: set_concat)
qed

section \<open>Memory safety\<close>

lemma heap_insert_all_refines:
  assumes "intact H t" and "addr t = 0" and "set (addrs t) = {0..<nxt H}"
  shows "\<exists>H' t'. heap_insert_all rs H = Some H' \<and> intact H' t' \<and> addr t' = 0 \<and> set (addrs t') = {0..<nxt H'} \<and>
    root (insert_all rs \<lparr>root = erase t\<rparr>) = erase t'"
  using assms
proof (induction rs arbitrary: H t)
  case Nil
  then show ?case by (auto simp: insert_all_def)
next
  case (Cons r rs)
  obtain path h where r: "r = (path, h)" by (cases r)
  from heap_insert_refines [OF Cons.prems(1), of "split path ''/''" h]
  obtain H1 t1 where 1: "heap_node_insert 0 path h H = Some H1" "grows H t H1 t1"
    "erase t1 = node_insert (erase t) path h"
    by (auto simp: inserts_def heap_node_insert_def node_insert_def Cons.prems(2))
  then have "intact H1 t1" "addr t1 = 0" "set (addrs t1) = {0..<nxt H1}"
    using Cons.prems by (auto simp: grows_def)
  from Cons.IH [OF this] 1 show ?case by (auto simp: r insert_all_def trie_insert_def)
qed

lemma intact_heap_trie: "intact heap_trie (ANode 0 [] True [] None None False [])"
  by (simp add: intact_def heap_trie_def placed_leaf cell_of_ANode kids_ANode)

text \<open>
  C14: The raw pointers of the trie are safe. Registering any routes, from the constructor on, never
  reads a pointer to nothing; nor does any search of the result, which returns the pointer to a cell
  with the handler that the tree of nodes gives, and the same parameters; and the destructor then
  deletes every cell that was ever allocated, each exactly once, so that nothing is leaked and
  nothing is freed twice. The depth it needs is at most the number of cells.
\<close>

theorem trie_memory_safe:
  "\<exists>H. heap_insert_all rs heap_trie = Some H \<and>
     (\<forall>path params. \<exists>r.
        heap_node_find (mem H) 0 path params = Some (r, snd (searchNode (insert_all rs new_trie) path params)) \<and>
        Option.bind r (\<lambda>q. map_option c_handler (mem H q)) =
          map_option handler (fst (searchNode (insert_all rs new_trie) path params))) \<and>
     delete_node (nxt H) 0 H = Some \<lparr>mem = Map.empty, nxt = nxt H\<rparr>"
proof -
  let ?t = "ANode 0 [] True [] None None False []"
  from heap_insert_all_refines [OF intact_heap_trie] obtain H t where
    H: "heap_insert_all rs heap_trie = Some H" "intact H t" "addr t = 0" "set (addrs t) = {0..<nxt H}"
    "root (insert_all rs \<lparr>root = erase ?t\<rparr>) = erase t"
    by (auto simp: heap_trie_def lessThan_atLeast0 dest!: spec [of _ rs])
  then have "length (addrs t) = nxt H" using distinct_card [of "addrs t"] by (simp add: intact_def)
  then have "delete_node (nxt H) 0 H = Some (H\<lparr>mem := mem H |` (- set (addrs t))\<rparr>)"
    using H(2,3) delete_node_frees [of H t "nxt H"] by (simp add: intact_def)
  moreover have "mem H |` (- set (addrs t)) = Map.empty"
    using H(2,4) by (auto simp: intact_def restrict_map_def)
  moreover have "\<exists>r. heap_node_find (mem H) 0 path params = Some (r, snd (searchNode (insert_all rs new_trie) path params)) \<and>
      Option.bind r (\<lambda>q. map_option c_handler (mem H q)) =
        map_option handler (fst (searchNode (insert_all rs new_trie) path params))" for path params
    using heap_findFrom_refines [of "mem H" t "split path ''/''" params] points_to_handler H(2,3,5)
    by (force simp: heap_node_find_def searchNode_def node_find_def new_trie_def empty_node_def intact_def)
  ultimately show ?thesis using H(1) by (cases H) auto
qed

end
