(* ===== verification/Chain_Invariant.thy ===== *)
theory Chain_Invariant
  imports Http_Server
begin

text \<open>
  What routing keeps. If the functions of an application, its handlers and its middleware, keep a
  property of contexts and throw only certain exceptions, then so does the chain the server runs for
  a request, with all its mounted routers and sub-routers. The locale \<open>chain_invariant\<close> states it
  once; it is interpreted on the exceptions that the parser catches.
\<close>

section \<open>What a chain keeps, and what it throws\<close>

definition act_keeps :: "(('j, 'w) ctx \<Rightarrow> bool) \<Rightarrow> (exn \<Rightarrow> bool) \<Rightarrow> ('j, 'w) act \<Rightarrow> bool" where
  "act_keeps P Q a \<longleftrightarrow> (\<forall>c. P c \<longrightarrow> (case a c of Ret c' \<Rightarrow> P c' | Exc e c' \<Rightarrow> Q e))"

definition mw_keeps :: "(('j, 'w) ctx \<Rightarrow> bool) \<Rightarrow> (exn \<Rightarrow> bool) \<Rightarrow> ('j, 'w) mw_fun \<Rightarrow> bool" where
  "mw_keeps P Q f \<longleftrightarrow> (\<forall>nxt. act_keeps P Q nxt \<longrightarrow> act_keeps P Q (f nxt))"

definition routes_keep :: "(('j, 'w) ctx \<Rightarrow> bool) \<Rightarrow> (exn \<Rightarrow> bool) \<Rightarrow> ('j, 'w) registry \<Rightarrow> bool" where
  "routes_keep P Q reg \<longleftrightarrow> (\<forall>p h. table reg p = Some h \<longrightarrow> act_keeps P Q h)"

fun middleware_keeps :: "(('j, 'w) ctx \<Rightarrow> bool) \<Rightarrow> (exn \<Rightarrow> bool) \<Rightarrow> ('j, 'w) store \<Rightarrow> ('j, 'w) middleware \<Rightarrow> bool" where
  "middleware_keeps P Q \<sigma> (UserMw f) = mw_keeps P Q f"
| "middleware_keeps P Q \<sigma> (ScopedMw path mw) = middleware_keeps P Q \<sigma> mw"
| "middleware_keeps P Q \<sigma> (RouterRoutes r) = routes_keep P Q (rregistry (\<sigma> r))"
| "middleware_keeps P Q \<sigma> (SubRouter np r) = routes_keep P Q (rregistry (\<sigma> r))"
| "middleware_keeps P Q \<sigma> (MountedRouter np mws) = list_all (middleware_keeps P Q \<sigma>) mws"

definition app_keeps :: "(('j, 'w) ctx \<Rightarrow> bool) \<Rightarrow> (exn \<Rightarrow> bool) \<Rightarrow> ('j, 'w) store \<Rightarrow> ('j, 'w) registry \<Rightarrow> bool" where
  "app_keeps P Q \<sigma> reg \<longleftrightarrow> routes_keep P Q reg \<and> list_all (middleware_keeps P Q \<sigma>) (queue reg)"

lemma act_keepsI: "(\<And>c. P c \<Longrightarrow> case a c of Ret c' \<Rightarrow> P c' | Exc e c' \<Rightarrow> Q e) \<Longrightarrow> act_keeps P Q a"
  by (simp add: act_keeps_def)

lemma act_keepsD: "act_keeps P Q a \<Longrightarrow> P c \<Longrightarrow> case a c of Ret c' \<Rightarrow> P c' | Exc e c' \<Rightarrow> Q e"
  by (simp add: act_keeps_def)

lemma act_keeps_and_then:
  "case out of Ret c' \<Rightarrow> P c' | Exc e c' \<Rightarrow> Q e \<Longrightarrow> act_keeps P Q k \<Longrightarrow>
   case and_then out k of Ret c' \<Rightarrow> P c' | Exc e c' \<Rightarrow> Q e"
  by (cases out) (simp_all add: act_keepsD)

locale chain_invariant =
  fixes P :: "('j, 'w) ctx \<Rightarrow> bool" and Q :: "exn \<Rightarrow> bool" and J :: "'j json_lib"
  assumes P_path: "P c \<Longrightarrow> P (set_path p c)"
    and P_params: "P c \<Longrightarrow> P (c\<lparr>req := (req c)\<lparr>params := ps\<rparr>\<rparr>)"
    and P_send: "P c \<Longrightarrow> send_json J j (set_status n (res c)) = (None, r) \<Longrightarrow> P (c\<lparr>res := r\<rparr>)"
    and Q_send: "P c \<Longrightarrow> send_json J j (set_status n (res c)) = (Some what, r) \<Longrightarrow> Q (Std what)"
begin

lemma keeps_found:
  assumes "routes_keep P Q reg" and "resolve reg m path = Some h" and "P c"
  shows "case h (c\<lparr>req := (req c)\<lparr>params := bindings reg m path\<rparr>\<rparr>) of Ret c' \<Rightarrow> P c' | Exc e c' \<Rightarrow> Q e"
proof -
  have "P (c\<lparr>req := (req c)\<lparr>params := bindings reg m path\<rparr>\<rparr>)" using assms(3) P_params by blast
  moreover have "act_keeps P Q h"
    using assms(1,2) by (auto simp: routes_keep_def resolve_def bind_eq_Some_conv)
  ultimately show ?thesis by (rule act_keepsD [rotated])
qed

lemma keeps_HandleRequest:
  assumes "routes_keep P Q reg" and "P c"
  shows "case snd (HandleRequest reg c) of Ret c' \<Rightarrow> P c' | Exc e c' \<Rightarrow> Q e"
  using keeps_found [OF assms(1) _ assms(2), of "req_method (req c)" "cpath c"] assms(2)
  by (auto simp: HandleRequest_def getHandler_resolve split: option.split)

lemma keeps_runRoute:
  assumes "routes_keep P Q reg"
  shows "act_keeps P Q (runRoute J reg)"
proof (rule act_keepsI)
  fix c assume c: "P c"
  show "case runRoute J reg c of Ret c' \<Rightarrow> P c' | Exc e c' \<Rightarrow> Q e"
  proof (cases "resolve reg (req_method (req c)) (cpath c)")
    case None
    then show ?thesis
      using P_send [OF c, of "not_found_json J (req c)" 404] Q_send [OF c, of "not_found_json J (req c)" 404]
      by (auto simp: runRoute_def getHandler_resolve split: prod.split option.split)
  next
    case (Some h)
    with keeps_found [OF assms Some c] show ?thesis by (simp add: runRoute_found)
  qed
qed

lemma keeps_router_chain:
  "list_all (mw_keeps P Q) fs \<Longrightarrow> act_keeps P Q nxt \<Longrightarrow> act_keeps P Q (executeRouterChain i fs orig nxt)"
proof (induction i fs orig nxt rule: executeRouterChain.induct)
  case (1 i fs orig nxt)
  show ?case
  proof (cases "length fs \<le> i")
    case True
    with 1 P_path show ?thesis
      by (subst executeRouterChain.simps) (auto intro!: act_keepsI dest: act_keepsD)
  next
    case False
    with 1 have "mw_keeps P Q (fs ! i)" by (simp add: list_all_length)
    with 1 False show ?thesis
      by (subst executeRouterChain.simps) (simp add: mw_keeps_def)
  qed
qed

lemma keeps_run_mw: "middleware_keeps P Q \<sigma> mw \<Longrightarrow> mw_keeps P Q (run_mw \<sigma> mw)"
proof (induction mw)
  case (ScopedMw path mw)
  then show ?case by (auto simp: mw_keeps_def run_scoped_def act_keeps_def)
next
  case (RouterRoutes r)
  show ?case unfolding mw_keeps_def
  proof (intro allI impI act_keepsI)
    fix nxt c assume n: "act_keeps P Q nxt" and c: "P c"
    from RouterRoutes keeps_HandleRequest [OF _ c, of "rregistry (\<sigma> r)"]
    have "case snd (HandleRequest (rregistry (\<sigma> r)) c) of Ret c' \<Rightarrow> P c' | Exc e c' \<Rightarrow> Q e" by simp
    then show "case run_mw \<sigma> (RouterRoutes r) nxt c of Ret c' \<Rightarrow> P c' | Exc e c' \<Rightarrow> Q e"
      using act_keeps_and_then [OF _ n] by (auto simp: run_router_routes_def split: prod.split bool.split)
  qed
next
  case (SubRouter np r)
  show ?case unfolding mw_keeps_def
  proof (intro allI impI act_keepsI)
    fix nxt c assume n: "act_keeps P Q nxt" and c: "P c"
    let ?c = "set_path (sub_relative np (cpath c)) c"
    from SubRouter keeps_HandleRequest [OF _ P_path [OF c], of "rregistry (\<sigma> r)"]
    have h: "case snd (HandleRequest (rregistry (\<sigma> r)) ?c) of Ret c' \<Rightarrow> P c' | Exc e c' \<Rightarrow> Q e" by simp
    have undo: "act_keeps P Q (\<lambda>c2. Ret (set_path (cpath c) c2))" "act_keeps P Q (\<lambda>c2. nxt (set_path (cpath c) c2))"
      using P_path act_keepsD [OF n] by (auto intro!: act_keepsI)
    show "case run_mw \<sigma> (SubRouter np r) nxt c of Ret c' \<Rightarrow> P c' | Exc e c' \<Rightarrow> Q e"
      using h act_keeps_and_then [OF _ undo(1)] act_keeps_and_then [OF _ undo(2)] act_keepsD [OF n c]
      by (auto simp: run_sub_router_def Let_def split: prod.split bool.split)
  qed
next
  case (MountedRouter np mws)
  then have mws: "list_all (mw_keeps P Q) (map (run_mw \<sigma>) mws)" by (simp add: list_all_iff)
  show ?case unfolding mw_keeps_def
  proof (intro allI impI act_keepsI)
    fix nxt c assume n: "act_keeps P Q nxt" and c: "P c"
    show "case run_mw \<sigma> (MountedRouter np mws) nxt c of Ret c' \<Rightarrow> P c' | Exc e c' \<Rightarrow> Q e"
      using act_keepsD [OF n c] act_keepsD [OF keeps_router_chain [OF mws n] P_path [OF c]]
      by (simp add: run_mounted_def)
  qed
qed simp

lemma keeps_chain:
  "list_all (mw_keeps P Q) fs \<Longrightarrow> act_keeps P Q final \<Longrightarrow> act_keeps P Q (executeMiddlewareChain 0 fs final)"
  by (induction fs) (auto simp: mw_keeps_def)

lemma keeps_run_chain:
  assumes "app_keeps P Q \<sigma> reg"
  shows "act_keeps P Q (run_chain J \<sigma> reg)"
proof -
  have "list_all (mw_keeps P Q) (map (run_mw \<sigma>) (queue reg))"
    using assms keeps_run_mw by (auto simp: app_keeps_def list_all_iff)
  moreover have "act_keeps P Q (runRoute J reg)" using assms keeps_runRoute by (simp add: app_keeps_def)
  ultimately show ?thesis unfolding run_chain_eq by (rule keeps_chain)
qed

end

section \<open>Exceptions the parser catches\<close>

definition throws_std :: "('j, 'w) store \<Rightarrow> ('j, 'w) registry \<Rightarrow> bool" where
  "throws_std \<sigma> reg \<longleftrightarrow> app_keeps (\<lambda>c. True) (\<lambda>e. e \<noteq> Foreign) \<sigma> reg"

interpretation std_chain:
  chain_invariant "\<lambda>c :: ('j, 'w) ctx. True" "\<lambda>e. e \<noteq> Foreign" "J :: 'j json_lib" for J
  by unfold_locales simp_all

lemma run_chain_std: "throws_std \<sigma> reg \<Longrightarrow> run_chain J \<sigma> reg c \<noteq> Exc Foreign c'"
  using act_keepsD [OF std_chain.keeps_run_chain [of \<sigma> reg J] TrueI, of c]
  by (auto simp: throws_std_def split: outcome.splits)

lemma handleRequest_std: "throws_std \<sigma> reg \<Longrightarrow> h_exc (handleRequest J \<sigma> reg junk r ka sc w) \<noteq> Some Foreign"
  using run_chain_std [of \<sigma> reg J "start_ctx J junk r w"]
  by (auto simp: handleRequest_def Let_def split: outcome.split sum.split prod.split)

end
