(* ===== verification/Event_Loop.thy ===== *)
theory Event_Loop
  imports Chain_Invariant
begin

text \<open>
  The event loop and the life of a connection (\<open>HttpServer::Loop\<close>, \<open>stop\<close>). The
  callbacks are functions on the loop's state; libuv, which is not part of the repository, is the
  environment that decides which callback comes next. The step relation gives it the freedom its
  documentation gives it: no read callback after \<open>uv_close\<close>, a callback for every queued write
  (with an error status when the handle was closed first), the close callback after all of them.
\<close>

section \<open>State\<close>

type_synonym cid = nat

text \<open>A live \<open>Conn\<close>: its parser, its \<open>closing\<close> flag, and its \<open>WriteReq\<close>s in flight.\<close>

record 'l conn =
  c_parser :: "'l http_parser"
  closing :: bool
  in_flight :: "(string \<times> string) list"

text \<open>
  \<open>uv_closes\<close>, \<open>sent\<close>, \<open>wr_new\<close> and \<open>wr_deleted\<close> only record history: the \<open>uv_close\<close> calls on
  connection handles, the buffers accepted by \<open>uv_write\<close>, and the \<open>WriteReq\<close> objects allocated
  and deleted. \<open>wild\<close> records that a callback followed a pointer to a \<open>Conn\<close> or a \<open>WriteReq\<close> that
  was deleted (or never there): the code has no test for it, so the model notes it. \<open>crashed\<close> is
  an exception leaving a callback.
\<close>

record ('l, 'w) loop_state =
  conns :: "(cid \<times> 'l conn) list"
  used_ids :: "cid list"
  loop_world :: 'w
  server_closing :: bool
  stopper_closing :: bool
  async_sent :: bool
  stopRequested :: bool
  running :: bool
  crashed :: bool
  uv_closes :: "cid list"
  deleted :: "cid list"
  sent :: "(cid \<times> string \<times> string) list"
  wr_new :: nat
  wr_deleted :: nat
  wild :: bool

definition init_loop :: "'w \<Rightarrow> ('l, 'w) loop_state" where
  "init_loop w =
     \<lparr>conns = [], used_ids = [], loop_world = w, server_closing = False, stopper_closing = False,
      async_sent = False, stopRequested = False, running = False, crashed = False,
      uv_closes = [], deleted = [], sent = [], wr_new = 0, wr_deleted = 0, wild = False\<rparr>"

definition conn_of :: "('l, 'w) loop_state \<Rightarrow> cid \<Rightarrow> 'l conn option" where
  "conn_of st c = map_of (conns st) c"

definition upd_list :: "cid \<Rightarrow> ('k \<Rightarrow> 'k) \<Rightarrow> (cid \<times> 'k) list \<Rightarrow> (cid \<times> 'k) list" where
  "upd_list c f xs = map (\<lambda>(i, k). (i, if i = c then f k else k)) xs"

definition upd_conn ::
  "cid \<Rightarrow> ('l conn \<Rightarrow> 'l conn) \<Rightarrow> ('l, 'w) loop_state \<Rightarrow> ('l, 'w) loop_state" where
  "upd_conn c f st = st\<lparr>conns := upd_list c f (conns st)\<rparr>"

section \<open>Callbacks\<close>

definition closeConn :: "cid \<Rightarrow> ('l, 'w) loop_state \<Rightarrow> ('l, 'w) loop_state" where
  "closeConn c st =
     (case conn_of st c of
        None \<Rightarrow> st\<lparr>wild := True\<rparr>
      | Some k \<Rightarrow>
          if closing k then st
          else (upd_conn c (\<lambda>k. k\<lparr>closing := True\<rparr>) st)\<lparr>uv_closes := uv_closes st @ [c]\<rparr>)"

text \<open>\<open>onConnClosed\<close>: the connection is deleted.\<close>

definition onConnClosed :: "cid \<Rightarrow> ('l, 'w) loop_state \<Rightarrow> ('l, 'w) loop_state" where
  "onConnClosed c st =
     st\<lparr>conns := filter (\<lambda>(i, k). i \<noteq> c) (conns st), deleted := deleted st @ [c],
        wild := (wild st \<or> conn_of st c = None)\<rparr>"

text \<open>\<open>onWrite(req, status)\<close> for the oldest write of the connection, whose \<open>WriteReq\<close> it deletes.\<close>

definition no_write :: "cid \<Rightarrow> ('l, 'w) loop_state \<Rightarrow> bool" where
  "no_write c st \<longleftrightarrow> (case conn_of st c of None \<Rightarrow> True | Some k \<Rightarrow> in_flight k = [])"

definition onWrite :: "cid \<Rightarrow> bool \<Rightarrow> ('l, 'w) loop_state \<Rightarrow> ('l, 'w) loop_state" where
  "onWrite c status_ok st =
     (let st1 = (if status_ok then st else closeConn c st) in
      (upd_conn c (\<lambda>k. k\<lparr>in_flight := tl (in_flight k)\<rparr>) st1)
        \<lparr>wr_deleted := wr_deleted st1 + 1, wild := (wild st1 \<or> no_write c st)\<rparr>)"

text \<open>\<open>send(stream, head, body)\<close>; \<open>accepted\<close> says whether \<open>uv_write\<close> returned 0.\<close>

definition send :: "cid \<Rightarrow> bool \<Rightarrow> string \<times> string \<Rightarrow> ('l, 'w) loop_state \<Rightarrow> ('l, 'w) loop_state" where
  "send c accepted hb st =
     (let st1 = st\<lparr>wr_new := wr_new st + 1, wild := (wild st \<or> conn_of st c = None)\<rparr> in
      if accepted
      then (upd_conn c (\<lambda>k. k\<lparr>in_flight := in_flight k @ [hb]\<rparr>) st1)\<lparr>sent := sent st1 @ [(c, hb)]\<rparr>
      else closeConn c (st1\<lparr>wr_deleted := wr_deleted st1 + 1\<rparr>))"

text \<open>The calls of \<open>send\<close> of one read; \<open>oks n\<close> is what the n-th \<open>uv_write\<close> returned.\<close>

fun send_all ::
  "cid \<Rightarrow> (nat \<Rightarrow> bool) \<Rightarrow> (string \<times> string) list \<Rightarrow> ('l, 'w) loop_state \<Rightarrow> ('l, 'w) loop_state" where
  "send_all c oks [] st = st"
| "send_all c oks (hb # hbs) st = send_all c (\<lambda>n. oks (Suc n)) hbs (send c (oks 0) hb st)"

text \<open>\<open>onRead\<close>: \<open>None\<close> is a negative \<open>nread\<close>; the booleans are what \<open>uv_write\<close> returns.\<close>

definition onRead ::
  "'j json_lib \<Rightarrow> 'l llhttp \<Rightarrow> ('j, 'w) store \<Rightarrow> ('j, 'w) registry \<Rightarrow> (nat \<Rightarrow> int) \<Rightarrow>
   cid \<Rightarrow> string option \<Rightarrow> (nat \<Rightarrow> bool) \<Rightarrow> ('l, 'w) loop_state \<Rightarrow> ('l, 'w) loop_state" where
  "onRead J L \<sigma> reg junk c data oks st =
     (case conn_of st c of
        None \<Rightarrow> st\<lparr>wild := True\<rparr>
      | Some k \<Rightarrow>
          (case data of
             None \<Rightarrow> closeConn c st
           | Some bytes \<Rightarrow>
               (case read_data J L \<sigma> reg junk bytes (c_parser k) (loop_world st) of
                  Inl e \<Rightarrow> st\<lparr>crashed := True\<rparr>
                | Inr (p1, io) \<Rightarrow>
                    let st1 = upd_conn c (\<lambda>k. k\<lparr>c_parser := p1\<rparr>) st;
                        st2 = send_all c oks (io_writes io) (st1\<lparr>loop_world := io_world io\<rparr>)
                    in if io_close io then closeConn c st2 else st2)))"

text \<open>\<open>onConnection\<close> with a fresh \<open>Conn\<close> named \<open>c\<close>; a failed \<open>uv_accept\<close> closes it again.\<close>

definition new_conn :: "'l llhttp \<Rightarrow> 'l conn" where
  "new_conn L = \<lparr>c_parser = new_parser L kMaxHeaderBytes, closing = False, in_flight = []\<rparr>"

definition onConnection ::
  "'l llhttp \<Rightarrow> cid \<Rightarrow> bool \<Rightarrow> bool \<Rightarrow> ('l, 'w) loop_state \<Rightarrow> ('l, 'w) loop_state" where
  "onConnection L c status_ok accept_ok st =
     (if \<not> status_ok then st
      else
        let st1 = st\<lparr>conns := (c, new_conn L) # conns st, used_ids := c # used_ids st\<rparr> in
        if accept_ok then st1 else closeConn c st1)"

text \<open>\<open>onStop\<close> walks the handles and closes those that are not closing yet.\<close>

definition onStop :: "('l, 'w) loop_state \<Rightarrow> ('l, 'w) loop_state" where
  "onStop st =
     (fold closeConn (map fst (conns st)) st)\<lparr>server_closing := True, stopper_closing := True\<rparr>"

text \<open>\<open>stop()\<close>.\<close>

definition stop :: "('l, 'w) loop_state \<Rightarrow> ('l, 'w) loop_state" where
  "stop st = st\<lparr>stopRequested := True, async_sent := True\<rparr>"

text \<open>
  The constructor: \<open>rc_init\<close>, \<open>rc_bind\<close> and \<open>rc_listen\<close> are what libuv returns. \<open>throwUvError\<close>
  turns a libuv error into the code and the text of a \<open>std::system_error\<close>.
\<close>

definition throwUvError :: "int \<Rightarrow> string \<Rightarrow> int \<times> string" where
  "throwUvError err what = (- err, what)"

definition new_server ::
  "int \<Rightarrow> int \<Rightarrow> int \<Rightarrow> int \<Rightarrow> 'w \<Rightarrow> (int \<times> string) + ('l, 'w) loop_state" where
  "new_server rc_init rc_bind rc_listen port w =
     (if rc_init \<noteq> 0 then Inl (throwUvError rc_init ''failed to create event loop'')
      else if rc_bind \<noteq> 0 then
        Inl (throwUvError rc_bind (''failed to bind port '' @ int_to_string port))
      else if rc_listen \<noteq> 0 then Inl (throwUvError rc_listen ''failed to listen'')
      else Inr (init_loop w))"

text \<open>\<open>uv_run\<close> returns when no handle is left.\<close>

definition loop_alive :: "('l, 'w) loop_state \<Rightarrow> bool" where
  "loop_alive st \<longleftrightarrow> conns st \<noteq> [] \<or> \<not> server_closing st \<or> \<not> stopper_closing st"

text \<open>The destructor; \<open>run_nowait\<close> is one \<open>uv_run(UV_RUN_NOWAIT)\<close>.\<close>

fun spin :: "nat \<Rightarrow> (('l, 'w) loop_state \<Rightarrow> ('l, 'w) loop_state) \<Rightarrow> ('l, 'w) loop_state \<Rightarrow>
  ('l, 'w) loop_state" where
  "spin 0 run_nowait st = st"
| "spin (Suc i) run_nowait st =
     (if loop_alive st then spin i run_nowait (run_nowait st) else st)"

definition destroy_server ::
  "(('l, 'w) loop_state \<Rightarrow> ('l, 'w) loop_state) \<Rightarrow> ('l, 'w) loop_state \<Rightarrow> ('l, 'w) loop_state" where
  "destroy_server run_nowait st = spin 64 run_nowait (stop st)"

section \<open>Steps\<close>

text \<open>The callbacks \<open>uv_run\<close> may make next.\<close>

inductive uv_callback ::
  "'j json_lib \<Rightarrow> 'l llhttp \<Rightarrow> ('j, 'w) store \<Rightarrow> ('j, 'w) registry \<Rightarrow> (nat \<Rightarrow> int) \<Rightarrow>
   ('l, 'w) loop_state \<Rightarrow> ('l, 'w) loop_state \<Rightarrow> bool"
  for J L \<sigma> reg junk where
  connection: "\<lbrakk>\<not> crashed st; \<not> server_closing st; c \<notin> set (used_ids st)\<rbrakk>
    \<Longrightarrow> uv_callback J L \<sigma> reg junk st (onConnection L c status_ok accept_ok st)"
| read: "\<lbrakk>\<not> crashed st; conn_of st c = Some k; \<not> closing k\<rbrakk>
    \<Longrightarrow> uv_callback J L \<sigma> reg junk st (onRead J L \<sigma> reg junk c data oks st)"
| written: "\<lbrakk>\<not> crashed st; conn_of st c = Some k; in_flight k \<noteq> []\<rbrakk>
    \<Longrightarrow> uv_callback J L \<sigma> reg junk st (onWrite c status_ok st)"
| closed: "\<lbrakk>\<not> crashed st; conn_of st c = Some k; closing k; in_flight k = []\<rbrakk>
    \<Longrightarrow> uv_callback J L \<sigma> reg junk st (onConnClosed c st)"
| async: "\<lbrakk>\<not> crashed st; async_sent st; \<not> stopper_closing st\<rbrakk>
    \<Longrightarrow> uv_callback J L \<sigma> reg junk st (onStop (st\<lparr>async_sent := False\<rparr>))"

text \<open>Another thread may call \<open>stop\<close> between any two callbacks.\<close>

inductive loop_step ::
  "'j json_lib \<Rightarrow> 'l llhttp \<Rightarrow> ('j, 'w) store \<Rightarrow> ('j, 'w) registry \<Rightarrow> (nat \<Rightarrow> int) \<Rightarrow>
   ('l, 'w) loop_state \<Rightarrow> ('l, 'w) loop_state \<Rightarrow> bool"
  for J L \<sigma> reg junk where
  call: "uv_callback J L \<sigma> reg junk st st' \<Longrightarrow> loop_step J L \<sigma> reg junk st st'"
| stopped: "loop_step J L \<sigma> reg junk st (stop st)"

inductive_cases uv_callbackE: "uv_callback J L \<sigma> reg junk st st'"
inductive_cases loop_stepE: "loop_step J L \<sigma> reg junk st st'"

inductive_simps uv_callback_iff: "uv_callback J L \<sigma> reg junk st st'"

definition loop_reachable ::
  "'j json_lib \<Rightarrow> 'l llhttp \<Rightarrow> ('j, 'w) store \<Rightarrow> ('j, 'w) registry \<Rightarrow> (nat \<Rightarrow> int) \<Rightarrow> 'w \<Rightarrow>
   ('l, 'w) loop_state \<Rightarrow> bool" where
  "loop_reachable J L \<sigma> reg junk w = (loop_step J L \<sigma> reg junk)\<^sup>*\<^sup>* (init_loop w)"

section \<open>Lemmas on the primitive updates\<close>

lemma upd_list_keys [simp]: "map fst (upd_list c f xs) = map fst xs"
  by (simp add: upd_list_def comp_def case_prod_beta)

lemma map_of_upd_list: "map_of (upd_list c f xs) = (map_of xs)(c := map_option f (map_of xs c))"
  by (induction xs) (auto simp: upd_list_def fun_eq_iff)

lemma upd_list_notin: "map_of xs c = None \<Longrightarrow> upd_list c f xs = xs"
  unfolding upd_list_def by (intro map_idI) (auto simp: map_of_eq_None_iff rev_image_eqI)

lemma sum_upd_list:
  "distinct (map fst xs) \<Longrightarrow> map_of xs c = Some k \<Longrightarrow>
   sum_list (map (\<lambda>(i, k). g k) (upd_list c f xs)) + g k =
     sum_list (map (\<lambda>(i, k). g k) xs) + (g (f k) :: nat)"
proof (induction xs)
  case Nil
  then show ?case by simp
next
  case (Cons x xs)
  obtain i l where x: "x = (i, l)" by (cases x)
  show ?case
  proof (cases "i = c")
    case True
    with Cons.prems x have "map_of xs c = None" by (simp add: map_of_eq_None_iff)
    from upd_list_notin [OF this, of f] True Cons.prems x show ?thesis
      by (simp add: upd_list_def)
  next
    case False
    with Cons x show ?thesis by (simp add: upd_list_def)
  qed
qed

lemma upd_conn_keys [simp]: "map fst (conns (upd_conn c f st)) = map fst (conns st)"
  by (simp add: upd_conn_def)

lemma conn_of_upd [simp]:
  "conn_of (upd_conn c f st) d = (if d = c then map_option f (conn_of st c) else conn_of st d)"
  by (simp add: conn_of_def upd_conn_def map_of_upd_list)

lemma conn_of_simps [simp]:
  "conn_of (st\<lparr>used_ids := v1\<rparr>) = conn_of st" "conn_of (st\<lparr>loop_world := v2\<rparr>) = conn_of st"
  "conn_of (st\<lparr>server_closing := v3\<rparr>) = conn_of st" "conn_of (st\<lparr>stopper_closing := v3\<rparr>) = conn_of st"
  "conn_of (st\<lparr>async_sent := v3\<rparr>) = conn_of st" "conn_of (st\<lparr>stopRequested := v3\<rparr>) = conn_of st"
  "conn_of (st\<lparr>running := v3\<rparr>) = conn_of st" "conn_of (st\<lparr>crashed := v3\<rparr>) = conn_of st"
  "conn_of (st\<lparr>uv_closes := v1\<rparr>) = conn_of st" "conn_of (st\<lparr>deleted := v1\<rparr>) = conn_of st"
  "conn_of (st\<lparr>sent := v4\<rparr>) = conn_of st" "conn_of (st\<lparr>wr_new := v5\<rparr>) = conn_of st"
  "conn_of (st\<lparr>wr_deleted := v5\<rparr>) = conn_of st" "conn_of (st\<lparr>wild := v3\<rparr>) = conn_of st"
  by (simp_all add: conn_of_def [abs_def])

lemma upd_conn_other [simp]:
  "used_ids (upd_conn c f st) = used_ids st" "server_closing (upd_conn c f st) = server_closing st"
  "stopper_closing (upd_conn c f st) = stopper_closing st" "uv_closes (upd_conn c f st) = uv_closes st"
  "deleted (upd_conn c f st) = deleted st" "sent (upd_conn c f st) = sent st"
  "wr_new (upd_conn c f st) = wr_new st" "wr_deleted (upd_conn c f st) = wr_deleted st"
  "crashed (upd_conn c f st) = crashed st" "stopRequested (upd_conn c f st) = stopRequested st"
  "async_sent (upd_conn c f st) = async_sent st" "running (upd_conn c f st) = running st"
  "loop_world (upd_conn c f st) = loop_world st" "wild (upd_conn c f st) = wild st"
  by (simp_all add: upd_conn_def)

lemma closeConn_other [simp]:
  "used_ids (closeConn c st) = used_ids st" "server_closing (closeConn c st) = server_closing st"
  "stopper_closing (closeConn c st) = stopper_closing st" "deleted (closeConn c st) = deleted st"
  "sent (closeConn c st) = sent st" "wr_new (closeConn c st) = wr_new st"
  "wr_deleted (closeConn c st) = wr_deleted st" "crashed (closeConn c st) = crashed st"
  "map fst (conns (closeConn c st)) = map fst (conns st)"
  "async_sent (closeConn c st) = async_sent st" "stopRequested (closeConn c st) = stopRequested st"
  by (simp_all add: closeConn_def split: option.split)

lemma conn_of_closeConn [simp]:
  "conn_of (closeConn c st) d =
     (if d = c then map_option (\<lambda>k. k\<lparr>closing := True\<rparr>) (conn_of st c) else conn_of st d)"
  by (auto simp: closeConn_def split: option.split)

definition flying :: "('l, 'w) loop_state \<Rightarrow> nat" where
  "flying st = sum_list (map (\<lambda>(i, k). length (in_flight k)) (conns st))"

lemma flying_simps [simp]:
  "flying (st\<lparr>used_ids := v1\<rparr>) = flying st" "flying (st\<lparr>loop_world := v2\<rparr>) = flying st"
  "flying (st\<lparr>server_closing := v3\<rparr>) = flying st" "flying (st\<lparr>stopper_closing := v3\<rparr>) = flying st"
  "flying (st\<lparr>async_sent := v3\<rparr>) = flying st" "flying (st\<lparr>stopRequested := v3\<rparr>) = flying st"
  "flying (st\<lparr>running := v3\<rparr>) = flying st" "flying (st\<lparr>crashed := v3\<rparr>) = flying st"
  "flying (st\<lparr>uv_closes := v1\<rparr>) = flying st" "flying (st\<lparr>deleted := v1\<rparr>) = flying st"
  "flying (st\<lparr>sent := v4\<rparr>) = flying st" "flying (st\<lparr>wr_new := v5\<rparr>) = flying st"
  "flying (st\<lparr>wr_deleted := v5\<rparr>) = flying st" "flying (st\<lparr>wild := v3\<rparr>) = flying st"
  by (simp_all add: flying_def)

lemma flying_upd:
  assumes "distinct (map fst (conns st))" and "conn_of st c = Some k"
  shows "flying (upd_conn c f st) + length (in_flight k) = flying st + length (in_flight (f k))"
  using sum_upd_list [OF assms(1), of c k "\<lambda>k. length (in_flight k)" f] assms(2)
  by (simp add: flying_def conn_of_def upd_conn_def)

lemma upd_conn_None: "conn_of st c = None \<Longrightarrow> upd_conn c f st = st"
  by (simp add: upd_conn_def upd_list_notin conn_of_def)

lemma flying_upd_same:
  assumes "distinct (map fst (conns st))" and "\<And>k. in_flight (f k) = in_flight k"
  shows "flying (upd_conn c f st) = flying st"
proof (cases "conn_of st c")
  case None
  then show ?thesis by (simp add: upd_conn_None)
next
  case (Some k)
  from flying_upd [OF assms(1) Some, of f] assms(2) show ?thesis by simp
qed

lemma flying_closeConn [simp]: "distinct (map fst (conns st)) \<Longrightarrow> flying (closeConn c st) = flying st"
  by (simp add: closeConn_def flying_upd_same split: option.split)

section \<open>The invariant\<close>

definition loop_inv :: "('l, 'w) loop_state \<Rightarrow> bool" where
  "loop_inv st \<longleftrightarrow>
     distinct (map fst (conns st)) \<and> distinct (uv_closes st) \<and> distinct (deleted st) \<and>
     set (map fst (conns st)) \<union> set (deleted st) \<subseteq> set (used_ids st) \<and>
     set (map fst (conns st)) \<inter> set (deleted st) = {} \<and>
     set (uv_closes st) = set (deleted st) \<union> {c. \<exists>k. conn_of st c = Some k \<and> closing k} \<and>
     wr_new st = wr_deleted st + flying st \<and>
     (stopper_closing st \<longrightarrow> server_closing st) \<and>
     (server_closing st \<longrightarrow> (\<forall>c k. conn_of st c = Some k \<longrightarrow> closing k))"

lemma loop_inv_wild [simp]: "loop_inv (st\<lparr>wild := v\<rparr>) = loop_inv st"
  by (simp add: loop_inv_def)

lemma conn_of_in: "conn_of st c = Some k \<Longrightarrow> c \<in> set (map fst (conns st))"
  by (force simp: conn_of_def dest: map_of_SomeD)

lemma loop_inv_init: "loop_inv (init_loop w)"
  by (simp add: loop_inv_def init_loop_def conn_of_def flying_def)

lemma loop_inv_closeConn: "loop_inv st \<Longrightarrow> loop_inv (closeConn c st)"
proof (cases "\<exists>k. conn_of st c = Some k \<and> \<not> closing k")
  case False
  then have "closeConn c st = st \<or> closeConn c st = st\<lparr>wild := True\<rparr>"
    by (auto simp: closeConn_def split: option.split)
  then show "loop_inv st \<Longrightarrow> loop_inv (closeConn c st)" by auto
next
  case True
  assume inv: "loop_inv st"
  from True obtain k where k: "conn_of st c = Some k" "\<not> closing k" by blast
  then have uc: "uv_closes (closeConn c st) = uv_closes st @ [c]" by (simp add: closeConn_def)
  have "c \<in> set (map fst (conns st))" using k(1) by (rule conn_of_in)
  with inv k have "c \<notin> set (uv_closes st)" by (auto simp: loop_inv_def)
  with inv k uc show ?thesis
    unfolding loop_inv_def closeConn_other conn_of_closeConn uc by (auto split: if_splits)
qed

lemma loop_inv_upd_same:
  assumes "loop_inv st" and "\<And>k. closing (f k) = closing k" and "\<And>k. in_flight (f k) = in_flight k"
  shows "loop_inv (upd_conn c f st)"
proof -
  have "flying (upd_conn c f st) = flying st"
    using assms by (intro flying_upd_same) (auto simp: loop_inv_def)
  with assms show ?thesis
    unfolding loop_inv_def upd_conn_keys upd_conn_other conn_of_upd
    by (auto split: if_splits)
qed

lemma loop_inv_upd_flight:
  assumes "loop_inv st" and k: "conn_of st c = Some k" and "\<And>k. closing (f k) = closing k"
    and "n + length (in_flight k) = wr_new st + length (in_flight (f k)) + (m - wr_deleted st)"
    and "wr_deleted st \<le> m"
  shows "loop_inv ((upd_conn c f st)\<lparr>wr_new := n, wr_deleted := m\<rparr>)"
proof -
  have "n = m + flying (upd_conn c f st)"
    using flying_upd [OF _ k, of f] assms(1,4,5) by (simp add: loop_inv_def)
  then show ?thesis
    using assms(1,3) unfolding loop_inv_def by (auto split: if_splits)
qed

lemma loop_inv_sent [simp]: "loop_inv (st\<lparr>sent := v\<rparr>) = loop_inv st"
  by (simp add: loop_inv_def)

lemma loop_inv_world [simp]: "loop_inv (st\<lparr>loop_world := v\<rparr>) = loop_inv st"
  by (simp add: loop_inv_def)

lemma loop_inv_crashed [simp]: "loop_inv (st\<lparr>crashed := v\<rparr>) = loop_inv st"
  by (simp add: loop_inv_def)

lemma loop_inv_send:
  assumes "loop_inv st" and k: "conn_of st c = Some k"
  shows "loop_inv (send c ok hb st)"
proof (cases ok)
  case True
  let ?f = "\<lambda>k::'a conn. k\<lparr>in_flight := in_flight k @ [hb]\<rparr>"
  have "loop_inv ((upd_conn c ?f st)\<lparr>wr_new := wr_new st + 1, wr_deleted := wr_deleted st\<rparr>)"
    using assms by (intro loop_inv_upd_flight [OF _ k]) auto
  moreover have "send c ok hb st =
      ((upd_conn c ?f st)\<lparr>wr_new := wr_new st + 1, wr_deleted := wr_deleted st\<rparr>)
        \<lparr>sent := sent st @ [(c, hb)], wild := wild st\<rparr>"
    using True k by (simp add: send_def upd_conn_def)
  ultimately show ?thesis by simp
next
  case False
  have "loop_inv (st\<lparr>wr_new := wr_new st + 1, wr_deleted := wr_deleted st + 1\<rparr>)"
    using assms(1) by (simp add: loop_inv_def)
  from loop_inv_closeConn [OF this] False k show ?thesis by (simp add: send_def)
qed

lemma send_conn: "conn_of st c = Some k \<Longrightarrow> \<exists>k'. conn_of (send c ok hb st) c = Some k'"
  by (simp add: send_def Let_def)

lemma send_other [simp]:
  "used_ids (send c ok hb st) = used_ids st" "server_closing (send c ok hb st) = server_closing st"
  "stopper_closing (send c ok hb st) = stopper_closing st" "crashed (send c ok hb st) = crashed st"
  "map fst (conns (send c ok hb st)) = map fst (conns st)"
  "async_sent (send c ok hb st) = async_sent st"
  by (simp_all add: send_def Let_def)

lemma send_all_inv:
  "loop_inv st \<Longrightarrow> conn_of st c = Some k \<Longrightarrow> loop_inv (send_all c oks hbs st)"
proof (induction hbs arbitrary: oks st k)
  case Nil
  then show ?case by simp
next
  case (Cons hb hbs)
  obtain k' where "conn_of (send c (oks 0) hb st) c = Some k'" using send_conn Cons.prems(2) by blast
  with Cons loop_inv_send [OF Cons.prems] show ?case by simp
qed

lemma send_all_other [simp]:
  "used_ids (send_all c oks hbs st) = used_ids st"
  "server_closing (send_all c oks hbs st) = server_closing st"
  "stopper_closing (send_all c oks hbs st) = stopper_closing st"
  "crashed (send_all c oks hbs st) = crashed st"
  "async_sent (send_all c oks hbs st) = async_sent st"
  by (induction c oks hbs st rule: send_all.induct) simp_all

section \<open>Every step keeps the invariant\<close>

lemma onRead_inv:
  assumes "loop_inv st"
  shows "loop_inv (onRead J L \<sigma> reg junk c data oks st)"
proof (cases "conn_of st c")
  case None
  with assms show ?thesis by (simp add: onRead_def)
next
  case (Some k)
  have "loop_inv (send_all c oks hbs ((upd_conn c (\<lambda>k. k\<lparr>c_parser := p\<rparr>) st)\<lparr>loop_world := w\<rparr>))"
    for hbs p w
    using Some assms
    by (intro send_all_inv [of _ _ "k\<lparr>c_parser := p\<rparr>"]) (simp_all add: loop_inv_upd_same)
  with Some assms show ?thesis
    by (auto simp: onRead_def Let_def loop_inv_closeConn split: option.split sum.split prod.split)
qed

lemma onWrite_inv:
  assumes "loop_inv st" and k: "conn_of st c = Some k" and "in_flight k \<noteq> []"
  shows "loop_inv (onWrite c ok st)"
proof -
  let ?st = "if ok then st else closeConn c st"
  obtain k' where k': "conn_of ?st c = Some k'" "in_flight k' = in_flight k"
    using k by (cases ok) auto
  have "loop_inv ?st" using assms(1) loop_inv_closeConn by auto
  then have "loop_inv ((upd_conn c (\<lambda>k. k\<lparr>in_flight := tl (in_flight k)\<rparr>) ?st)
      \<lparr>wr_new := wr_new ?st, wr_deleted := wr_deleted ?st + 1\<rparr>)"
    using assms(3) k' by (intro loop_inv_upd_flight [OF _ k'(1)]) (cases "in_flight k"; auto)+
  from loop_inv_wild [THEN iffD2, OF this] show ?thesis
    by (simp add: onWrite_def Let_def upd_conn_def split: if_splits)
qed

lemma onConnClosed_inv:
  assumes "loop_inv st" and k: "conn_of st c = Some k" and "closing k" and "in_flight k = []"
  shows "loop_inv (onConnClosed c st)"
proof -
  have map_of_filter: "map_of (filter (\<lambda>(i, k). i \<noteq> c) xs) = (map_of xs)(c := None)"
    for xs :: "(cid \<times> 'a conn) list"
    by (induction xs) (auto simp: fun_eq_iff)
  have conns: "conn_of (onConnClosed c st) = (conn_of st)(c := None)"
    by (simp add: conn_of_def [abs_def] onConnClosed_def map_of_filter)
  have fst_filter: "map fst (filter (\<lambda>(i, k). i \<noteq> c) xs) = filter (\<lambda>i. i \<noteq> c) (map fst xs)"
    for xs :: "(cid \<times> 'a conn) list"
    by (induction xs) auto
  have keys: "map fst (conns (onConnClosed c st)) = filter (\<lambda>i. i \<noteq> c) (map fst (conns st))"
    by (simp add: onConnClosed_def fst_filter)
  have "distinct (map fst xs) \<Longrightarrow> map_of xs c = Some k \<Longrightarrow>
      sum_list (map (\<lambda>(i, k). length (in_flight k)) (filter (\<lambda>(i, k). i \<noteq> c) xs)) =
      sum_list (map (\<lambda>(i, k). length (in_flight k)) xs)" for xs :: "(cid \<times> 'a conn) list"
  proof (induction xs)
    case (Cons x xs)
    have "c \<notin> fst ` set ys \<Longrightarrow> filter (\<lambda>(i, k). i \<noteq> c) ys = ys" for ys :: "(cid \<times> 'a conn) list"
      by (induction ys) auto
    with Cons assms(4) show ?case by (auto split: if_splits)
  qed simp
  then have "flying (onConnClosed c st) = flying st"
    using assms(1) k by (simp add: flying_def onConnClosed_def conn_of_def loop_inv_def)
  moreover have "c \<in> set (map fst (conns st))" using k by (rule conn_of_in)
  ultimately show ?thesis
    using assms(1,3) k unfolding loop_inv_def conns keys
    by (auto simp: onConnClosed_def)
qed

lemma onConnection_inv:
  assumes inv: "loop_inv st" and new: "c \<notin> set (used_ids st)" and open_: "\<not> server_closing st"
  shows "loop_inv (onConnection L c status_ok accept_ok st)"
proof -
  let ?st = "st\<lparr>conns := (c, new_conn L) # conns st, used_ids := c # used_ids st\<rparr>"
  have conn: "conn_of ?st = (conn_of st)(c \<mapsto> new_conn L)"
    by (simp add: conn_of_def [abs_def] fun_eq_iff)
  have fly: "flying ?st = flying st" by (simp add: flying_def new_conn_def)
  have "c \<notin> set (map fst (conns st))" "c \<notin> set (deleted st)" "c \<notin> set (uv_closes st)"
    using inv new conn_of_in [of st c] by (auto simp: loop_inv_def)
  with inv open_ have "loop_inv ?st"
    unfolding loop_inv_def conn fly by (auto simp: new_conn_def)
  from inv this loop_inv_closeConn [OF this, of c] show ?thesis
    by (simp add: onConnection_def Let_def)
qed

lemma fold_closeConn_inv: "loop_inv st \<Longrightarrow> loop_inv (fold closeConn cs st)"
  by (induction cs arbitrary: st) (auto intro: loop_inv_closeConn)

lemma fold_closeConn_other [simp]:
  "map fst (conns (fold closeConn cs st)) = map fst (conns st)"
  "deleted (fold closeConn cs st) = deleted st" "crashed (fold closeConn cs st) = crashed st"
  by (induction cs arbitrary: st) simp_all

lemma conn_of_fold_closeConn:
  "conn_of (fold closeConn cs st) d =
     (if d \<in> set cs then map_option (\<lambda>k. k\<lparr>closing := True\<rparr>) (conn_of st d) else conn_of st d)"
  by (induction cs arbitrary: st) (auto simp: option.map_comp comp_def)

lemma onStop_closes: "conn_of (onStop st) c = Some k \<Longrightarrow> closing k"
  using conn_of_in [of st c]
  by (auto simp: onStop_def conn_of_fold_closeConn split: if_splits)

lemma onStop_inv: "loop_inv st \<Longrightarrow> loop_inv (onStop st)"
proof -
  assume inv: "loop_inv st"
  let ?st = "fold closeConn (map fst (conns st)) st"
  have "loop_inv ?st" using inv by (rule fold_closeConn_inv)
  moreover have "\<forall>c k. conn_of ?st c = Some k \<longrightarrow> closing k"
    using onStop_closes [of st] by (simp add: onStop_def)
  ultimately show ?thesis
    unfolding onStop_def loop_inv_def by simp
qed

lemma uv_callback_inv: "uv_callback J L \<sigma> reg junk st st' \<Longrightarrow> loop_inv st \<Longrightarrow> loop_inv st'"
proof (induction rule: uv_callback.induct)
  case (connection st c status_ok accept_ok)
  then show ?case by (simp add: onConnection_inv)
next
  case (read st c k data oks)
  then show ?case by (simp add: onRead_inv)
next
  case (written st c k status_ok)
  then show ?case by (simp add: onWrite_inv)
next
  case (closed st c k)
  then show ?case by (simp add: onConnClosed_inv)
next
  case (async st)
  then have "loop_inv (st\<lparr>async_sent := False\<rparr>)" by (simp add: loop_inv_def)
  then show ?case by (rule onStop_inv)
qed

lemma loop_inv_stop [simp]: "loop_inv (stop st) = loop_inv st"
  by (simp add: stop_def loop_inv_def)

lemma loop_step_inv: "loop_step J L \<sigma> reg junk st st' \<Longrightarrow> loop_inv st \<Longrightarrow> loop_inv st'"
  by (erule loop_stepE) (auto simp: uv_callback_inv loop_inv_stop)

interpretation loop_sys: inv_system "init_loop w" "loop_step J L \<sigma> reg junk" loop_inv
  for w J L \<sigma> reg junk
  by unfold_locales (auto simp: loop_inv_init loop_step_inv)


section \<open>No callback follows a stale pointer\<close>

lemma wild_closeConn [simp]: "wild (closeConn c st) \<longleftrightarrow> wild st \<or> conn_of st c = None"
  by (simp add: closeConn_def split: option.split)

lemma wild_send [simp]: "wild (send c ok hb st) \<longleftrightarrow> wild st \<or> conn_of st c = None"
  by (auto simp: send_def Let_def)

lemma wild_send_all: "conn_of st c = Some k \<Longrightarrow> wild (send_all c oks hbs st) = wild st"
proof (induction hbs arbitrary: oks st k)
  case (Cons hb hbs)
  obtain k' where "conn_of (send c (oks 0) hb st) c = Some k'" using send_conn Cons.prems by blast
  with Cons show ?case by simp
qed simp

lemma send_all_conn: "conn_of st c = Some k \<Longrightarrow> \<exists>k'. conn_of (send_all c oks hbs st) c = Some k'"
proof (induction hbs arbitrary: oks st k)
  case (Cons hb hbs)
  obtain k' where "conn_of (send c (oks 0) hb st) c = Some k'" using send_conn Cons.prems by blast
  with Cons show ?case by simp
qed simp

lemma wild_onRead:
  assumes "conn_of st c = Some k"
  shows "wild (onRead J L \<sigma> reg junk c data oks st) = wild st"
proof (cases data)
  case (Some bytes)
  show ?thesis
  proof (cases "read_data J L \<sigma> reg junk bytes (c_parser k) (loop_world st)")
    case (Inr r)
    obtain p1 io where r: "r = (p1, io)" by (cases r)
    let ?st1 = "(upd_conn c (\<lambda>k. k\<lparr>c_parser := p1\<rparr>) st)\<lparr>loop_world := io_world io\<rparr>"
    have k1: "conn_of ?st1 c = Some (k\<lparr>c_parser := p1\<rparr>)" using assms by simp
    obtain k2 where "conn_of (send_all c oks (io_writes io) ?st1) c = Some k2"
      using send_all_conn [OF k1] by blast
    with assms Some Inr r wild_send_all [OF k1] show ?thesis by (simp add: onRead_def Let_def)
  qed (use assms Some in \<open>simp add: onRead_def\<close>)
qed (use assms in \<open>simp add: onRead_def\<close>)

lemma wild_fold_closeConn:
  "set cs \<subseteq> set (map fst (conns st)) \<Longrightarrow> wild (fold closeConn cs st) = wild st"
proof (induction cs arbitrary: st)
  case (Cons c cs)
  have "conn_of st c \<noteq> None" using Cons.prems by (auto simp: conn_of_def map_of_eq_None_iff)
  moreover have "set cs \<subseteq> set (map fst (conns (closeConn c st)))"
    unfolding closeConn_other using Cons.prems by simp
  ultimately show ?case using Cons.IH [of "closeConn c st"] by auto
qed simp

lemma wild_onStop [simp]: "wild (onStop st) = wild st"
  by (simp add: onStop_def wild_fold_closeConn)

lemma uv_callback_wild: "uv_callback J L \<sigma> reg junk st st' \<Longrightarrow> \<not> wild st \<Longrightarrow> \<not> wild st'"
proof (induction rule: uv_callback.induct)
  case (connection st c status_ok accept_ok)
  then show ?case by (simp add: onConnection_def Let_def) (simp add: conn_of_def)
next
  case (read st c k data oks)
  then show ?case by (simp add: wild_onRead)
next
  case (written st c k status_ok)
  then show ?case by (simp add: onWrite_def no_write_def Let_def)
next
  case (closed st c k)
  then show ?case by (simp add: onConnClosed_def)
next
  case (async st)
  then show ?case by simp
qed

interpretation wild_sys: inv_system "init_loop w" "loop_step J L \<sigma> reg junk" "\<lambda>st. \<not> wild st"
  for w J L \<sigma> reg junk
proof unfold_locales
  show "\<not> wild (init_loop w)" by (simp add: init_loop_def)
qed (auto elim!: loop_stepE simp: uv_callback_wild stop_def)

section \<open>Draining after stop\<close>

text \<open>Once \<open>onStop\<close> has run, the callbacks left are those of writes and of handles being closed.\<close>

definition draining :: "('l, 'w) loop_state \<Rightarrow> bool" where
  "draining st \<longleftrightarrow>
     loop_inv st \<and> server_closing st \<and> stopper_closing st \<and> \<not> crashed st \<and>
     (\<forall>c k. conn_of st c = Some k \<longrightarrow> closing k)"

definition callbacks_left :: "('l, 'w) loop_state \<Rightarrow> nat" where
  "callbacks_left st = flying st + length (conns st)"

lemma draining_onStop: "loop_inv st \<Longrightarrow> \<not> crashed st \<Longrightarrow> draining (onStop st)"
  using onStop_closes [of st] onStop_inv [of st]
  by (auto simp: draining_def) (simp_all add: onStop_def)

lemma closeConn_closing: "conn_of st c = Some k \<Longrightarrow> closing k \<Longrightarrow> closeConn c st = st"
  by (simp add: closeConn_def)

lemma length_conns_upd [simp]: "length (conns (upd_conn c f st)) = length (conns st)"
  by (simp add: upd_conn_def upd_list_def)

lemma drain_onWrite:
  assumes "draining st" and k: "conn_of st c = Some k" and "in_flight k \<noteq> []"
  shows "draining (onWrite c ok st) \<and> callbacks_left (onWrite c ok st) < callbacks_left st"
proof -
  let ?f = "\<lambda>k::'a conn. k\<lparr>in_flight := tl (in_flight k)\<rparr>"
  have closing: "closing k" and inv: "loop_inv st" using assms(1) k by (auto simp: draining_def)
  have eq: "onWrite c ok st = (upd_conn c ?f st)\<lparr>wr_deleted := wr_deleted st + 1, wild := wild st\<rparr>"
    using closeConn_closing [OF k closing] k assms(3) by (simp add: onWrite_def no_write_def)
  have "flying (upd_conn c ?f st) + length (in_flight k) = flying st + length (tl (in_flight k))"
    using flying_upd [OF _ k, of ?f] inv by (simp add: loop_inv_def)
  then have less: "flying (upd_conn c ?f st) < flying st"
    using assms(3) by (cases "in_flight k") auto
  have "loop_inv (onWrite c ok st)" using inv k assms(3) by (rule onWrite_inv)
  with assms(1) less show ?thesis
    by (auto simp: draining_def callbacks_left_def eq split: if_splits)
qed

lemma drain_onConnClosed:
  assumes "draining st" and k: "conn_of st c = Some k" and "in_flight k = []"
  shows "draining (onConnClosed c st) \<and> callbacks_left (onConnClosed c st) < callbacks_left st"
proof -
  have closing: "closing k" and inv: "loop_inv st" using assms(1) k by (auto simp: draining_def)
  have inv1: "loop_inv (onConnClosed c st)" using inv k closing assms(3) by (rule onConnClosed_inv)
  have mem: "(c, k) \<in> set (conns st)" using k by (simp add: conn_of_def map_of_SomeD)
  then have less: "length (conns (onConnClosed c st)) < length (conns st)"
    unfolding onConnClosed_def by (simp add: length_filter_less [of "(c, k)"])
  have "sum_list (map g (filter P xs)) \<le> sum_list (map g xs)"
    for g :: "nat \<times> 'a conn \<Rightarrow> nat" and P xs
    by (induction xs) auto
  then have "flying (onConnClosed c st) \<le> flying st" by (simp add: flying_def onConnClosed_def)
  with less have "callbacks_left (onConnClosed c st) < callbacks_left st"
    by (simp add: callbacks_left_def)
  moreover have "conn_of (onConnClosed c st) d = Some l \<Longrightarrow> closing l" for d l
    using inv1 assms(1) by (auto simp: loop_inv_def draining_def onConnClosed_def)
  ultimately show ?thesis
    using inv1 assms(1) by (auto simp: draining_def onConnClosed_def)
qed

lemma drain_callback:
  assumes "uv_callback J L \<sigma> reg junk st st'" and "draining st"
  shows "draining st' \<and> callbacks_left st' < callbacks_left st"
  using assms
proof (cases rule: uv_callback.cases)
  case (read c k data oks)
  with assms(2) show ?thesis by (auto simp: draining_def)
next
  case (written c k status_ok)
  with assms(2) show ?thesis by (simp add: drain_onWrite)
next
  case (closed c k)
  with assms(2) show ?thesis by (simp add: drain_onConnClosed)
qed (auto simp: draining_def)

lemma drain_progress:
  assumes "draining st" and "loop_alive st"
  shows "\<exists>st'. uv_callback J L \<sigma> reg junk st st'"
proof -
  obtain c k xs where "conns st = (c, k) # xs"
    using assms by (cases "conns st") (auto simp: loop_alive_def draining_def)
  then have k: "conn_of st c = Some k" by (simp add: conn_of_def)
  with assms(1) have "closing k" "\<not> crashed st" by (auto simp: draining_def)
  with k show ?thesis
    using uv_callback.written [of st c k] uv_callback.closed [of st c k] by (cases "in_flight k") blast+
qed

interpretation drain:
  draining_system "uv_callback J L \<sigma> reg junk" draining callbacks_left "\<lambda>st. \<not> loop_alive st"
  for J L \<sigma> reg junk
  by unfold_locales (auto simp: drain_callback drain_progress)

text \<open>
  The destructor spins at most 64 times. When every spin makes progress, that is enough for a
  loop with at most 63 callbacks left once \<open>onStop\<close> has run.
\<close>

lemma spin_drains:
  assumes "\<And>s. draining s \<Longrightarrow> loop_alive s \<Longrightarrow> (uv_callback J L \<sigma> reg junk)\<^sup>+\<^sup>+ s (run_nowait s)"
    and "draining st" and "callbacks_left st \<le> n"
  shows "\<not> loop_alive (spin n run_nowait st)"
  using assms(2,3)
proof (induction n arbitrary: st)
  case 0
  then show ?case by (auto simp: callbacks_left_def loop_alive_def draining_def)
next
  case (Suc n)
  have drain: "draining t \<and> callbacks_left t < callbacks_left s"
    if "(uv_callback J L \<sigma> reg junk)\<^sup>+\<^sup>+ s t" "draining s" for s t
    using that by (induction rule: tranclp_induct) (auto dest: drain_callback)
  show ?case
  proof (cases "loop_alive st")
    case True
    with Suc.prems assms(1) [of st] drain [of st "run_nowait st"] Suc.IH [of "run_nowait st"]
    show ?thesis by simp
  qed simp
qed

section \<open>No exception leaves a callback\<close>

text \<open>A parser whose handler throws nothing but \<open>std::exception\<close> lets nothing escape.\<close>

lemma callback_escaping:
  assumes "\<And>r ka s. fst (h r ka s) \<noteq> Some Foreign" and "callback J h e i s = (ok, i1, s1)"
  shows "escaping i1 = escaping i"
proof (cases e)
  case (OnMessageComplete m ma mi ka)
  have "h r ka s = (Some Foreign, s2) \<Longrightarrow> False" for r s s2 using assms(1) [of r ka s] by simp
  with assms(2) show ?thesis
    by (auto simp: OnMessageComplete onMessageComplete_def resetRequest_def Let_def
      split: sum.splits prod.splits option.splits exn.splits)
qed (use assms(2) in \<open>auto simp: onUrl_def onHeaderField_def onHeaderValue_def onHeadersComplete_def onBody_def
      charge_def commitHeader_def Let_def split: if_splits\<close>)

lemma run_events_escaping:
  assumes "\<And>r ka s. fst (h r ka s) \<noteq> Some Foreign" and "run_events J h es i s = (ok, i1, s1)"
  shows "escaping i1 = escaping i"
  using assms(2)
proof (induction es arbitrary: i s)
  case (Cons e es)
  obtain ok2 i2 s2 where cb: "callback J h e i s = (ok2, i2, s2)" by (cases "callback J h e i s")
  with Cons callback_escaping [OF assms(1) cb] show ?case by (cases ok2) auto
qed simp

lemma execute_escaping:
  assumes "\<And>r ka s. fst (h r ka s) \<noteq> Some Foreign" and "execute J L h data p s = (ok, p1, s1)"
  shows "\<not> escaping (impl p1)"
proof -
  obtain es l1 code reason where ll: "ll_execute L (lex p) data = (es, l1, code, reason)"
    by (cases "ll_execute L (lex p) data")
  obtain ok2 i2 s2 where run: "run_events J h es (cleared (impl p)) s = (ok2, i2, s2)"
    by (cases "run_events J h es (cleared (impl p)) s")
  have "\<not> escaping i2" using run_events_escaping [OF assms(1) run] by simp
  with assms(2) show ?thesis unfolding execute_eq [OF ll run] by (auto split: if_splits)
qed

lemma on_request_std: "throws_std \<sigma> reg \<Longrightarrow> fst (on_request J \<sigma> reg junk r ka s) \<noteq> Some Foreign"
  using handleRequest_std [of \<sigma> reg J "junk (length (io_writes s))" r ka "io_close s" "io_world s"]
  by (auto simp: on_request_def Let_def split: option.split)

lemma read_data_throws:
  assumes "throws_std \<sigma> reg" and "read_data J L \<sigma> reg junk data p w = Inl e"
  shows "\<exists>n what. errorResponse J n 400 = Inl what \<or> errorResponse J n 431 = Inl what"
proof -
  let ?s = "\<lparr>io_world = w, io_close = False, io_writes = []\<rparr>"
  obtain ok p1 s1 where ex: "execute J L (on_request J \<sigma> reg junk) data p ?s = (ok, p1, s1)"
    by (cases "execute J L (on_request J \<sigma> reg junk) data p ?s")
  have tame: "\<not> escaping (impl p1)" using on_request_std [OF assms(1)] ex by (rule execute_escaping)
  with assms(2) ex have "\<not> ok" and thrown: "\<exists>what. errorResponse J (junk (length (io_writes s1))) (errorStatus p1) = Inl what"
    by (auto simp: read_data_def split: bool.splits sum.splits)
  with ex tame have "errorStatus p1 = 400 \<or> errorStatus p1 = 431"
    by (auto simp: execute_def Let_def split: prod.splits if_splits)
  with thrown show ?thesis by (elim disjE exE) metis+
qed

text \<open>The two texts \<open>errorResponse\<close> serialises can be serialised.\<close>

definition errors_dump :: "'j json_lib \<Rightarrow> bool" where
  "errors_dump J \<longleftrightarrow>
     (case (j_dump J (error_json J 400), j_dump J (error_json J 431)) of
        (Inr s, Inr t) \<Rightarrow> length s \<le> SIZE_MAX \<and> length t \<le> SIZE_MAX
      | _ \<Rightarrow> False)"

lemma errors_dumpD:
  assumes "errors_dump J" and "s = 400 \<or> s = 431"
  shows "errorResponse J n s \<noteq> Inl what"
  using assms errorResponse_text [of J s _ n] by (fastforce simp: errors_dump_def split: sum.splits)

lemma onRead_not_crashed:
  assumes "errors_dump J" and "throws_std \<sigma> reg" and "\<not> crashed st"
  shows "\<not> crashed (onRead J L \<sigma> reg junk c data oks st)"
proof (cases "conn_of st c")
  case (Some k)
  show ?thesis
  proof (cases data)
    case (Some bytes)
    let ?r = "read_data J L \<sigma> reg junk bytes (c_parser k) (loop_world st)"
    have "?r \<noteq> Inl e" for e
      using read_data_throws [OF assms(2), of J L junk bytes "c_parser k" "loop_world st" e]
        errors_dumpD [OF assms(1)] by blast
    then obtain p1 io where "?r = Inr (p1, io)" by (cases ?r) auto
    with \<open>conn_of st c = Some k\<close> Some assms(3) show ?thesis by (simp add: onRead_def Let_def)
  qed (use Some assms(3) in \<open>simp add: onRead_def\<close>)
qed (use assms(3) in \<open>simp add: onRead_def\<close>)

lemma loop_step_not_crashed:
  assumes "errors_dump J" and "throws_std \<sigma> reg" and "loop_step J L \<sigma> reg junk st st'" and "\<not> crashed st"
  shows "\<not> crashed st'"
  using assms(3)
proof (cases rule: loop_step.cases)
  case call
  then show ?thesis
    using assms(4)
    by (cases rule: uv_callback.cases)
      (auto simp: onConnection_def onWrite_def onConnClosed_def onStop_def Let_def
        onRead_not_crashed [OF assms(1,2)])
next
  case stopped
  then show ?thesis using assms(4) by (simp add: stop_def)
qed

section \<open>Reads, closes and pending writes\<close>

lemma send_accepted [simp]:
  "send c True hb st =
     (upd_conn c (\<lambda>k. k\<lparr>in_flight := in_flight k @ [hb]\<rparr>) st)
       \<lparr>wr_new := wr_new st + 1, sent := sent st @ [(c, hb)], wild := (wild st \<or> conn_of st c = None)\<rparr>"
  by (simp add: send_def upd_conn_def)

lemma send_all_accepted:
  assumes "\<forall>n < length hbs. oks n" and "conn_of st c = Some k"
  shows "sent (send_all c oks hbs st) = sent st @ map (Pair c) hbs \<and>
    conn_of (send_all c oks hbs st) c = Some (k\<lparr>in_flight := in_flight k @ hbs\<rparr>) \<and>
    uv_closes (send_all c oks hbs st) = uv_closes st"
  using assms
proof (induction hbs arbitrary: oks st k)
  case Nil
  then show ?case by simp
next
  case (Cons hb hbs)
  have "oks 0" "\<forall>n < length hbs. oks (Suc n)" using Cons.prems(1) by auto
  with Cons.IH [of "\<lambda>n. oks (Suc n)"] Cons.prems(2) show ?case by simp
qed

lemma onRead_accepted:
  assumes "conn_of st c = Some k" and "\<not> closing k"
    and "read_data J L \<sigma> reg junk bytes (c_parser k) (loop_world st) = Inr (p1, io)"
    and "\<forall>n < length (io_writes io). oks n"
  shows "sent (onRead J L \<sigma> reg junk c (Some bytes) oks st) = sent st @ map (Pair c) (io_writes io) \<and>
    conn_of (onRead J L \<sigma> reg junk c (Some bytes) oks st) c =
      Some (k\<lparr>c_parser := p1, closing := io_close io, in_flight := in_flight k @ io_writes io\<rparr>)"
proof -
  let ?st = "(upd_conn c (\<lambda>k. k\<lparr>c_parser := p1\<rparr>) st)\<lparr>loop_world := io_world io\<rparr>"
  have "conn_of ?st c = Some (k\<lparr>c_parser := p1\<rparr>)" using assms(1) by simp
  from send_all_accepted [OF assms(4) this] assms(1-3) show ?thesis
    by (simp add: onRead_def Let_def)
qed

section \<open>Properties\<close>

text \<open>A connection has just been accepted, for examples.\<close>

definition one_conn :: "(unit, unit) loop_state" where
  "one_conn = onConnection url_ll 7 True True (init_loop ())"

lemma one_conn_reachable:
  "loop_reachable text_json url_ll (\<lambda>r. new_router) new_registry (\<lambda>n. 0) () one_conn"
proof -
  have "uv_callback text_json url_ll (\<lambda>r. new_router) new_registry (\<lambda>n. 0) (init_loop ()) one_conn"
    unfolding one_conn_def by (rule uv_callback.connection) (simp_all add: init_loop_def)
  then show ?thesis
    unfolding loop_reachable_def by (blast intro: loop_step.call)
qed

lemma one_conn_eq: "one_conn =
    (init_loop ())\<lparr>conns := [(7, new_conn url_ll)], used_ids := [7]\<rparr>"
  by (simp add: one_conn_def onConnection_def init_loop_def Let_def)

text \<open>
  C10: In every reachable state of the loop, no connection was closed or freed twice, none is live
  after it was freed or freed without having been closed, every write request allocated and not yet
  deleted is in flight on a live connection, and no callback ever followed a pointer to a connection
  or a write request that was deleted.
\<close>

theorem connection_lifecycle:
  assumes "loop_reachable J L \<sigma> reg junk w st"
  shows "distinct (uv_closes st) \<and> distinct (deleted st) \<and>
    set (map fst (conns st)) \<inter> set (deleted st) = {} \<and> set (deleted st) \<subseteq> set (uv_closes st) \<and>
    (\<forall>c k. conn_of st c = Some k \<longrightarrow> (closing k \<longleftrightarrow> c \<in> set (uv_closes st))) \<and>
    wr_new st = wr_deleted st + flying st \<and> \<not> wild st"
proof -
  have inv: "loop_inv st"
    using loop_sys.inv_reachable [of J L \<sigma> reg junk w st] assms by (simp add: loop_reachable_def)
  have "closing k \<longleftrightarrow> c \<in> set (uv_closes st)" if "conn_of st c = Some k" for c k
    using inv that conn_of_in [OF that] by (auto simp: loop_inv_def)
  moreover have "\<not> wild st"
    using wild_sys.inv_reachable [of J L \<sigma> reg junk w st] assms by (simp add: loop_reachable_def)
  ultimately show ?thesis using inv by (auto simp: loop_inv_def)
qed

theorem connection_lifecycle_witness: "wr_new one_conn = wr_deleted one_conn + flying one_conn \<and> \<not> wild one_conn"
  using connection_lifecycle [OF one_conn_reachable] by simp

text \<open>
  C13: A stopped server drains: once \<open>onStop\<close> has run in a reachable state, at most as many
  callbacks follow as there are writes in flight and connections, the loop is never stuck before
  the last handle is gone, and a state without handles, where \<open>uv_run\<close> returns, is reached.
\<close>

theorem stopped_server_drains:
  assumes "loop_reachable J L \<sigma> reg junk w st" and "\<not> crashed st"
    and "(uv_callback J L \<sigma> reg junk ^^ n) (onStop st) st'"
  shows "n + callbacks_left st' \<le> callbacks_left (onStop st) \<and>
    (loop_alive st' \<longrightarrow> (\<exists>st2. uv_callback J L \<sigma> reg junk st' st2)) \<and>
    (\<exists>st2. (uv_callback J L \<sigma> reg junk)\<^sup>*\<^sup>* st' st2 \<and> \<not> loop_alive st2)"
proof -
  have "loop_inv st"
    using loop_sys.inv_reachable [of J L \<sigma> reg junk w st] assms(1) by (simp add: loop_reachable_def)
  then have "draining (onStop st)" using assms(2) by (rule draining_onStop)
  with drain.steps_bounded [OF assms(3)]
  have b: "draining st'" "callbacks_left st' + n \<le> callbacks_left (onStop st)" by simp_all
  then show ?thesis
    using drain.reaches_final [OF b(1), of J L \<sigma> reg junk] drain_progress [OF b(1), of J L \<sigma> reg junk]
    by auto
qed

theorem stopped_server_drains_witness:
  "\<exists>st2. (uv_callback text_json url_ll (\<lambda>r. new_router) new_registry (\<lambda>n. 0))\<^sup>*\<^sup>* (onStop one_conn) st2 \<and>
    \<not> loop_alive st2"
proof -
  have "\<not> crashed one_conn" by (simp add: one_conn_eq init_loop_def)
  moreover have "(uv_callback text_json url_ll (\<lambda>r. new_router) new_registry (\<lambda>n. 0) ^^ 0)
      (onStop one_conn) (onStop one_conn)" by simp
  ultimately show ?thesis using stopped_server_drains [OF one_conn_reachable] by blast
qed

text \<open>
  C24: No exception leaves a callback in any reachable state, whatever the clients do, if handlers and
  middleware throw nothing but exceptions derived from \<open>std::exception\<close> and the texts of the two error
  answers can be serialised.
\<close>

theorem loop_never_crashes:
  assumes "errors_dump J" and "throws_std \<sigma> reg" and "loop_reachable J L \<sigma> reg junk w st"
  shows "\<not> crashed st"
proof -
  have "(loop_step J L \<sigma> reg junk)\<^sup>*\<^sup>* (init_loop w) st" using assms(3) by (simp add: loop_reachable_def)
  then show ?thesis
  proof (induction rule: rtranclp_induct)
    case base
    then show ?case by (simp add: init_loop_def)
  next
    case (step s t)
    then show ?case using loop_step_not_crashed [OF assms(1,2)] by blast
  qed
qed

lemma text_json_errors_dump: "errors_dump text_json"
  using sample_errors by (simp add: errors_dump_def)

text \<open>The example: a connection is open to a server with a route that throws a \<open>std::exception\<close>.\<close>

definition throwing_table :: "exn \<Rightarrow> (string, unit) registry" where
  "throwing_table e = Register new_registry ''GET'' ''/a'' (Some (Exc e))"

lemma throwing_table_resolve: "resolve (throwing_table e) ''GET'' ''/a'' = Some (Exc e)"
  unfolding throwing_table_def
  by (rule resolve_literal_route [of _ "''/a''"]) (simp_all add: literal_path_def segment_eval)

lemma accepted_reachable: "loop_reachable J L \<sigma> reg junk w (onConnection L 7 True True (init_loop w))"
proof -
  have "uv_callback J L \<sigma> reg junk (init_loop w) (onConnection L 7 True True (init_loop w))"
    by (rule uv_callback.connection) (simp_all add: init_loop_def)
  then show ?thesis unfolding loop_reachable_def by (blast intro: loop_step.call)
qed

definition a_msg_ll :: "unit llhttp" where
  "a_msg_ll = script_ll (msg_events (get_msg [''/a''] True))"

text \<open>The state after a read that carries a request for the route that throws.\<close>

definition after_throw :: "exn \<Rightarrow> (unit, unit) loop_state" where
  "after_throw e =
     onRead text_json a_msg_ll (\<lambda>r. new_router) (throwing_table e) (\<lambda>n. 0) 7 (Some ''...'') (\<lambda>n. True)
       (onConnection a_msg_ll 7 True True (init_loop ()))"

lemma accepted_conn:
  "conn_of (onConnection L 7 True True (init_loop w)) 7 = Some (new_conn L)"
  "\<not> crashed (onConnection L 7 True True (init_loop w))"
  by (simp_all add: onConnection_def conn_of_def init_loop_def)

lemma after_throw_reachable:
  "loop_reachable text_json a_msg_ll (\<lambda>r. new_router) (throwing_table e) (\<lambda>n. 0) () (after_throw e)"
proof -
  have "\<not> closing (new_conn a_msg_ll)" by (simp add: new_conn_def)
  with accepted_conn [of a_msg_ll "()"]
  have "uv_callback text_json a_msg_ll (\<lambda>r. new_router) (throwing_table e) (\<lambda>n. 0)
      (onConnection a_msg_ll 7 True True (init_loop ())) (after_throw e)"
    unfolding after_throw_def by (intro uv_callback.read)
  with accepted_reachable [of text_json a_msg_ll "\<lambda>r. new_router" "throwing_table e" "\<lambda>n. 0" "()"]
  show ?thesis
    unfolding loop_reachable_def by (blast intro: loop_step.call rtranclp.rtrancl_into_rtrancl)
qed

theorem loop_never_crashes_witness: "\<not> crashed (after_throw (Std ''boom''))"
proof (rule loop_never_crashes [OF text_json_errors_dump _ after_throw_reachable])
  show "throws_std (\<lambda>r. new_router) (throwing_table (Std ''boom''))"
    by (simp add: throws_std_def app_keeps_def throwing_table_def routes_keep_def act_keeps_def)
qed

text \<open>
  C21: A handler or a middleware that throws anything else takes the whole server down:
  the \<open>catch\<close> around the handler names \<open>const std::exception&\<close> only, so the exception passes llhttp's C frames and
  leaves the callback of the loop. The request is not answered, and no callback of any connection
  follows.
\<close>

theorem foreign_exception_ends_server:
  assumes "conn_of st c = Some k" and "at_start (impl (c_parser k))"
    and "ll_execute L (lex (c_parser k)) data = (msg_events m, l, HPE_OK, reason)"
    and "msg_ok (limit (impl (c_parser k))) m" and "request_of J m = Inr r"
    and "run_chain J \<sigma> reg (start_ctx J (junk 0) r (loop_world st)) = Exc Foreign x"
  shows "crashed (onRead J L \<sigma> reg junk c (Some data) oks st) \<and>
    sent (onRead J L \<sigma> reg junk c (Some data) oks st) = sent st \<and>
    \<not> uv_callback J L \<sigma> reg junk (onRead J L \<sigma> reg junk c (Some data) oks st) st'"
proof -
  have "read_data J L \<sigma> reg junk data (c_parser k) (loop_world st) = Inl Foreign"
    using assms(2-6) by (intro foreign_exception_escapes)
  then have "onRead J L \<sigma> reg junk c (Some data) oks st = st\<lparr>crashed := True\<rparr>"
    using assms(1) by (simp add: onRead_def)
  then show ?thesis by (auto elim: uv_callbackE)
qed

theorem foreign_exception_ends_server_witness:
  "crashed (after_throw Foreign) \<and> sent (after_throw Foreign) = []"
proof -
  let ?m = "get_msg [''/a''] True" and ?reg = "throwing_table Foreign"
  obtain r where r: "request_of text_json ?m = Inr r" "req_method r = ''GET''" "req_path r = ''/a''"
    by (simp add: sample_requests applyTarget_def strip_authority_def str_find_def)
  have "queue ?reg = []" by (simp add: throwing_table_def)
  with r throwing_table_resolve [of Foreign]
  have chain: "\<exists>x. run_chain text_json (\<lambda>r. new_router) ?reg (start_ctx text_json 0 r ()) = Exc Foreign x"
    by (simp add: run_chain_no_middleware runRoute_found start_ctx_def)
  have w: "loop_world (onConnection a_msg_ll 7 True True (init_loop ())) = ()" by simp
  from chain obtain x where x: "run_chain text_json (\<lambda>r. new_router) ?reg (start_ctx text_json 0 r ()) = Exc Foreign x" ..
  have "crashed (after_throw Foreign) \<and>
    sent (after_throw Foreign) = sent (onConnection a_msg_ll 7 True True (init_loop ()))"
    unfolding after_throw_def
    using foreign_exception_ends_server [OF accepted_conn(1), where L = a_msg_ll and m = ?m and J = text_json
        and r = r and reg = ?reg and junk = "\<lambda>n. 0" and x = x] r x get_msg_ok [of "[''/a'']" True]
    by (auto simp: a_msg_ll_def script_ll_def new_conn_def new_parser_def)
  then show ?thesis by (simp add: onConnection_def init_loop_def)
qed

text \<open>
  A read appends its answers to what was sent, in order and on its own connection. The
  connection is closed in the same callback when the last answer says so, with the writes of the
  read still in flight behind those queued before.
\<close>

theorem read_sends_answers_in_order:
  assumes "conn_of st c = Some k" and "\<not> closing k"
    and "read_data J L \<sigma> reg junk bytes (c_parser k) (loop_world st) = Inr (p1, io)"
    and "\<forall>n < length (io_writes io). oks n"
  shows "sent (onRead J L \<sigma> reg junk c (Some bytes) oks st) = sent st @ map (Pair c) (io_writes io) \<and>
    conn_of (onRead J L \<sigma> reg junk c (Some bytes) oks st) c =
      Some (k\<lparr>c_parser := p1, closing := io_close io, in_flight := in_flight k @ io_writes io\<rparr>)"
  using assms by (rule onRead_accepted)

theorem read_sends_answers_in_order_witness:
  "\<exists>io :: unit io. sent (onRead text_json url_ll (\<lambda>r. new_router) new_registry (\<lambda>n. 0) 7 (Some ''/a'') (\<lambda>n. True) one_conn) =
    map (Pair 7) (io_writes io)"
proof -
  have conn: "conn_of one_conn 7 = Some (new_conn url_ll)" by (simp add: one_conn_eq conn_of_def)
  obtain p1 io where "read_data text_json url_ll (\<lambda>r. new_router) new_registry (\<lambda>n. 0) ''/a''
      (c_parser (new_conn url_ll)) (loop_world one_conn) = Inr (p1, io)"
    by (simp add: read_data_def execute_def url_ll_def new_conn_def new_parser_def new_impl_def
        onUrl_def charge_def size_of_def kMaxHeaderBytes_def)
  from read_sends_answers_in_order [OF conn _ this, of "\<lambda>n. True"]
  show ?thesis by (auto simp: new_conn_def one_conn_eq init_loop_def)
qed

text \<open>One callback of a stopped loop, as \<open>uv_run\<close> might make it.\<close>

definition pump :: "('l, 'w) loop_state \<Rightarrow> ('l, 'w) loop_state" where
  "pump st =
     (if async_sent st \<and> \<not> stopper_closing st then onStop (st\<lparr>async_sent := False\<rparr>)
      else case conns st of
        [] \<Rightarrow> st
      | (c, k) # _ \<Rightarrow> if in_flight k \<noteq> [] then onWrite c True st else onConnClosed c st)"

lemma pump_callback:
  assumes "draining st" and "loop_alive st"
  shows "uv_callback J L \<sigma> reg junk st (pump st)"
proof -
  obtain c k xs where xs: "conns st = (c, k) # xs"
    using assms by (cases "conns st") (auto simp: loop_alive_def draining_def)
  then have k: "conn_of st c = Some k" by (simp add: conn_of_def)
  with assms(1) have "closing k" "\<not> crashed st" "stopper_closing st" by (auto simp: draining_def)
  with k xs show ?thesis
    by (auto simp: pump_def intro: uv_callback.written uv_callback.closed)
qed

text \<open>
  The destructor leaves no handle open on a server with at most 63 callbacks left after the
  first turn of the loop, if every turn makes progress while something is left.
\<close>

theorem destructor_closes_handles:
  assumes "\<forall>s. draining s \<longrightarrow> loop_alive s \<longrightarrow> (uv_callback J L \<sigma> reg junk)\<^sup>+\<^sup>+ s (run_nowait s)"
    and "draining (run_nowait (stop st))" and "callbacks_left (run_nowait (stop st)) \<le> 63"
  shows "\<not> loop_alive (destroy_server run_nowait st)"
proof (cases "loop_alive (stop st)")
  case True
  have "spin 64 run_nowait (stop st) = spin (Suc 63) run_nowait (stop st)" by simp
  also have "\<dots> = spin 63 run_nowait (run_nowait (stop st))" using True by (simp only: spin.simps if_True)
  finally show ?thesis
    using spin_drains [of J L \<sigma> reg junk run_nowait "run_nowait (stop st)" 63] assms
    by (simp add: destroy_server_def)
next
  case False
  have "spin 64 run_nowait (stop st) = spin (Suc 63) run_nowait (stop st)" by simp
  also have "\<dots> = stop st" using False by (simp only: spin.simps if_False)
  finally show ?thesis using False by (simp add: destroy_server_def)
qed

theorem destructor_closes_handles_witness: "\<not> loop_alive (destroy_server pump one_conn)"
proof (rule destructor_closes_handles [where J = text_json and L = url_ll and \<sigma> = "\<lambda>r. new_router"
      and reg = new_registry and junk = "\<lambda>n. 0"])
  have inv: "loop_inv one_conn"
    using loop_sys.inv_reachable one_conn_reachable by (simp add: loop_reachable_def)
  have eq: "pump (stop one_conn) = onStop ((stop one_conn)\<lparr>async_sent := False\<rparr>)"
    by (simp add: pump_def stop_def one_conn_eq init_loop_def)
  have inv2: "loop_inv ((stop one_conn)\<lparr>async_sent := False\<rparr>)" using inv by (simp add: stop_def loop_inv_def)
  then show "draining (pump (stop one_conn))"
    unfolding eq by (rule draining_onStop) (simp add: stop_def one_conn_eq init_loop_def)
  show "callbacks_left (pump (stop one_conn)) \<le> 63"
    unfolding eq by (simp add: callbacks_left_def onStop_def closeConn_def conn_of_def stop_def one_conn_eq
        init_loop_def new_conn_def upd_conn_def upd_list_def flying_def)
qed (blast intro: pump_callback)

end
