(* ===== verification/Connection.thy ===== *)
theory Connection
  imports Event_Loop
begin

text \<open>
  The life of a whole connection: what a client reads off its connection, over all the reads of the
  connection and however the callbacks of other connections, of \<open>stop\<close> and of pending writes come
  in between. The steps of the loop are labelled, so that an execution is a list of events; the
  requests of a connection are what its chunks stand for, one after the other.
\<close>

section \<open>Labelled executions of the loop\<close>

datatype loop_event =
  Accepted cid bool bool
| Received cid "string option" "nat \<Rightarrow> bool"
| Written cid bool
| Freed cid
| Woken
| StopCalled

text \<open>When libuv may make the callback, and what the callback does.\<close>

definition open_conn :: "('l, 'w) loop_state \<Rightarrow> cid \<Rightarrow> bool" where
  "open_conn st c = (case conn_of st c of None \<Rightarrow> False | Some k \<Rightarrow> \<not> closing k)"

fun can_happen :: "loop_event \<Rightarrow> ('l, 'w) loop_state \<Rightarrow> bool" where
  "can_happen (Accepted c status_ok accept_ok) st \<longleftrightarrow>
     \<not> crashed st \<and> \<not> server_closing st \<and> c \<notin> set (used_ids st)"
| "can_happen (Received c data oks) st \<longleftrightarrow> \<not> crashed st \<and> open_conn st c"
| "can_happen (Written c status_ok) st \<longleftrightarrow>
     \<not> crashed st \<and> (case conn_of st c of None \<Rightarrow> False | Some k \<Rightarrow> in_flight k \<noteq> [])"
| "can_happen (Freed c) st \<longleftrightarrow>
     \<not> crashed st \<and> (case conn_of st c of None \<Rightarrow> False | Some k \<Rightarrow> closing k \<and> in_flight k = [])"
| "can_happen Woken st \<longleftrightarrow> \<not> crashed st \<and> async_sent st \<and> \<not> stopper_closing st"
| "can_happen StopCalled st \<longleftrightarrow> True"

fun happen ::
  "'j json_lib \<Rightarrow> 'l llhttp \<Rightarrow> ('j, 'w) store \<Rightarrow> ('j, 'w) registry \<Rightarrow> (nat \<Rightarrow> int) \<Rightarrow>
   loop_event \<Rightarrow> ('l, 'w) loop_state \<Rightarrow> ('l, 'w) loop_state" where
  "happen J L \<sigma> reg junk (Accepted c status_ok accept_ok) st = onConnection L c status_ok accept_ok st"
| "happen J L \<sigma> reg junk (Received c data oks) st = onRead J L \<sigma> reg junk c data oks st"
| "happen J L \<sigma> reg junk (Written c status_ok) st = onWrite c status_ok st"
| "happen J L \<sigma> reg junk (Freed c) st = onConnClosed c st"
| "happen J L \<sigma> reg junk Woken st = onStop (st\<lparr>async_sent := False\<rparr>)"
| "happen J L \<sigma> reg junk StopCalled st = stop st"

fun loop_trace ::
  "'j json_lib \<Rightarrow> 'l llhttp \<Rightarrow> ('j, 'w) store \<Rightarrow> ('j, 'w) registry \<Rightarrow> (nat \<Rightarrow> int) \<Rightarrow>
   loop_event list \<Rightarrow> ('l, 'w) loop_state \<Rightarrow> ('l, 'w) loop_state option" where
  "loop_trace J L \<sigma> reg junk [] st = Some st"
| "loop_trace J L \<sigma> reg junk (e # es) st =
     (if can_happen e st then loop_trace J L \<sigma> reg junk es (happen J L \<sigma> reg junk e st) else None)"

text \<open>The labels add nothing: the labelled steps are the steps of the loop.\<close>

lemma loop_step_labelled:
  "loop_step J L \<sigma> reg junk st st' \<longleftrightarrow> (\<exists>e. can_happen e st \<and> st' = happen J L \<sigma> reg junk e st)"
proof
  assume "loop_step J L \<sigma> reg junk st st'"
  then show "\<exists>e. can_happen e st \<and> st' = happen J L \<sigma> reg junk e st"
  proof (cases rule: loop_step.cases)
    case call
    then show ?thesis
    proof (cases rule: uv_callback.cases)
      case (connection c status_ok accept_ok)
      then show ?thesis by (intro exI [of _ "Accepted c status_ok accept_ok"]) simp
    next
      case (read c k data oks)
      then show ?thesis by (intro exI [of _ "Received c data oks"]) (simp add: open_conn_def)
    next
      case (written c k status_ok)
      then show ?thesis by (intro exI [of _ "Written c status_ok"]) simp
    next
      case (closed c k)
      then show ?thesis by (intro exI [of _ "Freed c"]) simp
    next
      case async
      then show ?thesis by (intro exI [of _ Woken]) simp
    qed
  next
    case stopped
    then show ?thesis by (intro exI [of _ StopCalled]) simp
  qed
next
  assume "\<exists>e. can_happen e st \<and> st' = happen J L \<sigma> reg junk e st"
  then obtain e where "can_happen e st" "st' = happen J L \<sigma> reg junk e st" by blast
  then show "loop_step J L \<sigma> reg junk st st'"
    by (cases e)
      (auto simp: open_conn_def split: option.splits
        intro: loop_step.intros uv_callback.intros)
qed

lemma loop_trace_append:
  "loop_trace J L \<sigma> reg junk (es @ fs) st =
     Option.bind (loop_trace J L \<sigma> reg junk es st) (loop_trace J L \<sigma> reg junk fs)"
  by (induction es arbitrary: st) simp_all

lemma loop_trace_snoc:
  "loop_trace J L \<sigma> reg junk (es @ [e]) st = Some st' \<longleftrightarrow>
   (\<exists>s. loop_trace J L \<sigma> reg junk es st = Some s \<and> can_happen e s \<and> st' = happen J L \<sigma> reg junk e s)"
  by (auto simp: loop_trace_append bind_eq_Some_conv)

lemma loop_trace_reaches:
  "(loop_step J L \<sigma> reg junk)\<^sup>*\<^sup>* st st' \<longleftrightarrow> (\<exists>es. loop_trace J L \<sigma> reg junk es st = Some st')"
proof
  assume "(loop_step J L \<sigma> reg junk)\<^sup>*\<^sup>* st st'"
  then show "\<exists>es. loop_trace J L \<sigma> reg junk es st = Some st'"
  proof (induction rule: rtranclp_induct)
    case base
    show ?case by (rule exI [of _ "[]"]) simp
  next
    case (step s t)
    then obtain es e where "loop_trace J L \<sigma> reg junk es st = Some s"
      "can_happen e s" "t = happen J L \<sigma> reg junk e s"
      by (auto simp: loop_step_labelled)
    then have "loop_trace J L \<sigma> reg junk (es @ [e]) st = Some t" by (auto simp: loop_trace_snoc)
    then show ?case by blast
  qed
next
  assume "\<exists>es. loop_trace J L \<sigma> reg junk es st = Some st'"
  then obtain es where "loop_trace J L \<sigma> reg junk es st = Some st'" ..
  then show "(loop_step J L \<sigma> reg junk)\<^sup>*\<^sup>* st st'"
  proof (induction es arbitrary: st)
    case (Cons e es)
    then have "loop_step J L \<sigma> reg junk st (happen J L \<sigma> reg junk e st)"
      by (auto simp: loop_step_labelled split: if_splits)
    with Cons show ?case by (auto split: if_splits intro: converse_rtranclp_into_rtranclp)
  qed simp
qed

lemma loop_trace_inv: "loop_trace J L \<sigma> reg junk es (init_loop w) = Some st \<Longrightarrow> loop_inv st"
  by (rule loop_sys.inv_reachable [of J L \<sigma> reg junk w]) (auto simp: loop_trace_reaches)

section \<open>The requests in a stream\<close>

text \<open>A request handler that only notes what it is asked.\<close>

definition note_request :: "('j, ('j request \<times> bool) list) request_handler" where
  "note_request r ka rs = (None, rs @ [(r, ka)])"

text \<open>
  The requests in the chunks a connection reads, with their keep-alive verdicts, from a state of
  the lexer and of the parser; nothing if a chunk is rejected.
\<close>

fun read_chunks ::
  "'j json_lib \<Rightarrow> 'l llhttp \<Rightarrow> string list \<Rightarrow> 'l \<Rightarrow> impl \<Rightarrow>
   ('l \<times> impl \<times> ('j request \<times> bool) list) option" where
  "read_chunks J L [] l i = Some (l, i, [])"
| "read_chunks J L (d # ds) l i =
     (let (es, l1, code, reason) = ll_execute L l d;
          (ok, i1, rs) = run_events J note_request es (cleared i) [] in
      if ok \<and> code = HPE_OK
      then map_option (\<lambda>(l2, i2, rs2). (l2, i2, rs @ rs2)) (read_chunks J L ds l1 i1)
      else None)"

lemma read_chunks_snoc:
  "read_chunks J L (ds @ [d]) l i = Some (l2, i2, rs2) \<Longrightarrow>
   \<exists>l1 i1 rs1 es reason rs. read_chunks J L ds l i = Some (l1, i1, rs1) \<and>
     ll_execute L l1 d = (es, l2, HPE_OK, reason) \<and>
     run_events J note_request es (cleared i1) [] = (True, i2, rs) \<and> rs2 = rs1 @ rs"
proof (induction ds arbitrary: l i rs2)
  case Nil
  then show ?case by (auto simp: Let_def split: prod.splits if_splits)
next
  case (Cons d' ds)
  obtain es la code reason where ex: "ll_execute L l d' = (es, la, code, reason)"
    by (cases "ll_execute L l d'")
  obtain ok ia ra where run: "run_events J note_request es (cleared i) [] = (ok, ia, ra)"
    by (cases "run_events J note_request es (cleared i) []")
  from Cons.prems obtain rs3 where ok: "ok" "code = HPE_OK"
    and rest: "read_chunks J L (ds @ [d]) la ia = Some (l2, i2, rs3)" "rs2 = ra @ rs3"
    by (auto simp: ex run Let_def split: if_splits)
  from Cons.IH [OF rest(1)] ok rest(2) show ?case by (fastforce simp: ex run Let_def)
qed

lemma note_request_prefix:
  "run_events J note_request es i rs = (ok, i1, rs1) \<Longrightarrow> prefix rs rs1"
proof (induction es arbitrary: i rs)
  case (Cons e es)
  obtain ok2 i2 rs2 where cb: "callback J note_request e i rs = (ok2, i2, rs2)"
    by (cases "callback J note_request e i rs")
  then have "prefix rs rs2"
    by (cases e) (auto simp: onMessageComplete_def note_request_def Let_def
        split: sum.splits prod.splits)
  with Cons cb show ?case by (cases ok2) (auto intro: prefix_order.trans)
qed simp

text \<open>
  A handler that keeps a relation between its state and the requests noted so far does so over a
  whole run of events.
\<close>

lemma run_events_simulates:
  assumes "run_events J note_request es i rs = (True, i1, rs1)" and "P s rs"
    and "\<And>r ka s rs. (r, ka) \<in> set rs1 \<Longrightarrow> P s rs \<Longrightarrow> \<exists>s'. h r ka s = (None, s') \<and> P s' (rs @ [(r, ka)])"
  shows "prefix rs rs1 \<and> (\<exists>s'. run_events J h es i s = (True, i1, s') \<and> P s' rs1)"
  using assms(1,2)
proof (induction es arbitrary: i rs s)
  case Nil
  then show ?case by simp
next
  case (Cons e es)
  then obtain i2 rs2 where cb: "callback J note_request e i rs = (True, i2, rs2)"
    and rest: "run_events J note_request es i2 rs2 = (True, i1, rs1)"
    by (auto split: prod.splits bool.splits)
  show ?case
  proof (cases "is_complete e")
    case True
    then obtain m ma mi ka where e: "e = OnMessageComplete m ma mi ka" by (cases e) auto
    with cb obtain r where r: "build_request J m ma mi (target i) (iheaders i) (ibody i) = Inr r"
      "i2 = resetRequest i" "rs2 = rs @ [(r, ka)]"
      by (auto simp: onMessageComplete_def note_request_def Let_def split: sum.splits)
    have mem: "(r, ka) \<in> set rs1"
      using note_request_prefix [OF rest] r(3) by (auto dest!: set_mono_prefix)
    from assms(3) [OF mem Cons.prems(2)] obtain s2 where
      "h r ka s = (None, s2)" "P s2 (rs @ [(r, ka)])" by blast
    with Cons.IH [of i2 rs2 s2] rest r show ?thesis
      by (auto simp: e onMessageComplete_def Let_def dest: append_prefixD)
  next
    case False
    then have "callback J h e i s = (True, i2, s)" "rs2 = rs"
      using cb by (cases e; auto split: prod.splits)+
    with Cons.IH [OF rest, of s] Cons.prems(2) show ?thesis by simp
  qed
qed

section \<open>The answers of a read\<close>

text \<open>An answer, as a client reads it: the status line, and the body unless the request was HEAD.\<close>

type_synonym answer = "string \<times> string option"

definition reply_of :: "'j json_lib \<Rightarrow> ('j, 'w) ctx \<Rightarrow> answer" where
  "reply_of J c =
     (fst (answer_of J c), if req_method (req c) = ''HEAD'' then None else Some (snd (answer_of J c)))"

text \<open>
  What is assumed of the application: whatever the world and the memory a response starts with, each
  of the requests is answered with a framable response whose status line and body are a function of
  the request, and no handler changes the method. Handlers may have side effects.
\<close>

definition serves ::
  "'j json_lib \<Rightarrow> ('j, 'w) store \<Rightarrow> ('j, 'w) registry \<Rightarrow> ('j request \<Rightarrow> answer) \<Rightarrow> 'j request set \<Rightarrow> bool" where
  "serves J \<sigma> reg ans R \<longleftrightarrow>
     (\<forall>r \<in> R. \<forall>junk w. \<exists>c. run_chain J \<sigma> reg (start_ctx J junk r w) = Ret c \<and>
        framable J (res c) \<and> req_method (req c) = req_method r \<and> reply_of J c = ans r)"

lemma serves_HEAD:
  assumes "serves J \<sigma> reg ans R" and "r \<in> R"
  shows "(snd (ans r) = None) = (req_method r = ''HEAD'')"
proof -
  obtain c where "run_chain J \<sigma> reg (start_ctx J 0 r undefined) = Ret c" "req_method (req c) = req_method r"
    "reply_of J c = ans r" using assms unfolding serves_def by blast
  then show ?thesis by (simp add: reply_of_def flip: \<open>reply_of J c = ans r\<close>)
qed

text \<open>Bytes from which, whatever follows them, a client reads one answer with this content.\<close>

definition carries :: "answer \<Rightarrow> string \<times> string \<Rightarrow> bool" where
  "carries a hb \<longleftrightarrow>
     (\<forall>rest. case snd a of
        Some body \<Rightarrow> \<exists>hs. read_message (wire hb @ rest) = Some (fst a, hs, body, rest)
      | None \<Rightarrow> \<exists>hs. read_head (wire hb @ rest) = Some (fst a, hs, rest))"

text \<open>A client that knows which of its requests were HEAD reads their answers off a stream.\<close>

fun read_answers :: "string list \<Rightarrow> string \<Rightarrow> (answer list \<times> string) option" where
  "read_answers [] s = Some ([], s)"
| "read_answers (m # ms) s =
     (case (if m = ''HEAD'' then map_option (\<lambda>(line, hs, rest). (line, None, rest)) (read_head s)
            else map_option (\<lambda>(line, hs, body, rest). (line, Some body, rest)) (read_message s)) of
        None \<Rightarrow> None
      | Some (line, body, rest) \<Rightarrow> map_option (\<lambda>(as, rest'). ((line, body) # as, rest')) (read_answers ms rest))"

lemma read_answers_carries:
  assumes "list_all2 (\<lambda>r hb. carries (ans r) hb \<and> (snd (ans r) = None) = (req_method r = ''HEAD'')) rs ws"
  shows "read_answers (map req_method rs) (concat (map wire ws) @ rest) = Some (map ans rs, rest)"
  using assms
proof (induction rule: list_all2_induct)
  case (Cons r rs w ws)
  let ?more = "concat (map wire ws) @ rest"
  have "carries (ans r) w" "(snd (ans r) = None) = (req_method r = ''HEAD'')" using Cons.hyps(1) by simp_all
  then have "case snd (ans r) of
      Some body \<Rightarrow> req_method r \<noteq> ''HEAD'' \<and> (\<exists>hs. read_message (wire w @ ?more) = Some (fst (ans r), hs, body, ?more))
    | None \<Rightarrow> req_method r = ''HEAD'' \<and> (\<exists>hs. read_head (wire w @ ?more) = Some (fst (ans r), hs, ?more))"
    by (auto simp: carries_def split: option.splits)
  with Cons.IH show ?case by (cases "ans r") (auto split: option.splits)
qed simp

lemma read_stream_carries:
  "list_all2 (\<lambda>a. carries (fst a, Some (snd a))) as ws \<Longrightarrow>
   read_stream (length as) (concat (map wire ws) @ rest) = Some (as, rest)"
proof (induction rule: list_all2_induct)
  case (Cons a as w ws)
  from Cons.hyps(1) obtain hs where
    "read_message (wire w @ concat (map wire ws) @ rest) = Some (fst a, hs, snd a, concat (map wire ws) @ rest)"
    unfolding carries_def by fastforce
  with Cons.IH show ?case by simp
qed simp

lemma handleRequest_carries:
  assumes "serves J \<sigma> reg ans R" and "r \<in> R"
  shows "\<exists>h. h = handleRequest J \<sigma> reg junk r ka sc w \<and> h_exc h = None \<and> h_close h = (\<not> ka) \<and>
    carries (ans r) (h_head h, h_body h)"
proof -
  obtain c where c: "run_chain J \<sigma> reg (start_ctx J junk r w) = Ret c" "framable J (res c)"
    "reply_of J c = ans r"
    using assms unfolding serves_def by blast
  show ?thesis
  proof (cases "req_method (req c) = ''HEAD''")
    case True
    let ?res = "finish_response (\<not> ka) (res c)"
    have "read_head (head_text ?res @ rest) = Some (status_line ?res, res_headers ?res, rest)" for rest
      using c(2) by (intro read_head_back header_safe_finish) (simp_all add: framable_def)
    then show ?thesis
      using handleRequest_HEAD [OF c(1) True, of ka sc] True
      by (simp add: carries_def wire_def reply_of_def answer_of_def flip: c(3))
  next
    case False
    let ?h = "handleRequest J \<sigma> reg junk r ka sc w"
    have "h_exc ?h = None \<and> h_close ?h = (\<not> ka) \<and>
        (\<exists>hs. read_message (wire (h_head ?h, h_body ?h) @ rest) = Some (fst (answer_of J c), hs, snd (answer_of J c), rest))"
      for rest
      using handleRequest_framed [OF c(1,2) False, of ka sc rest] by (auto simp: answer_of_def)
    then show ?thesis using False by (simp add: carries_def reply_of_def flip: c(3))
  qed
qed

text \<open>The state the request handler of \<open>onRead\<close> is in after some requests were answered.\<close>

definition answered ::
  "('j request \<Rightarrow> answer) \<Rightarrow> 'w io \<Rightarrow> ('j request \<times> bool) list \<Rightarrow> bool" where
  "answered ans s rs \<longleftrightarrow>
     list_all2 carries (map (\<lambda>(r, ka). ans r) rs) (io_writes s) \<and>
     io_close s = (rs \<noteq> [] \<and> \<not> snd (last rs))"

lemma read_data_answered:
  assumes "ll_execute L (lex p) data = (es, l1, HPE_OK, reason)"
    and "run_events J note_request es (cleared (impl p)) [] = (True, i1, rs)"
    and "serves J \<sigma> reg ans (fst ` set rs)"
  shows "\<exists>io. read_data J L \<sigma> reg junk data p w = Inr (p\<lparr>impl := i1, lex := l1\<rparr>, io) \<and> answered ans io rs"
proof -
  let ?s = "\<lparr>io_world = w, io_close = False, io_writes = []\<rparr>"
  have start: "answered ans ?s []" by (simp add: answered_def)
  have step: "\<exists>s'. on_request J \<sigma> reg junk r ka s = (None, s') \<and> answered ans s' (rs' @ [(r, ka)])"
    if "(r, ka) \<in> set rs" "answered ans s rs'" for r ka s rs'
  proof -
    have "r \<in> fst ` set rs" using that(1) by force
    from handleRequest_carries [OF assms(3) this, of "junk (length (io_writes s))" ka "io_close s" "io_world s"]
      that(2)
    show ?thesis
      by (auto simp: on_request_def answered_def Let_def list_all2_append list_all2_lengthD
          intro!: list_all2_appendI)
  qed
  from run_events_simulates [where P = "answered ans" and h = "on_request J \<sigma> reg junk",
      OF assms(2) start step]
  obtain s' where run: "run_events J (on_request J \<sigma> reg junk) es (cleared (impl p)) ?s = (True, i1, s')"
    "answered ans s' rs" by blast
  then have "execute J L (on_request J \<sigma> reg junk) data p ?s = (True, p\<lparr>impl := i1, lex := l1\<rparr>, s')"
    using execute_eq [OF assms(1) run(1)] by simp
  with run(2) show ?thesis by (simp add: read_data_def)
qed

section \<open>One connection among others\<close>

text \<open>The chunks an event brings a connection, and whether \<open>uv_write\<close> took all of its answers.\<close>

fun chunk_for :: "cid \<Rightarrow> loop_event \<Rightarrow> string list" where
  "chunk_for c (Received d (Some bytes) oks) = (if d = c then [bytes] else [])"
| "chunk_for c e = []"

definition chunks_of :: "cid \<Rightarrow> loop_event list \<Rightarrow> string list" where
  "chunks_of c tr = concat (map (chunk_for c) tr)"

fun taken_by_uv :: "cid \<Rightarrow> loop_event \<Rightarrow> bool" where
  "taken_by_uv c (Received d data oks) \<longleftrightarrow> d = c \<longrightarrow> (\<forall>n. oks n)"
| "taken_by_uv c e \<longleftrightarrow> True"

definition sent_on :: "cid \<Rightarrow> ('l, 'w) loop_state \<Rightarrow> (string \<times> string) list" where
  "sent_on c st = map snd (filter (\<lambda>x. fst x = c) (sent st))"

lemma sent_on_simps [simp]:
  "sent_on c (closeConn d st) = sent_on c st" "sent_on c (upd_conn d f st) = sent_on c st"
  "sent_on c (st\<lparr>loop_world := v2\<rparr>) = sent_on c st" "sent_on c (st\<lparr>crashed := v3\<rparr>) = sent_on c st"
  "sent_on c (st\<lparr>wild := v3\<rparr>) = sent_on c st"
  "sent_on c (st\<lparr>wr_deleted := v5\<rparr>) = sent_on c st" "sent_on c (st\<lparr>wr_new := v5\<rparr>) = sent_on c st"
  "sent_on c (st\<lparr>async_sent := v3\<rparr>) = sent_on c st" "sent_on c (onConnClosed d st) = sent_on c st"
  "sent_on c (stop st) = sent_on c st" "sent_on c (onConnection L d ok1 ok2 st) = sent_on c st"
  "sent_on c (onWrite d ok st) = sent_on c st"
  by (simp_all add: sent_on_def onConnClosed_def stop_def onConnection_def onWrite_def Let_def)

lemma sent_on_fold_closeConn [simp]: "sent_on c (fold closeConn cs st) = sent_on c st"
  by (induction cs arbitrary: st) simp_all

lemma used_ids_fold_closeConn [simp]: "used_ids (fold closeConn cs st) = used_ids st"
  by (induction cs arbitrary: st) simp_all

lemma sent_on_onStop [simp]: "sent_on c (onStop st) = sent_on c st"
  using sent_on_fold_closeConn [of c "map fst (conns st)" st] by (simp add: onStop_def sent_on_def)

lemma send_all_elsewhere [simp]:
  assumes "d \<noteq> c"
  shows "sent_on c (send_all d oks hbs st) = sent_on c st"
    and "conn_of (send_all d oks hbs st) c = conn_of st c"
  using assms
  by (induction d oks hbs st rule: send_all.induct) (auto simp: send_def sent_on_def Let_def)

lemma onRead_elsewhere:
  assumes "d \<noteq> c"
  shows "sent_on c (onRead J L \<sigma> reg junk d data oks st) = sent_on c st"
    and "conn_of (onRead J L \<sigma> reg junk d data oks st) c = conn_of st c"
  using assms
  by (auto simp: onRead_def Let_def split: option.split sum.split prod.split)

lemma conn_of_onConnClosed:
  "conn_of (onConnClosed d st) c = (if c = d then None else conn_of st c)"
proof -
  have "map_of (filter (\<lambda>(i, k). i \<noteq> d) xs) c = (if c = d then None else map_of xs c)"
    for xs :: "(cid \<times> 'a conn) list"
    by (induction xs) auto
  then show ?thesis by (simp add: conn_of_def onConnClosed_def)
qed

lemma conn_of_onStop:
  "conn_of (onStop st) c = map_option (\<lambda>k. k\<lparr>closing := True\<rparr>) (conn_of st c)"
  using conn_of_in [of st c]
  by (cases "conn_of st c") (auto simp: onStop_def conn_of_fold_closeConn)

text \<open>
  An event that neither accepts the connection nor brings it data sends nothing on it, leaves its
  parser alone, and does not open it again.
\<close>

definition quiet_for :: "cid \<Rightarrow> loop_event \<Rightarrow> bool" where
  "quiet_for c e \<longleftrightarrow> chunk_for c e = [] \<and> (\<forall>ok1 ok2. e \<noteq> Accepted c ok1 ok2)"

text \<open>Such an event, and one on another connection, sends nothing and leaves the parser as it is.\<close>

lemma quiet_received: "quiet_for c (Received c data oks) \<Longrightarrow> data = None"
  by (cases data) (auto simp: quiet_for_def)

lemma quiet_sends_nothing:
  assumes "quiet_for c e"
  shows "sent_on c (happen J L \<sigma> reg junk e st) = sent_on c st"
proof (cases e)
  case (Received d data oks)
  then show ?thesis
    using assms quiet_received [of c data oks]
    by (cases "d = c") (simp add: onRead_def split: option.split, simp add: onRead_elsewhere)
qed simp_all

lemma quiet_used_ids:
  assumes "quiet_for c e"
  shows "c \<in> set (used_ids (happen J L \<sigma> reg junk e st)) \<longleftrightarrow> c \<in> set (used_ids st)"
  using assms
  by (cases e)
    (auto simp: quiet_for_def onConnection_def onRead_def onWrite_def onConnClosed_def onStop_def
      stop_def Let_def split: option.split sum.split prod.split)

lemma quiet_accepted:
  "quiet_for c (Accepted d ok1 ok2) \<Longrightarrow>
   conn_of (happen J L \<sigma> reg junk (Accepted d ok1 ok2) st) c = conn_of st c"
  by (auto simp: quiet_for_def onConnection_def conn_of_def closeConn_def upd_conn_def map_of_upd_list Let_def
      split: option.split)

lemma quiet_keeps_parser:
  assumes "quiet_for c e" and k': "conn_of (happen J L \<sigma> reg junk e st) c = Some k'"
  shows "\<exists>k. conn_of st c = Some k \<and> c_parser k' = c_parser k \<and> (closing k \<longrightarrow> closing k')"
proof (cases e)
  case (Accepted d ok1 ok2)
  with assms show ?thesis by (metis quiet_accepted)
next
  case (Received d data oks)
  show ?thesis
  proof (cases "d = c")
    case True
    with assms Received quiet_received [of c data oks] show ?thesis by (auto simp: onRead_def split: option.splits)
  qed (use Received k' in \<open>simp add: onRead_elsewhere\<close>)
next
  case (Written d ok)
  with k' show ?thesis by (auto simp: onWrite_def Let_def split: if_splits)
next
  case (Freed d)
  with k' show ?thesis by (auto simp: conn_of_onConnClosed split: if_splits)
next
  case Woken
  with k' show ?thesis by (auto simp: onStop_def conn_of_fold_closeConn split: if_splits)
next
  case StopCalled
  with k' show ?thesis by (simp add: stop_def)
qed

section \<open>What a connection has sent\<close>

definition conn_inv ::
  "('j request \<Rightarrow> answer) \<Rightarrow> cid \<Rightarrow> ('l, 'w) loop_state \<Rightarrow> 'l \<Rightarrow> impl \<Rightarrow>
   ('j request \<times> bool) list \<Rightarrow> bool" where
  "conn_inv ans c st l i rs \<longleftrightarrow>
     list_all2 carries (map (\<lambda>(r, ka). ans r) rs) (sent_on c st) \<and>
     (\<forall>k. conn_of st c = Some k \<longrightarrow>
        impl (c_parser k) = i \<and> lex (c_parser k) = l \<and>
        (\<not> closing k \<longrightarrow> rs = [] \<or> snd (last rs)))"

lemma conn_inv_quiet:
  assumes "quiet_for c e" and "conn_inv ans c st l i rs"
  shows "conn_inv ans c (happen J L \<sigma> reg junk e st) l i rs"
  using assms(2) quiet_sends_nothing [OF assms(1), of J L \<sigma> reg junk st]
    quiet_keeps_parser [OF assms(1), of J L \<sigma> reg junk st]
  unfolding conn_inv_def by fastforce

lemma conn_inv_read:
  assumes "conn_inv ans c st l1 i1 rs1" and "open_conn st c" and "\<forall>n. oks n"
    and "ll_execute L l1 d = (es, l2, HPE_OK, reason)"
    and "run_events J note_request es (cleared i1) [] = (True, i2, rs)"
    and "serves J \<sigma> reg ans (fst ` set rs)"
  shows "conn_inv ans c (onRead J L \<sigma> reg junk c (Some d) oks st) l2 i2 (rs1 @ rs)"
proof -
  obtain k where k: "conn_of st c = Some k" "\<not> closing k"
    using assms(2) by (auto simp: open_conn_def split: option.splits)
  with assms(1) have p: "impl (c_parser k) = i1" "lex (c_parser k) = l1" "rs1 = [] \<or> snd (last rs1)"
    and before: "list_all2 carries (map (\<lambda>(r, ka). ans r) rs1) (sent_on c st)"
    by (auto simp: conn_inv_def)
  obtain io where io: "read_data J L \<sigma> reg junk d (c_parser k) (loop_world st) =
      Inr ((c_parser k)\<lparr>impl := i2, lex := l2\<rparr>, io)" "answered ans io rs"
    using read_data_answered [of L "c_parser k" d es l2 reason J i2 rs \<sigma> reg ans junk "loop_world st"]
      assms(4-6) p by auto
  from onRead_accepted [OF k io(1)] assms(3)
  have after: "sent_on c (onRead J L \<sigma> reg junk c (Some d) oks st) = sent_on c st @ io_writes io"
    "conn_of (onRead J L \<sigma> reg junk c (Some d) oks st) c =
      Some (k\<lparr>c_parser := (c_parser k)\<lparr>impl := i2, lex := l2\<rparr>, closing := io_close io,
        in_flight := in_flight k @ io_writes io\<rparr>)"
    by (simp_all add: sent_on_def filter_map comp_def)
  show ?thesis
    using before io(2) p(3) unfolding conn_inv_def after answered_def
    by (auto intro: list_all2_appendI simp: last_append)
qed

lemma chunks_of_simps [simp]:
  "chunks_of c [] = []" "chunks_of c (tr @ [e]) = chunks_of c tr @ chunk_for c e"
  by (simp_all add: chunks_of_def)

text \<open>The invariant of one connection over every execution of the loop.\<close>

lemma conn_inv_accepted:
  assumes "conn_inv ans c s (ll_init L) (new_impl kMaxHeaderBytes) []" and "loop_inv s" and "c \<notin> set (used_ids s)"
  shows "conn_inv ans c (happen J L \<sigma> reg junk (Accepted c ok1 ok2) s) (ll_init L) (new_impl kMaxHeaderBytes) []"
proof -
  have "conn_of s c = None" using assms(2,3) conn_of_in [of s c] by (cases "conn_of s c") (auto simp: loop_inv_def)
  with assms(1) show ?thesis
    by (auto simp: conn_inv_def onConnection_def new_conn_def new_parser_def conn_of_def closeConn_def
        upd_conn_def upd_list_def sent_on_def Let_def)
qed

lemma read_keeps_used:
  assumes "can_happen (Received c (Some d) oks) s" and "loop_inv s"
  shows "c \<in> set (used_ids (happen J L \<sigma> reg junk (Received c (Some d) oks) s))"
proof -
  from assms(1) obtain k where "conn_of s c = Some k" by (auto simp: open_conn_def split: option.splits)
  from conn_of_in [OF this] assms(2) have "c \<in> set (used_ids s)" unfolding loop_inv_def by blast
  then show ?thesis by (simp add: onRead_def Let_def split: option.split sum.split prod.split)
qed

lemma conn_inv_trace:
  assumes "loop_trace J L \<sigma> reg junk tr (init_loop w) = Some st"
    and "list_all (taken_by_uv c) tr"
    and "read_chunks J L (chunks_of c tr) (ll_init L) (new_impl kMaxHeaderBytes) = Some (l, i, rs)"
    and "serves J \<sigma> reg ans (fst ` set rs)"
  shows "conn_inv ans c st l i rs \<and> (c \<notin> set (used_ids st) \<longrightarrow> chunks_of c tr = [])"
  using assms
proof (induction tr arbitrary: st l i rs rule: rev_induct)
  case Nil
  then show ?case by (auto simp: conn_inv_def init_loop_def sent_on_def conn_of_def)
next
  case (snoc e tr)
  then obtain s where s: "loop_trace J L \<sigma> reg junk tr (init_loop w) = Some s" "can_happen e s"
    "st = happen J L \<sigma> reg junk e s"
    by (auto simp: loop_trace_snoc)
  have taken: "list_all (taken_by_uv c) tr" "taken_by_uv c e" using snoc.prems(2) by simp_all
  have inv: "loop_inv s" using s(1) by (rule loop_trace_inv)
  have "quiet_for c e \<or> (\<exists>ok1 ok2. e = Accepted c ok1 ok2) \<or> (\<exists>d oks. e = Received c (Some d) oks)"
    unfolding quiet_for_def by (cases "(c, e)" rule: chunk_for.cases) auto
  then consider "quiet_for c e" | (acc) ok1 ok2 where "e = Accepted c ok1 ok2"
    | (got) d oks where "e = Received c (Some d) oks" by blast
  then show ?case
  proof cases
    case 1
    then have "chunks_of c (tr @ [e]) = chunks_of c tr" by (simp add: quiet_for_def)
    with snoc.IH [OF s(1) taken(1)] snoc.prems(3,4) 1 s(3) show ?thesis
      by (simp add: conn_inv_quiet quiet_used_ids)
  next
    case acc
    with s(2) have new: "c \<notin> set (used_ids s)" by simp
    have IH: "conn_inv ans c s l i rs" "chunks_of c tr = []"
      using snoc.IH [OF s(1) taken(1)] snoc.prems(3,4) new acc by simp_all
    then have "l = ll_init L" "i = new_impl kMaxHeaderBytes" "rs = []" using snoc.prems(3) acc by simp_all
    with conn_inv_accepted [OF _ inv new] IH acc s(3) show ?thesis by simp
  next
    case got
    then obtain l1 i1 rs1 es reason rs2 where chunks:
      "read_chunks J L (chunks_of c tr) (ll_init L) (new_impl kMaxHeaderBytes) = Some (l1, i1, rs1)"
      "ll_execute L l1 d = (es, l, HPE_OK, reason)"
      "run_events J note_request es (cleared i1) [] = (True, i, rs2)" "rs = rs1 @ rs2"
      using read_chunks_snoc [of J L "chunks_of c tr" d] snoc.prems(3) by fastforce
    have served: "serves J \<sigma> reg ans (fst ` set rs1)" "serves J \<sigma> reg ans (fst ` set rs2)"
      using snoc.prems(4) chunks(4) by (auto simp: serves_def)
    have "conn_inv ans c s l1 i1 rs1" using snoc.IH [OF s(1) taken(1) chunks(1) served(1)] by simp
    then have "conn_inv ans c st l i rs"
      using conn_inv_read [OF _ _ _ chunks(2,3) served(2), of c s rs1 oks junk] s got taken(2)
      by (simp add: chunks(4))
    with read_keeps_used inv s(2,3) got show ?thesis by blast
  qed
qed

section \<open>Whole messages in any chunks\<close>

text \<open>What llhttp makes of the chunks of a stream; nothing once it reports an error.\<close>

fun lex_chunks :: "'l llhttp \<Rightarrow> string list \<Rightarrow> 'l \<Rightarrow> (event list \<times> 'l) option" where
  "lex_chunks L [] l = Some ([], l)"
| "lex_chunks L (d # ds) l =
     (let (es, l1, code, reason) = ll_execute L l d in
      if code = HPE_OK then map_option (\<lambda>(es2, l2). (es @ es2, l2)) (lex_chunks L ds l1) else None)"

lemma note_request_shift:
  "run_events J note_request es i rs = (ok, i1, rs1) \<Longrightarrow>
   run_events J note_request es i (rs0 @ rs) = (ok, i1, rs0 @ rs1)"
proof (induction es arbitrary: i rs)
  case (Cons e es)
  obtain ok2 i2 rs2 where cb: "callback J note_request e i rs = (ok2, i2, rs2)"
    by (cases "callback J note_request e i rs")
  then have "callback J note_request e i (rs0 @ rs) = (ok2, i2, rs0 @ rs2)"
    by (cases e) (auto simp: onMessageComplete_def note_request_def Let_def
        split: sum.splits prod.splits)
  with Cons cb show ?case by (cases ok2) auto
qed simp

text \<open>Reading a stream in chunks finds the requests that are in the stream.\<close>

lemma read_chunks_lex:
  assumes "lex_chunks L ds l = Some (es, l2)"
    and "run_events J note_request es i [] = (True, i2, rs)" and "cleared i = i"
  shows "read_chunks J L ds l i = Some (l2, i2, rs)"
  using assms
proof (induction ds arbitrary: l es i rs)
  case (Cons d ds)
  then obtain es1 l1 reason es2 where d: "ll_execute L l d = (es1, l1, HPE_OK, reason)"
    "lex_chunks L ds l1 = Some (es2, l2)" "es = es1 @ es2"
    by (auto simp: Let_def split: prod.splits if_splits)
  from Cons.prems(2) d(3) obtain i1 rs1 where run1: "run_events J note_request es1 i [] = (True, i1, rs1)"
    and run2: "run_events J note_request es2 i1 rs1 = (True, i2, rs)"
    by (auto simp: run_events_append split: prod.splits bool.splits)
  obtain rs2 where "run_events J note_request es2 i1 [] = (True, i2, rs2)"
    using run2 note_request_shift [of J es2 i1 "[]" _ _ _ rs1]
    by (cases "run_events J note_request es2 i1 []") auto
  moreover from this have "rs = rs1 @ rs2"
    using run2 note_request_shift [of J es2 i1 "[]" True i2 rs2 rs1] by simp
  moreover have "cleared i1 = i1"
    using run_events_ok_flags [OF run1] Cons.prems(3) cleared_simps(3,4,5) [of i]
    by (intro cleared_id) auto
  ultimately show ?case using Cons.IH [OF d(2)] d(1) run1 Cons.prems(3) by simp
qed simp

lemma callback_max:
  "callback J h e i s = (ok, i1, s1) \<Longrightarrow> maxHeaderBytes i1 = maxHeaderBytes i"
  by (cases e)
    (auto simp: onUrl_def onHeaderField_def onHeaderValue_def onHeadersComplete_def onBody_def
      onMessageComplete_def charge_def resetRequest_def Let_def
      split: if_splits sum.splits prod.splits option.splits exn.splits)

lemma run_events_max:
  "run_events J h es i s = (ok, i1, s1) \<Longrightarrow> maxHeaderBytes i1 = maxHeaderBytes i"
proof (induction es arbitrary: i s)
  case (Cons e es)
  obtain ok2 i2 s2 where cb: "callback J h e i s = (ok2, i2, s2)" by (cases "callback J h e i s")
  with Cons callback_max [OF cb] show ?case by (cases ok2) auto
qed simp

lemma serve_msgs_note:
  "map (request_of J) ms = map Inr rs \<Longrightarrow>
   serve_msgs J note_request ms rs0 = (True, rs0 @ zip rs (map m_keep ms))"
proof (induction ms arbitrary: rs rs0)
  case (Cons m ms)
  then obtain r rs' where "rs = r # rs'" "request_of J m = Inr r" "map (request_of J) ms = map Inr rs'"
    by (cases rs) auto
  with Cons.IH show ?case by (simp add: serve_msg_def note_request_def)
qed simp

text \<open>The start of a request that is not complete yet and within the budget.\<close>

definition unfinished :: "nat \<Rightarrow> event list \<Rightarrow> bool" where
  "unfinished n es \<longleftrightarrow> list_all (\<lambda>e. \<not> is_complete e) es \<and> costs es \<le> n"

lemma cost_le_costs: "e \<in> set es \<Longrightarrow> cost e \<le> costs es"
  by (induction es) auto

lemma requests_in_stream:
  assumes "at_start i" and "\<forall>m \<in> set ms. msg_ok (limit i) m" and "unfinished (limit i) tail"
    and "map (request_of J) ms = map Inr rs" and "limit i + limit i < 2 ^ 64"
  shows "\<exists>i1. run_events J note_request (concat (map msg_events ms) @ tail) i [] =
    (True, i1, zip rs (map m_keep ms))"
proof -
  obtain i1 where i1: "run_events J note_request (concat (map msg_events ms)) i [] =
      (True, i1, zip rs (map m_keep ms))" "at_start i1"
    using run_msgs [OF assms(1,2), of J note_request "[]"] serve_msgs_note [OF assms(4), of "[]"] by auto
  have max: "limit i1 = limit i" using run_events_max [OF i1(1)] by simp
  obtain ok i2 s where run2: "run_events J note_request tail i1 (zip rs (map m_keep ms)) = (ok, i2, s)"
    by (cases "run_events J note_request tail i1 (zip rs (map m_keep ms))")
  have used0: "used i1 = 0" using at_startD(7) [OF i1(2)] by simp
  have "chunk_ok i1 e" if "e \<in> set tail" for e
    using cost_le_costs [OF that] assms(3,5) max by (simp add: chunk_ok_def unfinished_def)
  then have "s = zip rs (map m_keep ms) \<and> (ok \<longleftrightarrow> used i1 + costs tail \<le> limit i1)"
    using run_events_budget [OF _ _ _ run2] assms(3) used0 by (auto simp: unfinished_def list_all_iff)
  then show ?thesis
    using run2 i1(1) max used0 assms(3) by (simp add: run_events_append unfinished_def)
qed

section \<open>The callbacks a connection still gets\<close>

fun turn_of :: "cid \<Rightarrow> loop_event \<Rightarrow> bool" where
  "turn_of c (Written d ok) \<longleftrightarrow> d = c"
| "turn_of c (Freed d) \<longleftrightarrow> d = c"
| "turn_of c e \<longleftrightarrow> False"

definition count :: "('a \<Rightarrow> bool) \<Rightarrow> 'a list \<Rightarrow> nat" where
  "count P xs = length (filter P xs)"

lemma count_simps [simp]:
  "count P [] = 0" "count P (x # xs) = (if P x then 1 else 0) + count P xs"
  "count P (xs @ ys) = count P xs + count P ys"
  by (simp_all add: count_def)

lemma deleted_send_all [simp]: "deleted (send_all c oks hbs st) = deleted st"
  by (induction c oks hbs st rule: send_all.induct) (simp_all add: send_def Let_def)

lemma deleted_onConnClosed: "deleted (onConnClosed c st) = deleted st @ [c]"
  by (simp add: onConnClosed_def)

lemma deleted_event:
  "deleted (happen J L \<sigma> reg junk e st) =
     deleted st @ (case e of Freed c \<Rightarrow> [c] | _ \<Rightarrow> [])"
  by (cases e)
    (auto simp: onConnection_def onRead_def onWrite_def onConnClosed_def onStop_def stop_def Let_def
      split: option.split sum.split prod.split)

lemma closing_same [simp]: "closing k \<Longrightarrow> k\<lparr>closing := True\<rparr> = k"
  by (cases k) simp

text \<open>What the other callbacks do to a connection that is closing: nothing.\<close>

lemma closing_undisturbed:
  assumes k: "conn_of st c = Some k" "closing k" and inv: "loop_inv st"
    and e: "can_happen e st" "\<not> turn_of c e"
  shows "conn_of (happen J L \<sigma> reg junk e st) c = Some k"
proof (cases e)
  case (Accepted d ok1 ok2)
  from conn_of_in [OF k(1)] inv have "c \<in> set (used_ids st)" unfolding loop_inv_def by blast
  with Accepted e have "d \<noteq> c" by auto
  then have "conn_of (happen J L \<sigma> reg junk e st) c = conn_of st c"
    using Accepted by (auto simp: onConnection_def conn_of_def closeConn_def upd_conn_def
        map_of_upd_list Let_def split: option.split)
  with k show ?thesis by simp
next
  case (Received d data oks)
  with e k have "d \<noteq> c" by (auto simp: open_conn_def)
  with Received k show ?thesis by (simp add: onRead_elsewhere)
next
  case Woken
  with k show ?thesis by (simp add: onStop_def conn_of_fold_closeConn)
qed (use e k in \<open>auto simp: onWrite_def conn_of_onConnClosed stop_def Let_def\<close>)

definition leaving :: "cid \<Rightarrow> ('l, 'w) loop_state \<Rightarrow> nat \<Rightarrow> bool" where
  "leaving c st n \<longleftrightarrow>
     (case conn_of st c of
        Some k \<Rightarrow> closing k \<and> n = length (in_flight k) + 1 \<and> c \<notin> set (deleted st)
      | None \<Rightarrow> n = 0 \<and> c \<in> set (deleted st))"

lemma leaving_step:
  assumes "leaving c st n" and "loop_inv st" and "can_happen e st"
  shows "leaving c (happen J L \<sigma> reg junk e st) (if turn_of c e then n - 1 else n) \<and>
    (turn_of c e \<longrightarrow> 0 < n)"
proof (cases "conn_of st c")
  case None
  with assms(1) have gone: "n = 0" "c \<in> set (deleted st)" by (simp_all add: leaving_def)
  with assms(2) have used: "c \<in> set (used_ids st)" unfolding loop_inv_def by blast
  then have no: "\<not> turn_of c e" "quiet_for c e"
    using None assms(3) by (cases "(c, e)" rule: chunk_for.cases; auto simp: quiet_for_def open_conn_def)+
  then have "conn_of (happen J L \<sigma> reg junk e st) c = None"
    using quiet_keeps_parser [OF no(2), of J L \<sigma> reg junk st] None by fastforce
  then show ?thesis using gone no(1) by (simp add: leaving_def deleted_event)
next
  case (Some k)
  with assms(1) have k: "closing k" "n = length (in_flight k) + 1" "c \<notin> set (deleted st)"
    by (simp_all add: leaving_def)
  show ?thesis
  proof (cases "turn_of c e")
    case False
    then have "deleted (happen J L \<sigma> reg junk e st) = deleted st \<or>
        (\<exists>d. d \<noteq> c \<and> deleted (happen J L \<sigma> reg junk e st) = deleted st @ [d])"
      unfolding deleted_event by (cases e) auto
    moreover have "conn_of (happen J L \<sigma> reg junk e st) c = Some k"
      using Some k(1) assms(2,3) False by (rule closing_undisturbed)
    ultimately show ?thesis using k False
      by (auto simp: leaving_def)
  next
    case True
    then consider (w) ok where "e = Written c ok" | (f) "e = Freed c" by (cases e) auto
    then show ?thesis
    proof cases
      case w
      with Some k assms(3) show ?thesis
        by (cases "in_flight k") (auto simp: leaving_def onWrite_def Let_def)
    next
      case f
      with Some k assms(3) show ?thesis
        by (auto simp: leaving_def conn_of_onConnClosed deleted_onConnClosed)
    qed
  qed
qed

lemma leaving_trace:
  assumes "loop_trace J L \<sigma> reg junk tr st = Some st'" and "leaving c st n" and "loop_inv st"
  shows "leaving c st' (n - count (turn_of c) tr) \<and> count (turn_of c) tr \<le> n \<and> loop_inv st'"
  using assms
proof (induction tr arbitrary: st n)
  case (Cons e tr)
  let ?s = "happen J L \<sigma> reg junk e st" and ?n = "if turn_of c e then n - 1 else n"
  from Cons.prems(1) have e: "can_happen e st" "loop_trace J L \<sigma> reg junk tr ?s = Some st'"
    by (simp_all split: if_splits)
  from e(1) have "loop_step J L \<sigma> reg junk st ?s" by (auto simp: loop_step_labelled)
  then have inv: "loop_inv ?s" using Cons.prems(3) by (rule loop_step_inv)
  from leaving_step [OF Cons.prems(2,3) e(1), of J L \<sigma> reg junk]
  have "leaving c ?s ?n" "turn_of c e \<longrightarrow> 0 < n" by auto
  with Cons.IH [OF e(2) _ inv] show ?case by (cases "turn_of c e") fastforce+
qed simp

lemma leaving_progress:
  assumes "leaving c st n" and "0 < n" and "\<not> crashed st"
  shows "\<exists>e. turn_of c e \<and> can_happen e st"
proof -
  obtain k where k: "conn_of st c = Some k" "closing k"
    using assms(1,2) by (auto simp: leaving_def split: option.splits)
  show ?thesis
  proof (cases "in_flight k")
    case Nil
    with k assms(3) show ?thesis by (intro exI [of _ "Freed c"]) simp
  next
    case Cons
    with k assms(3) show ?thesis by (intro exI [of _ "Written c True"]) simp
  qed
qed

section \<open>The conversation on a connection\<close>

lemma limit_start: "limit (impl (new_parser L kMaxHeaderBytes)) = 16384"
  by (simp add: new_parser_def)

lemma connection_talk:
  assumes "loop_trace J L \<sigma> reg junk tr (init_loop w) = Some st"
    and "list_all (taken_by_uv c) tr"
    and "lex_chunks L (chunks_of c tr) (ll_init L) = Some (concat (map msg_events ms) @ tail, l)"
    and "\<forall>m \<in> set ms. msg_ok 16384 m" and "unfinished 16384 tail"
    and "map (request_of J) ms = map Inr rs" and "serves J \<sigma> reg ans (set rs)"
  shows "read_answers (map req_method rs) (concat (map wire (sent_on c st)) @ rest) = Some (map ans rs, rest) \<and>
    (ms \<noteq> [] \<and> \<not> m_keep (last ms) \<longrightarrow> \<not> open_conn st c)"
proof -
  let ?i = "new_impl kMaxHeaderBytes" and ?rs = "zip rs (map m_keep ms)"
  have len: "length rs = length ms" using assms(6) by (metis length_map)
  obtain i1 where run: "run_events J note_request (concat (map msg_events ms) @ tail) ?i [] = (True, i1, ?rs)"
    using requests_in_stream [of ?i ms tail J rs] assms(4-6) by auto
  have "cleared ?i = ?i" by (simp add: cleared_def new_impl_def)
  from read_chunks_lex [OF assms(3) run this]
  have chunks: "read_chunks J L (chunks_of c tr) (ll_init L) ?i = Some (l, i1, ?rs)" .
  have fst: "fst ` set ?rs = set rs" using len by (metis length_map map_fst_zip set_map)
  then have "serves J \<sigma> reg ans (fst ` set ?rs)" using assms(7) by simp
  from conn_inv_trace [OF assms(1,2) chunks this]
  have inv: "conn_inv ans c st l i1 ?rs" by simp
  have "map (\<lambda>(r, ka). ans r) ?rs = map ans (map fst ?rs)" by (simp add: case_prod_beta)
  also have "\<dots> = map ans rs" using len by simp
  finally have eq: "map (\<lambda>(r, ka). ans r) ?rs = map ans rs" .
  with inv have "list_all2 carries (map ans rs) (sent_on c st)" by (simp add: conn_inv_def)
  moreover have "(snd (ans r) = None) = (req_method r = ''HEAD'')" if "r \<in> set rs" for r
    using serves_HEAD [OF assms(7) that] .
  ultimately have "list_all2 (\<lambda>r hb. carries (ans r) hb \<and> (snd (ans r) = None) = (req_method r = ''HEAD'')) rs (sent_on c st)"
    by (auto simp: list_all2_conv_all_nth)
  from read_answers_carries [OF this, of rest]
  have "read_answers (map req_method rs) (concat (map wire (sent_on c st)) @ rest) = Some (map ans rs, rest)" .
  moreover have "\<not> open_conn st c" if "ms \<noteq> []" "\<not> m_keep (last ms)"
  proof -
    have "?rs \<noteq> []" "snd (last ?rs) = m_keep (last ms)"
      using that(1) len by (cases "rs = []"; simp add: last_zip last_map)+
    with inv that(2) show ?thesis by (auto simp: conn_inv_def open_conn_def split: option.split)
  qed
  ultimately show ?thesis by blast
qed

section \<open>Properties\<close>

text \<open>
  C4: A client that sends requests over a connection, in chunks cut anywhere, reads off the bytes
  sent on the connection exactly one answer per complete request, in order and with the status line
  and body (no body for HEAD) the application gives that request, whatever other connections, write callbacks and
  \<open>stop\<close> do in between and whatever the handlers do to the world; and once the last complete
  request asked for it, the connection takes no more requests.
\<close>

theorem connection_conversation:
  assumes "loop_trace J L \<sigma> reg junk tr (init_loop w) = Some st"
    and "list_all (taken_by_uv c) tr"
    and "lex_chunks L (chunks_of c tr) (ll_init L) = Some (concat (map msg_events ms) @ tail, l)"
    and "\<forall>m \<in> set ms. msg_ok 16384 m" and "unfinished 16384 tail"
    and "map (request_of J) ms = map Inr rs" and "serves J \<sigma> reg ans (set rs)"
  shows "read_answers (map req_method rs) (concat (map wire (sent_on c st)) @ rest) = Some (map ans rs, rest) \<and>
    (ms \<noteq> [] \<and> \<not> m_keep (last ms) \<longrightarrow> \<not> open_conn st c)"
  using assms by (rule connection_talk)

definition sample_answer :: "string request \<Rightarrow> answer" where
  "sample_answer r =
     reply_of text_json \<lparr>req = r, res = not_found_response text_json r (not_found_json text_json r), world = ()\<rparr>"

lemma sample_serves: "serves text_json (\<lambda>r. new_router) new_registry sample_answer R"
  unfolding serves_def
proof (intro ballI allI)
  fix r junk w
  let ?c = "\<lparr>req = r, res = not_found_response text_json r (not_found_json text_json r), world = w\<rparr>"
  have "run_chain text_json (\<lambda>r. new_router) new_registry (start_ctx text_json junk r w) = Ret ?c"
    unfolding run_chain_no_middleware [OF queue_new] by (rule runRoute_not_found) simp_all
  moreover have "framable text_json (res ?c)" using framable_not_found [of text_json r] by simp
  ultimately show "\<exists>c. run_chain text_json (\<lambda>r. new_router) new_registry (start_ctx text_json junk r w) = Ret c \<and>
      framable text_json (res c) \<and> req_method (req c) = req_method r \<and> reply_of text_json c = sample_answer r"
    by (auto simp: sample_answer_def reply_of_def answer_of_def)
qed

definition sample_trace :: "loop_event list" where
  "sample_trace =
     [Accepted 7 True True, Accepted 8 True True, StopCalled, Received 7 (Some ''...'') (\<lambda>n. True)]"

lemma sample_trace_runs:
  "\<exists>st. loop_trace text_json two_ll (\<lambda>r. new_router) new_registry (\<lambda>n. 0) sample_trace (init_loop ()) = Some st"
  by (simp add: sample_trace_def init_loop_def onConnection_def stop_def open_conn_def conn_of_def
      new_conn_def Let_def)

theorem connection_conversation_witness:
  "\<exists>st b1 b2. loop_trace text_json two_ll (\<lambda>r. new_router) new_registry (\<lambda>n. 0) sample_trace (init_loop ()) = Some st \<and>
    read_answers [''GET'', ''GET''] (concat (map wire (sent_on 7 st)) @ []) =
      Some ([(''HTTP/1.1 404 Not Found'', Some b1), (''HTTP/1.1 404 Not Found'', Some b2)], []) \<and>
    \<not> open_conn st 7"
proof -
  obtain st where st: "loop_trace text_json two_ll (\<lambda>r. new_router) new_registry (\<lambda>n. 0) sample_trace
      (init_loop ()) = Some st"
    using sample_trace_runs by blast
  let ?r = "\<lambda>t. applyTarget t ((new_request text_json)\<lparr>req_method := ''GET'',
       req_protocol := ''HTTP/1.1'', req_headers := [(''Host'', ''h'')]\<rparr>)"
  have chunks: "lex_chunks two_ll (chunks_of 7 sample_trace) (ll_init two_ll) =
      Some (concat (map msg_events two_msgs) @ [], ())"
    by (simp add: sample_trace_def chunks_of_def two_ll_def script_ll_def)
  have reqs: "map (request_of text_json) two_msgs = map Inr [?r ''/a'', ?r ''/b'']"
    by (simp add: two_msgs_def sample_requests)
  have ok: "\<forall>m \<in> set two_msgs. msg_ok 16384 m" by (simp add: two_msgs_def get_msg_ok)
  have taken: "list_all (taken_by_uv 7) sample_trace" by (simp add: sample_trace_def)
  have "unfinished 16384 []" by (simp add: unfinished_def)
  from connection_conversation [OF st taken chunks ok this reqs sample_serves, of "[]"]
  have "read_answers (map req_method [?r ''/a'', ?r ''/b'']) (concat (map wire (sent_on 7 st)) @ []) =
      Some (map sample_answer [?r ''/a'', ?r ''/b''], [])"
    "two_msgs \<noteq> [] \<and> \<not> m_keep (last two_msgs) \<longrightarrow> \<not> open_conn st 7" by simp_all
  moreover have "two_msgs \<noteq> []" "\<not> m_keep (last two_msgs)"
    by (simp_all add: two_msgs_def get_msg_def)
  ultimately show ?thesis using st by (auto simp: sample_answer_def reply_of_def answer_of_def sample_status)
qed

text \<open>
  C12: A connection that is being closed is freed: exactly when it has had one callback for each
  write in flight and one for the handle, never more of them, whatever else the loop does; and
  until then the next such callback is always possible.
\<close>

theorem closing_connection_is_freed:
  assumes "loop_trace J L \<sigma> reg junk tr (init_loop w) = Some st"
    and "conn_of st c = Some k" and "closing k"
    and "loop_trace J L \<sigma> reg junk tr' st = Some st'"
  shows "count (turn_of c) tr' \<le> length (in_flight k) + 1 \<and>
    (c \<in> set (deleted st') \<longleftrightarrow> count (turn_of c) tr' = length (in_flight k) + 1) \<and>
    (c \<notin> set (deleted st') \<and> \<not> crashed st' \<longrightarrow> (\<exists>e. turn_of c e \<and> can_happen e st'))"
proof -
  have inv: "loop_inv st" using assms(1) by (rule loop_trace_inv)
  let ?n = "length (in_flight k) + 1"
  have "c \<notin> set (deleted st)" using conn_of_in [OF assms(2)] inv unfolding loop_inv_def by blast
  then have "leaving c st ?n" using assms(2,3) by (simp add: leaving_def)
  from leaving_trace [OF assms(4) this inv]
  have leaving: "leaving c st' (?n - count (turn_of c) tr')" "count (turn_of c) tr' \<le> ?n" by simp_all
  then have freed: "c \<in> set (deleted st') \<longleftrightarrow> count (turn_of c) tr' = ?n"
    by (auto simp: leaving_def split: option.splits)
  then show ?thesis
    using leaving leaving_progress [OF leaving(1)] by (cases "count (turn_of c) tr' = ?n") auto
qed

theorem closing_connection_is_freed_witness:
  "\<exists>e. turn_of 7 e \<and> can_happen e (onStop ((stop one_conn)\<lparr>async_sent := False\<rparr>))"
proof -
  let ?t = "loop_trace text_json url_ll (\<lambda>r. new_router) new_registry (\<lambda>n. 0)"
  let ?st = "onStop ((stop one_conn)\<lparr>async_sent := False\<rparr>)"
  have run: "?t [Accepted 7 True True, StopCalled, Woken] (init_loop ()) = Some ?st"
    by (simp add: one_conn_def) (simp add: init_loop_def stop_def onConnection_def)
  have st: "conn_of ?st 7 = Some ((new_conn url_ll)\<lparr>closing := True\<rparr>)"
    by (simp add: conn_of_onStop stop_def one_conn_eq) (simp add: conn_of_def)
  have open_: "7 \<notin> set (deleted ?st)" "\<not> crashed ?st"
    by (simp_all add: onStop_def stop_def one_conn_eq init_loop_def)
  have "?t [] ?st = Some ?st" by simp
  from closing_connection_is_freed [OF run st _ this] open_ show ?thesis by simp
qed

end
