(* ===== verification/Load_Generator.thy ===== *)
theory Load_Generator
  imports Framing
begin

text \<open>
  The load generator of the benchmarks (\<open>bench/loadgen.cpp\<close>): the function that finds the end of a
  response in what has arrived, and the closed loop over the connections as a function of what the
  kernel answers to each call. It is a client of the server that shares no code with it, so it is
  also an independent reader of the messages the server writes.
\<close>

section \<open>response_len\<close>

text \<open>\<open>strtol(s, nullptr, 10)\<close>: white space, a sign, digits; out of range it saturates.\<close>

definition isspace :: "char \<Rightarrow> bool" where
  "isspace c \<longleftrightarrow> c = CHR '' '' \<or> 9 \<le> (of_char c :: nat) \<and> (of_char c :: nat) \<le> 13"

definition strtol :: "string \<Rightarrow> int" where
  "strtol s =
     (let s1 = dropWhile isspace s;
          (negative, s2) =
            (case s1 of
               [] \<Rightarrow> (False, [])
             | c # cs \<Rightarrow> if c = CHR ''-'' then (True, cs) else if c = CHR ''+'' then (False, cs)
                        else (False, s1));
          v = int (digits_val (takeWhile isdigit s2)) in
      if negative then max (- v) (- (2 ^ 63)) else min v (2 ^ 63 - 1))"

text \<open>Sizes are \<open>size_t\<close>, the length is a \<open>long\<close> that is converted to one.\<close>

definition response_len :: "string \<Rightarrow> 64 word" where
  "response_len buf =
     (case find_sub (CRLF @ CRLF) buf of
        None \<Rightarrow> 0
      | Some hdr_end \<Rightarrow>
          let body_start = word_of_nat hdr_end + 4 in
          case find_sub ''Content-Length:'' buf of
            None \<Rightarrow> body_start
          | Some cl \<Rightarrow>
              if cl > hdr_end then body_start
              else let len = word_of_int (strtol (drop (cl + 15) buf)) in
                if word_of_nat (length buf) < body_start + len then 0 else body_start + len)"

section \<open>Searching in heads\<close>

text \<open>A search in a part of a string finds what the search in the whole finds, if the part has it.\<close>

lemma find_sub_prefix:
  assumes "find_sub pat (p @ q) = Some i"
  shows "find_sub pat p = (if i + length pat \<le> length p then Some i else None)"
  using assms
proof (induction p arbitrary: i)
  case Nil
  then show ?case by (cases q) (auto split: if_splits)
next
  case (Cons c p)
  show ?case
  proof (cases "prefix pat (c # p @ q)")
    case True
    then have "prefix pat (c # p) \<longleftrightarrow> length pat \<le> Suc (length p)"
      using prefix_length_prefix [of pat "c # p @ q" "c # p"] by (auto dest: prefix_length_le)
    moreover have "find_sub pat p = None" if "\<not> length pat \<le> Suc (length p)"
      using that by (cases "find_sub pat p") (auto dest: find_sub_SomeD)
    ultimately show ?thesis using True Cons by auto
  next
    case False
    then have "\<not> prefix pat (c # p)" using prefix_order.trans [of pat "c # p" "c # p @ q"] by auto
    with False Cons show ?thesis by auto
  qed
qed

lemma find_sub_here: "find_sub p (p @ q) = Some 0"
  by (cases p; cases q) auto

lemma prefix_before_line_end:
  assumes "line_safe pat" and "prefix pat (l @ CRLF @ t)"
  shows "prefix pat l"
proof (rule ccontr)
  assume "\<not> prefix pat l"
  with assms(2) obtain us where "pat = l @ us" "prefix us (CRLF @ t)" "us \<noteq> []"
    by (auto simp: prefix_append)
  then have "hd us = CHR 0x0D" "hd us \<in> set pat" by (auto simp: CRLF_def prefix_def Cons_eq_append_conv)
  with assms(1) show False by (simp add: line_safe_def)
qed

text \<open>A search for a piece of a line that this line does not have goes on behind the line.\<close>

lemma find_sub_skip_line:
  assumes "line_safe pat" and "pat \<noteq> []" and "\<not> sublist pat l"
  shows "find_sub pat (l @ CRLF @ t) = map_option (\<lambda>i. length l + 2 + i) (find_sub pat t)"
  using assms(3)
proof (induction l)
  case Nil
  have "\<not> prefix pat (CRLF @ t)"
    using prefix_before_line_end [OF assms(1), of "[]" t] assms(2) by auto
  moreover have "\<not> prefix pat (CHR 0x0A # t)"
    using assms(1,2) by (cases pat) (auto simp: line_safe_def)
  ultimately show ?case by (simp add: CRLF_def option.map_comp comp_def)
next
  case (Cons c l)
  have "\<not> prefix pat (c # l @ CRLF @ t)"
    using prefix_before_line_end [OF assms(1), of "c # l" t] Cons.prems by auto
  then show ?case
    using Cons by (simp add: sublist_Cons_right option.map_comp comp_def)
qed

definition lines_text :: "string list \<Rightarrow> string" where
  "lines_text ls = concat (map (\<lambda>l. l @ CRLF) ls)"

lemma lines_text_simps [simp]:
  "lines_text [] = []" "lines_text (l # ls) = l @ CRLF @ lines_text ls"
  "lines_text (ls @ ms) = lines_text ls @ lines_text ms"
  by (simp_all add: lines_text_def)

lemma find_sub_skip_lines:
  assumes "line_safe pat" and "pat \<noteq> []" and "\<forall>l \<in> set ls. \<not> sublist pat l"
  shows "find_sub pat (lines_text ls @ t) = map_option (\<lambda>i. length (lines_text ls) + i) (find_sub pat t)"
  using assms(3)
proof (induction ls)
  case (Cons l ls)
  then show ?case
    using find_sub_skip_line [OF assms(1,2), of l "lines_text ls @ t"]
    by (simp add: option.map_comp comp_def add_ac) (simp add: CRLF_def)
next
  case Nil
  then show ?case by (cases "find_sub pat t") simp_all
qed

lemma find_blank_step:
  assumes "line_safe l"
  shows "find_sub (CRLF @ CRLF) (l @ CRLF @ t) =
    (if prefix CRLF t then Some (length l)
     else map_option (\<lambda>i. length l + 2 + i) (find_sub (CRLF @ CRLF) t))"
  using assms
proof (induction l)
  case Nil
  then show ?case by (auto simp: CRLF_def option.map_comp comp_def)
next
  case (Cons c l)
  then have "c \<noteq> CHR 0x0D" "line_safe l" by (auto simp: line_safe_def)
  with Cons.IH show ?case by (auto simp: CRLF_def option.map_comp comp_def)
qed

text \<open>The first blank line of a head is the one that ends it.\<close>

lemma find_blank_line:
  assumes "ls \<noteq> []" and "\<forall>l \<in> set ls. line_safe l \<and> l \<noteq> []"
  shows "find_sub (CRLF @ CRLF) (lines_text ls @ CRLF @ t) = Some (length (lines_text ls) - 2)"
  using assms
proof (induction ls rule: list_nonempty_induct)
  case (single l)
  then show ?case using find_blank_step [of l "CRLF @ t"] by (simp add: CRLF_def)
next
  case (cons l ls)
  obtain m ms where ms: "ls = m # ms" using cons.hyps by (cases ls) auto
  then obtain c m' where "m = c # m'" "c \<noteq> CHR 0x0D"
    using cons.prems by (cases m) (auto simp: line_safe_def)
  then have "\<not> prefix CRLF (lines_text ls @ CRLF @ t)" by (simp add: ms CRLF_def)
  moreover have "2 \<le> length (lines_text ls)" by (simp add: ms CRLF_def)
  ultimately show ?case
    using cons find_blank_step [of l "lines_text ls @ CRLF @ t"] by simp (simp add: CRLF_def)
qed

lemma strtol_number:
  assumes "n < 2 ^ 63" and "s = [] \<or> \<not> isdigit (hd s)"
  shows "strtol ('' '' @ nat_to_string n @ s) = int n"
proof -
  obtain d ds where d: "nat_to_string n = d # ds" by (cases "nat_to_string n") auto
  have "isdigit d" using nat_to_string_digits [of d n] d by simp
  then have "\<not> isspace d" "d \<noteq> CHR ''-''" "d \<noteq> CHR ''+''"
    by (auto simp: isspace_def isdigit_def)
  moreover have "takeWhile isdigit (nat_to_string n @ s) = nat_to_string n"
    using assms(2) nat_to_string_digits [of _ n] by (cases s) (auto simp: takeWhile_append)
  moreover have "isspace (CHR '' '')" by (simp add: isspace_def)
  ultimately show ?thesis
    using assms(1) digits_val_nat_to_string [of n] by (simp add: strtol_def d)
qed

section \<open>The length of a message with a readable head\<close>

text \<open>No line but the header itself has the text that \<open>response_len\<close> looks for.\<close>

definition length_key :: string where
  "length_key = ''Content-Length:''"

definition header_text :: "string \<times> string \<Rightarrow> string" where
  "header_text kv = fst kv @ '': '' @ snd kv"

definition no_lookalike :: "string \<Rightarrow> (string \<times> string) list \<Rightarrow> bool" where
  "no_lookalike line hs \<longleftrightarrow>
     \<not> sublist length_key line \<and>
     (\<forall>kv \<in> set hs. fst kv \<noteq> ''Content-Length'' \<longrightarrow> \<not> sublist length_key (header_text kv))"

lemma length_key_facts:
  "line_safe length_key" "length_key \<noteq> []" "length length_key = 15" "''Content-Length'' @ '': '' = length_key @ '' ''"
  by (simp_all add: length_key_def line_safe_def)

lemma head_lines:
  "line @ CRLF @ concat (map header_line hs) = lines_text (line # map header_text hs)"
  by (induction hs) (simp_all add: header_line_def header_text_def)

lemma head_lines_safe:
  assumes "line_safe line" and "line \<noteq> []" and "\<forall>kv \<in> set hs. header_safe kv"
  shows "\<forall>l \<in> set (line # map header_text hs). line_safe l \<and> l \<noteq> []"
  using assms by (auto simp: header_safe_def line_safe_def header_text_def)

lemma map_of_first:
  "map_of hs k = Some v \<Longrightarrow> \<exists>before after. hs = before @ (k, v) # after \<and> k \<notin> fst ` set before"
proof (induction hs)
  case (Cons kv hs)
  obtain k' v' where kv: "kv = (k', v')" by (cases kv)
  show ?case
  proof (cases "k' = k")
    case True
    with Cons.prems have "kv # hs = [] @ (k, v) # hs" by (simp add: kv)
    then show ?thesis by fastforce
  next
    case False
    then obtain before after where "hs = before @ (k, v) # after" "k \<notin> fst ` set before"
      using Cons by (auto simp: kv)
    then have "kv # hs = (kv # before) @ (k, v) # after \<and> k \<notin> fst ` set (kv # before)"
      using False by (simp add: kv)
    then show ?thesis by blast
  qed
qed simp

lemma unat_small: "n < 2 ^ 64 \<Longrightarrow> unat (word_of_nat n :: 64 word) = n"
  by (simp add: unat_of_nat)

lemma response_len_head:
  fixes n :: nat
  assumes "line_safe line" and "line \<noteq> []" and "\<forall>kv \<in> set hs. header_safe kv" and "no_lookalike line hs"
    and "map_of hs ''Content-Length'' = Some (nat_to_string n)"
  defines "head \<equiv> line @ CRLF @ concat (map header_line hs) @ CRLF"
  assumes "length head + n < 2 ^ 63" and "length head + length t < 2 ^ 63"
  shows "find_sub (CRLF @ CRLF) (head @ t) = Some (length head - 4)"
    and "4 \<le> length head"
    and "response_len (head @ t) = (if length t < n then 0 else word_of_nat (length head + n))"
proof -
  let ?ls = "line # map header_text hs"
  have head: "head = lines_text ?ls @ CRLF" using head_lines [of line hs] by (simp add: head_def)
  have two: "2 \<le> length (lines_text ?ls)" by (simp add: CRLF_def)
  show four: "4 \<le> length head" using two by (simp add: head CRLF_def)
  show blank: "find_sub (CRLF @ CRLF) (head @ t) = Some (length head - 4)"
    using find_blank_line [OF _ head_lines_safe [OF assms(1-3)], of t] by (simp add: head) (simp add: CRLF_def)
  obtain before after where hs: "hs = before @ (''Content-Length'', nat_to_string n) # after"
    "''Content-Length'' \<notin> fst ` set before"
    using map_of_first [OF assms(5)] by blast
  let ?ms = "line # map header_text before"
  let ?num = "'' '' @ nat_to_string n @ CRLF @ lines_text (map header_text after) @ CRLF @ t"
  have "header_text (''Content-Length'', nat_to_string n) = length_key @ '' '' @ nat_to_string n"
    using length_key_facts(4) by (simp add: header_text_def)
  then have whole: "head @ t = lines_text ?ms @ length_key @ ?num" by (simp add: head hs(1))
  have others: "\<not> sublist length_key (header_text kv)" if "kv \<in> set before" for kv
  proof -
    have "kv \<in> set hs" "fst kv \<noteq> ''Content-Length''" using that hs by (auto simp: image_iff)
    then show ?thesis using assms(4) unfolding no_lookalike_def by blast
  qed
  have "\<not> sublist length_key line" using assms(4) by (simp add: no_lookalike_def)
  with others have "\<forall>l \<in> set ?ms. \<not> sublist length_key l" by auto
  then have found: "find_sub length_key (head @ t) = Some (length (lines_text ?ms))"
    unfolding whole by (subst find_sub_skip_lines [OF length_key_facts(1,2)]) (simp_all add: find_sub_here)
  have n: "n < 2 ^ 63" using assms(7) by simp
  have "drop (length (lines_text ?ms) + 15) (head @ t) = ?num"
    unfolding whole by (simp add: length_key_facts(3) del: lines_text_simps)
  moreover have "\<not> isdigit (hd (CRLF @ x))" for x by (simp add: CRLF_def isdigit_def)
  ultimately have len: "strtol (drop (length (lines_text ?ms) + 15) (head @ t)) = int n"
    using strtol_number [OF n, of "CRLF @ lines_text (map header_text after) @ CRLF @ t"] by simp
  have before: "length (lines_text ?ms) \<le> length head - 4"
    using two by (simp add: head hs header_text_def CRLF_def)
  have "word_of_nat (length head - 4) + 4 + word_of_int (int n) = (word_of_nat (length head + n) :: 64 word)"
    using four by (simp add: of_nat_diff)
  moreover have "word_of_nat (length (head @ t)) < (word_of_nat (length head + n) :: 64 word) \<longleftrightarrow> length t < n"
    using assms(7,8) by (simp add: word_less_nat_alt unat_small del: of_nat_add)
  ultimately show "response_len (head @ t) = (if length t < n then 0 else word_of_nat (length head + n))"
    unfolding response_len_def length_key_def [symmetric] blank found using before len
    by (simp add: Let_def)
qed

section \<open>The closed loop\<close>

text \<open>
  What the program asks the kernel and the clock, as arbitrary functions of the number of calls made
  so far. \<open>double\<close> is a parameter type with the operations the loop uses. The result of
  \<open>epoll_wait\<close> depends on the interest list too.
\<close>

datatype send_result = Sent nat | SendError bool

datatype recv_result = Data string | Hangup | RecvError bool

type_synonym interest = "int \<rightharpoonup> bool \<times> nat"

record 'd kernel =
  k_now :: "nat \<Rightarrow> 'd"
  k_socket :: "nat \<Rightarrow> int"
  k_connect :: "nat \<Rightarrow> bool"
  k_send :: "nat \<Rightarrow> int \<Rightarrow> string \<Rightarrow> send_result"
  k_recv :: "nat \<Rightarrow> int \<Rightarrow> recv_result"
  k_wait :: "nat \<Rightarrow> interest \<Rightarrow> (nat \<times> bool \<times> bool) list"
  d_plus :: "'d \<Rightarrow> 'd \<Rightarrow> 'd"
  d_minus :: "'d \<Rightarrow> 'd \<Rightarrow> 'd"
  d_less :: "'d \<Rightarrow> 'd \<Rightarrow> bool"

record 'd lg_conn =
  fd :: int
  inbuf :: string
  sent_at :: 'd
  conn_done :: nat
  writing :: bool
  written :: nat

text \<open>The variables of \<open>main\<close> and the epoll set: for a descriptor, whether it waits for output, and the index.\<close>

record 'd loadgen =
  lconns :: "'d lg_conn list"
  lat :: "'d list"
  completed :: nat
  errors :: nat
  reconnects :: nat
  watch :: interest
  calls :: nat

definition upd_lconn :: "nat \<Rightarrow> ('d lg_conn \<Rightarrow> 'd lg_conn) \<Rightarrow> 'd loadgen \<Rightarrow> 'd loadgen" where
  "upd_lconn i f g = g\<lparr>lconns := (lconns g)[i := f (lconns g ! i)]\<rparr>"

definition called :: "'d loadgen \<Rightarrow> 'd loadgen" where
  "called g = g\<lparr>calls := calls g + 1\<rparr>"

definition now_s :: "'d kernel \<Rightarrow> 'd loadgen \<Rightarrow> 'd \<times> 'd loadgen" where
  "now_s K g = (k_now K (calls g), called g)"

text \<open>\<open>EPOLL_CTL_ADD\<close> fails without effect on a descriptor in the set, \<open>EPOLL_CTL_MOD\<close> fails without effect on a descriptor that is not in the set; closing takes it out.\<close>

definition epoll_mod :: "int \<Rightarrow> bool \<Rightarrow> nat \<Rightarrow> 'd loadgen \<Rightarrow> 'd loadgen" where
  "epoll_mod d out i g = (if watch g d = None then g else g\<lparr>watch := (watch g)(d \<mapsto> (out, i))\<rparr>)"

definition epoll_add :: "int \<Rightarrow> nat \<Rightarrow> 'd loadgen \<Rightarrow> 'd loadgen" where
  "epoll_add d i g = (if watch g d = None then g\<lparr>watch := (watch g)(d \<mapsto> (True, i))\<rparr> else g)"

definition close_fd :: "int \<Rightarrow> 'd loadgen \<Rightarrow> 'd loadgen" where
  "close_fd d g = g\<lparr>watch := (watch g)(d := None)\<rparr>"

definition request_text :: "string \<Rightarrow> bool \<Rightarrow> string" where
  "request_text path close_mode =
     ''GET '' @ path @ '' HTTP/1.1'' @ CRLF @ ''Host: bench'' @ CRLF @ ''Accept: */*'' @ CRLF @
     ''Connection: '' @ (if close_mode then ''close'' else ''keep-alive'') @ CRLF @ CRLF"

definition connect_one :: "'d kernel \<Rightarrow> nat \<Rightarrow> 'd loadgen \<Rightarrow> bool \<times> 'd loadgen" where
  "connect_one K i g =
     (let g1 = (if fd (lconns g ! i) \<ge> 0 then close_fd (fd (lconns g ! i)) g else g);
          d = k_socket K (calls g1);
          g2 = upd_lconn i (\<lambda>c. c\<lparr>fd := d\<rparr>) (called g1) in
      if d < 0 then (False, g2)
      else if \<not> k_connect K (calls g2)
      then (False, upd_lconn i (\<lambda>c. c\<lparr>fd := -1\<rparr>) (close_fd d (called g2)))
      else
        let (t, g3) = now_s K (called g2);
            g4 = upd_lconn i (\<lambda>c. c\<lparr>inbuf := [], writing := True, written := 0, sent_at := t\<rparr>) g3 in
        (True, epoll_add d i g4))"

text \<open>The socket is ready for output; the flag says whether the event is looked at further.\<close>

definition on_out :: "'d kernel \<Rightarrow> string \<Rightarrow> nat \<Rightarrow> 'd loadgen \<Rightarrow> bool \<times> 'd loadgen" where
  "on_out K rq i g =
     (let c = lconns g ! i; g1 = called g in
      case k_send K (calls g) (fd c) (drop (written c) rq) of
        SendError again \<Rightarrow>
          (False, if again then g1 else upd_lconn i (\<lambda>c. c\<lparr>fd := -1\<rparr>) (g1\<lparr>errors := errors g1 + 1\<rparr>))
      | Sent w \<Rightarrow>
          let g2 = upd_lconn i (\<lambda>c. c\<lparr>written := written c + w\<rparr>) g1 in
          (True, if written (lconns g2 ! i) = length rq
                 then epoll_mod (fd c) False i (upd_lconn i (\<lambda>c. c\<lparr>writing := False\<rparr>) g2) else g2))"

text \<open>A whole response has arrived: the body of the inner loop, which ends with a \<open>break\<close> on every path.\<close>

definition response_done :: "'d kernel \<Rightarrow> string \<Rightarrow> bool \<Rightarrow> 'd \<Rightarrow> nat \<Rightarrow> nat \<Rightarrow> 'd loadgen \<Rightarrow> 'd loadgen" where
  "response_done K rq close_mode deadline i len g =
     (let (t, g1) = now_s K g;
          g2 = g1\<lparr>lat := lat g1 @ [d_minus K t (sent_at (lconns g1 ! i))], completed := completed g1 + 1\<rparr>;
          g3 = upd_lconn i (\<lambda>c. c\<lparr>conn_done := conn_done c + 1, inbuf := drop len (inbuf c)\<rparr>) g2;
          (t1, g4) = now_s K g3 in
      if close_mode then
        if d_less K t1 deadline
        then let (ok, g5) = connect_one K i g4 in if ok then g5\<lparr>reconnects := reconnects g5 + 1\<rparr> else g5
        else g4
      else
        let g5 = upd_lconn i (\<lambda>c. c\<lparr>sent_at := t1, written := 0\<rparr>) g4; g6 = called g5 in
        case k_send K (calls g5) (fd (lconns g5 ! i)) rq of
          SendError again \<Rightarrow> g6\<lparr>errors := errors g6 + 1\<rparr>
        | Sent w \<Rightarrow>
            let g7 = upd_lconn i (\<lambda>c. c\<lparr>written := w\<rparr>) g6 in
            if w < length rq then epoll_mod (fd (lconns g7 ! i)) True i g7 else g7)"

definition on_in :: "'d kernel \<Rightarrow> string \<Rightarrow> bool \<Rightarrow> 'd \<Rightarrow> nat \<Rightarrow> 'd loadgen \<Rightarrow> 'd loadgen" where
  "on_in K rq close_mode deadline i g =
     (let d = fd (lconns g ! i); g1 = called g;
          hung_up =
            (let g2 = upd_lconn i (\<lambda>c. c\<lparr>fd := -1\<rparr>) (close_fd d g1) in
             if close_mode then g2
             else let (t, g3) = now_s K g2 in
               if d_less K t deadline
               then let (ok, g4) = connect_one K i g3 in
                 if ok then g4\<lparr>reconnects := reconnects g4 + 1\<rparr> else g4\<lparr>errors := errors g4 + 1\<rparr>
               else g3) in
      case k_recv K (calls g) d of
        Data s \<Rightarrow>
          let g2 = upd_lconn i (\<lambda>c. c\<lparr>inbuf := inbuf c @ s\<rparr>) g1;
              buf = inbuf (lconns g2 ! i); len = response_len buf in
          if len > 0 \<and> word_of_nat (length buf) \<ge> len
          then response_done K rq close_mode deadline i (unat len) g2 else g2
      | Hangup \<Rightarrow> hung_up
      | RecvError again \<Rightarrow> if again then g1 else hung_up)"

definition on_event ::
  "'d kernel \<Rightarrow> string \<Rightarrow> bool \<Rightarrow> 'd \<Rightarrow> nat \<times> bool \<times> bool \<Rightarrow> 'd loadgen \<Rightarrow> 'd loadgen" where
  "on_event K rq close_mode deadline e g =
     (case e of (i, out, inp) \<Rightarrow>
        if fd (lconns g ! i) < 0 then g
        else case (if out then on_out K rq i g else (True, g)) of
               (False, g1) \<Rightarrow> g1
             | (True, g1) \<Rightarrow> if inp then on_in K rq close_mode deadline i g1 else g1)"

text \<open>The outer loop, with a bound on its rounds; \<^term>\<open>None\<close> is a loop that has not ended within it.\<close>

fun run_loop :: "'d kernel \<Rightarrow> string \<Rightarrow> bool \<Rightarrow> 'd \<Rightarrow> nat \<Rightarrow> 'd loadgen \<Rightarrow> 'd loadgen option" where
  "run_loop K rq close_mode deadline 0 g = None"
| "run_loop K rq close_mode deadline (Suc rounds) g =
     (let (t, g1) = now_s K g in
      if d_less K t deadline
      then run_loop K rq close_mode deadline rounds
             (fold (on_event K rq close_mode deadline) (k_wait K (calls g1) (watch g1)) (called g1))
      else Some g1)"

definition starved :: "'d loadgen \<Rightarrow> nat" where
  "starved g = length (filter (\<lambda>c. conn_done c = 0) (lconns g))"

text \<open>The connections before the loop: \<open>connect_one\<close> for each, counting the successes.\<close>

definition init_lconn :: "'d \<Rightarrow> 'd lg_conn" where
  "init_lconn zero = \<lparr>fd = -1, inbuf = [], sent_at = zero, conn_done = 0, writing = False, written = 0\<rparr>"

definition connect_all :: "'d kernel \<Rightarrow> 'd \<Rightarrow> nat \<Rightarrow> nat \<times> 'd loadgen" where
  "connect_all K zero nconns =
     fold (\<lambda>i (connected, g). let (ok, g1) = connect_one K i g in (if ok then connected + 1 else connected, g1))
       [0..<nconns]
       (0, \<lparr>lconns = replicate nconns (init_lconn zero), lat = [], completed = 0, errors = 0,
            reconnects = 0, watch = Map.empty, calls = 0\<rparr>)"

text \<open>\<open>main\<close> from the connections to the end of the measurement: the exit code and the variables.\<close>

definition loadgen_main ::
  "'d kernel \<Rightarrow> 'd \<Rightarrow> string \<Rightarrow> nat \<Rightarrow> bool \<Rightarrow> 'd \<Rightarrow> nat \<Rightarrow> (int \<times> 'd loadgen) option" where
  "loadgen_main K zero path nconns close_mode duration rounds =
     (let (connected, g) = connect_all K zero nconns in
      if connected = 0 then Some (1, g)
      else let (start, g1) = now_s K g in
        case run_loop K (request_text path close_mode) close_mode (d_plus K start duration) rounds g1 of
          None \<Rightarrow> None
        | Some g2 \<Rightarrow> Some (0, snd (now_s K g2)))"

lemma epoll_add_simps [simp]:
  "lat (epoll_add d i g) = lat g" "completed (epoll_add d i g) = completed g"
  "calls (epoll_add d i g) = calls g" "lconns (epoll_add d i g) = lconns g"
  by (simp_all add: epoll_add_def)

section \<open>The books\<close>

text \<open>
  What holds of the variables between two events: the three counts of completed requests agree, no
  connection has sent more than the request, and the epoll set names existing connections.
\<close>

definition books :: "nat \<Rightarrow> string \<Rightarrow> 'd loadgen \<Rightarrow> bool" where
  "books n rq g \<longleftrightarrow>
     length (lconns g) = n \<and> completed g = sum_list (map conn_done (lconns g)) \<and>
     length (lat g) = completed g \<and> (\<forall>c \<in> set (lconns g). written c \<le> length rq) \<and>
     (\<forall>(out, i) \<in> ran (watch g). i < n)"

text \<open>
  What is documented of the kernel: \<open>send\<close> takes no more than it is given, \<open>epoll_wait\<close> returns data
  that was put into the set.
\<close>

definition kernel_ok :: "'d kernel \<Rightarrow> bool" where
  "kernel_ok K \<longleftrightarrow>
     (\<forall>n d s w. k_send K n d s = Sent w \<longrightarrow> w \<le> length s) \<and>
     (\<forall>n W e. e \<in> set (k_wait K n W) \<longrightarrow> fst e \<in> snd ` ran W)"

lemma upd_lconn_simps [simp]:
  "lat (upd_lconn i f g) = lat g" "completed (upd_lconn i f g) = completed g" "errors (upd_lconn i f g) = errors g"
  "watch (upd_lconn i f g) = watch g" "calls (upd_lconn i f g) = calls g"
  "lconns (upd_lconn i f g) = (lconns g)[i := f (lconns g ! i)]"
  by (simp_all add: upd_lconn_def)

lemma called_simps [simp]:
  "lat (called g) = lat g" "completed (called g) = completed g" "errors (called g) = errors g"
  "watch (called g) = watch g" "calls (called g) = calls g + 1" "lconns (called g) = lconns g"
  by (simp_all add: called_def)

lemma close_fd_simps [simp]:
  "lat (close_fd d g) = lat g" "completed (close_fd d g) = completed g" "calls (close_fd d g) = calls g"
  "lconns (close_fd d g) = lconns g" "watch (close_fd d g) = (watch g)(d := None)"
  by (simp_all add: close_fd_def)

lemma epoll_mod_simps [simp]:
  "lat (epoll_mod d out i g) = lat g" "completed (epoll_mod d out i g) = completed g"
  "calls (epoll_mod d out i g) = calls g" "lconns (epoll_mod d out i g) = lconns g"
  by (simp_all add: epoll_mod_def)

lemma books_upd:
  assumes "books n rq g" and "i < n" and "conn_done (f (lconns g ! i)) = conn_done (lconns g ! i)"
    and "written (lconns g ! i) \<le> length rq \<Longrightarrow> written (f (lconns g ! i)) \<le> length rq"
  shows "books n rq (upd_lconn i f g)"
proof -
  have len: "length (lconns g) = n" using assms(1) by (simp add: books_def)
  have "map conn_done ((lconns g)[i := f (lconns g ! i)]) = map conn_done (lconns g)"
    using assms(2,3) len by (simp add: map_update list_update_same_conv)
  then show ?thesis
    using assms len by (auto simp: books_def dest!: set_update_subset_insert [THEN subsetD])
qed

lemma books_same [simp]:
  "books n rq (called g) = books n rq g" "books n rq (g\<lparr>errors := k\<rparr>) = books n rq g"
  "books n rq (g\<lparr>reconnects := k\<rparr>) = books n rq g"
  by (simp_all add: books_def)

lemma books_watch:
  "books n rq g \<Longrightarrow> books n rq (close_fd d g)" "books n rq g \<Longrightarrow> i < n \<Longrightarrow> books n rq (epoll_mod d out i g)"
  "books n rq g \<Longrightarrow> i < n \<Longrightarrow> books n rq (epoll_add d i g)"
  by (auto simp: books_def epoll_add_def epoll_mod_def ran_def split: if_splits prod.splits)

lemma books_connect_one:
  assumes "books n rq g" and "i < n"
  shows "books n rq (snd (connect_one K i g))"
  using assms
  by (auto simp: connect_one_def now_s_def Let_def intro!: books_upd books_watch)

lemma books_done:
  assumes "books n rq g" and "i < n"
  shows "books n rq (upd_lconn i (\<lambda>c. c\<lparr>conn_done := conn_done c + 1, inbuf := drop len (inbuf c)\<rparr>)
    (g\<lparr>lat := lat g @ [d], completed := completed g + 1\<rparr>))"
proof -
  have len: "length (lconns g) = n" and small: "\<forall>c \<in> set (lconns g). written c \<le> length rq"
    using assms(1) by (simp_all add: books_def)
  have le: "conn_done (lconns g ! i) \<le> sum_list (map conn_done (lconns g))"
    using assms(2) len by (intro member_le_sum_list) simp_all
  have "sum_list (map conn_done ((lconns g)[i := (lconns g ! i)\<lparr>conn_done := conn_done (lconns g ! i) + 1,
      inbuf := drop len (inbuf (lconns g ! i))\<rparr>])) = sum_list (map conn_done (lconns g)) + 1"
    using assms(2) len le by (simp add: map_update sum_list_update)
  then show ?thesis
    using assms len small by (auto simp: books_def dest!: set_update_subset_insert [THEN subsetD])
qed

lemma kernel_send: "kernel_ok K \<Longrightarrow> k_send K n d s = Sent w \<Longrightarrow> w \<le> length s"
  by (simp add: kernel_ok_def)

lemma books_len: "books n rq g \<Longrightarrow> length (lconns g) = n"
  by (simp add: books_def)

lemma books_on_out:
  assumes "kernel_ok K" and "books n rq g" and "i < n"
  shows "books n rq (snd (on_out K rq i g))"
proof (cases "k_send K (calls g) (fd (lconns g ! i)) (drop (written (lconns g ! i)) rq)")
  case (Sent w)
  then have "w \<le> length rq - written (lconns g ! i)" using kernel_send [OF assms(1)] by fastforce
  then have "books n rq (upd_lconn i (\<lambda>c. c\<lparr>written := written c + w\<rparr>) (called g))"
    using assms(2,3) by (intro books_upd) simp_all
  with Sent assms(3) show ?thesis by (auto simp: on_out_def Let_def intro!: books_upd books_watch)
next
  case (SendError again)
  with assms(2,3) show ?thesis by (auto simp: on_out_def Let_def intro!: books_upd)
qed

lemma books_response_done:
  assumes "kernel_ok K" and "books n rq g" and "i < n"
  shows "books n rq (response_done K rq close_mode deadline i len g)"
proof -
  let ?g3 = "upd_lconn i (\<lambda>c. c\<lparr>conn_done := conn_done c + 1, inbuf := drop len (inbuf c)\<rparr>)
    ((called g)\<lparr>lat := lat (called g) @ [d_minus K (k_now K (calls g)) (sent_at (lconns (called g) ! i))],
      completed := completed (called g) + 1\<rparr>)"
  let ?g4 = "called ?g3"
  have ok: "books n rq ?g4" unfolding books_same by (rule books_done) (simp_all add: assms)
  show ?thesis
  proof (cases close_mode)
    case True
    have "books n rq (snd (connect_one K i ?g4))" by (rule books_connect_one [OF ok assms(3)])
    with True ok show ?thesis
      by (auto simp: response_done_def now_s_def Let_def case_prod_beta simp del: upd_lconn_simps)
  next
    case False
    let ?g5 = "upd_lconn i (\<lambda>c. c\<lparr>sent_at := k_now K (calls ?g3), written := 0\<rparr>) ?g4"
    have "books n rq (called ?g5)" using ok assms(3) by (simp only: books_same) (intro books_upd, simp_all)
    moreover have "w \<le> length rq" if "k_send K (calls ?g5) (fd (lconns ?g5 ! i)) rq = Sent w" for w
      using kernel_send [OF assms(1) that] .
    ultimately show ?thesis
      using False assms(3) unfolding response_done_def now_s_def Let_def prod.case if_False
      by (cases "k_send K (calls ?g5) (fd (lconns ?g5 ! i)) rq")
        (auto simp del: upd_lconn_simps intro!: books_upd books_watch)
  qed
qed

lemma books_on_in:
  assumes "kernel_ok K" and "books n rq g" and "i < n"
  shows "books n rq (on_in K rq close_mode deadline i g)"
proof -
  let ?g2 = "upd_lconn i (\<lambda>c. c\<lparr>fd := -1\<rparr>) (close_fd (fd (lconns g ! i)) (called g))"
  have hung: "books n rq ?g2" using assms(2,3) by (auto intro!: books_upd books_watch)
  then have "books n rq (snd (connect_one K i (called ?g2)))" using assms(3) by (intro books_connect_one) simp_all
  moreover have "books n rq (upd_lconn i (\<lambda>c. c\<lparr>inbuf := inbuf c @ s\<rparr>) (called g))" for s
    using assms(2,3) by (intro books_upd) simp_all
  ultimately show ?thesis
    using hung assms books_response_done [OF assms(1) _ assms(3)]
    by (auto simp: on_in_def Let_def now_s_def case_prod_beta simp del: upd_lconn_simps split: recv_result.split)
qed

lemma books_on_event:
  assumes "kernel_ok K" and "books n rq g" and "fst e < n"
  shows "books n rq (on_event K rq close_mode deadline e g)"
proof -
  obtain i out inp where e: "e = (i, out, inp)" by (cases e)
  have "books n rq (snd (if out then on_out K rq i g else (True, g)))"
    using assms books_on_out by (auto simp: e)
  then show ?thesis
    using assms books_on_in [OF assms(1)] by (auto simp: on_event_def e split: prod.split bool.split)
qed

lemma books_events:
  "kernel_ok K \<Longrightarrow> books n rq g \<Longrightarrow> \<forall>e \<in> set es. fst e < n \<Longrightarrow>
   books n rq (fold (on_event K rq close_mode deadline) es g)"
  by (induction es arbitrary: g) (auto intro: books_on_event)

lemma waited_in_range:
  assumes "kernel_ok K" and "books n rq g" and "e \<in> set (k_wait K m (watch g))"
  shows "fst e < n"
proof -
  have "fst e \<in> snd ` ran (watch g)" using assms(1,3) unfolding kernel_ok_def by blast
  with assms(2) show ?thesis by (auto simp: books_def)
qed

lemma books_run_loop:
  assumes "kernel_ok K" and "books n rq g" and "run_loop K rq close_mode deadline rounds g = Some g'"
  shows "books n rq g'"
  using assms(2,3)
proof (induction rounds arbitrary: g)
  case (Suc rounds)
  show ?case
  proof (cases "d_less K (k_now K (calls g)) deadline")
    case True
    let ?es = "k_wait K (calls (called g)) (watch (called g))"
    have "\<forall>e \<in> set ?es. fst e < n" using waited_in_range [OF assms(1), of n rq "called g"] Suc.prems(1) by simp
    then have "books n rq (fold (on_event K rq close_mode deadline) ?es (called (called g)))"
      using Suc.prems(1) by (intro books_events assms(1)) simp_all
    then show ?thesis using Suc True by (simp add: now_s_def)
  next
    case False
    with Suc.prems show ?thesis by (simp add: now_s_def) (use books_same(1) in blast)
  qed
qed simp

lemma books_connect_fold:
  assumes "\<forall>i \<in> set js. i < n" and "books n rq (snd st)"
  shows "books n rq (snd (fold (\<lambda>i (connected, g). let (ok, g1) = connect_one K i g in
      (if ok then connected + 1 else connected, g1)) js st))"
  using assms
proof (induction js arbitrary: st)
  case (Cons i js)
  have "books n rq (snd (connect_one K i (snd st)))" using Cons.prems by (intro books_connect_one) simp_all
  then have "books n rq (snd ((\<lambda>(connected, g). let (ok, g1) = connect_one K i g in
      (if ok then connected + 1 else connected, g1)) st))"
    by (simp add: case_prod_beta Let_def)
  with Cons show ?case by simp
qed simp

lemma books_connect_all: "books n rq (snd (connect_all K zero n))"
  unfolding connect_all_def
  by (rule books_connect_fold) (auto simp: books_def init_lconn_def sum_list_replicate map_replicate_const)

section \<open>The loop ends when the clock passes the deadline\<close>

lemma calls_connect_one: "calls g \<le> calls (snd (connect_one K i g))"
  by (simp add: connect_one_def now_s_def Let_def)

lemma calls_on_out: "calls g \<le> calls (snd (on_out K rq i g))"
  by (simp add: on_out_def Let_def split: send_result.split)

lemma calls_fields [simp]:
  "calls (g\<lparr>lat := l, completed := k\<rparr>) = calls g" "calls (g\<lparr>errors := k\<rparr>) = calls g"
  "calls (g\<lparr>reconnects := k\<rparr>) = calls g"
  by simp_all

lemma calls_response_done: "calls g \<le> calls (response_done K rq close_mode deadline i len g)"
proof -
  have "calls g \<le> calls (snd (connect_one K i g'))" if "calls g' = calls g + 2" for g'
    using calls_connect_one [of g' K i] that by simp
  then show ?thesis
    by (auto simp: response_done_def now_s_def Let_def case_prod_beta split: send_result.split)
qed

lemma calls_on_in: "calls g \<le> calls (on_in K rq close_mode deadline i g)"
proof -
  have conn: "calls g \<le> calls (snd (connect_one K i g'))" if "calls g' = calls g + 2" for g'
    using calls_connect_one [of g' K i] that by simp
  moreover have "calls g \<le> calls (response_done K rq close_mode deadline i len g')" if "calls g' = calls g + 1" for g' len
    using calls_response_done [of g' K rq close_mode deadline i len] that by simp
  ultimately show ?thesis
    by (auto simp: on_in_def now_s_def Let_def case_prod_beta split: recv_result.split)
qed

lemma calls_on_event: "calls g \<le> calls (on_event K rq close_mode deadline e g)"
proof -
  obtain i out inp where e: "e = (i, out, inp)" by (cases e)
  obtain b g1 where g1: "(if out then on_out K rq i g else (True, g)) = (b, g1)" by fastforce
  then have "calls g \<le> calls g1" using calls_on_out [of g K rq i] by (auto split: if_splits)
  then show ?thesis
    using calls_on_in [of g1 K rq close_mode deadline i] by (simp add: on_event_def e g1 split: bool.split)
qed

lemma calls_events: "calls g \<le> calls (fold (on_event K rq close_mode deadline) es g)"
proof (induction es arbitrary: g)
  case (Cons e es)
  show ?case
    using calls_on_event [of g K rq close_mode deadline e] Cons [of "on_event K rq close_mode deadline e g"] by simp
qed simp

lemma run_loop_ends:
  assumes "\<forall>m \<ge> N. \<not> d_less K (k_now K m) deadline" and "N - calls g < rounds"
  shows "\<exists>g'. run_loop K rq close_mode deadline rounds g = Some g'"
  using assms(2)
proof (induction rounds arbitrary: g)
  case (Suc rounds)
  show ?case
  proof (cases "d_less K (k_now K (calls g)) deadline")
    case True
    let ?g = "fold (on_event K rq close_mode deadline) (k_wait K (calls (called g)) (watch (called g)))
        (called (called g))"
    have "calls (called (called g)) \<le> calls ?g" by (rule calls_events)
    moreover have "calls g < N" using True assms(1) by (meson not_le)
    ultimately have "N - calls ?g < rounds" using Suc.prems by simp
    from Suc.IH [OF this] True show ?thesis by (simp add: now_s_def)
  qed (simp add: now_s_def)
qed simp

section \<open>Answers of the server\<close>

lemma response_len_part:
  fixes p :: string
  assumes "line_safe line" and "line \<noteq> []" and "\<forall>kv \<in> set hs. header_safe kv" and "no_lookalike line hs"
    and "map_of hs ''Content-Length'' = Some (nat_to_string (length p))"
  defines "m \<equiv> line @ CRLF @ concat (map header_line hs) @ CRLF @ p"
  assumes "strict_prefix q m" and "length m < 2 ^ 63"
  shows "response_len q = 0"
proof -
  let ?head = "line @ CRLF @ concat (map header_line hs) @ CRLF"
  have m: "m = ?head @ p" by (simp add: m_def)
  note head = response_len_head [OF assms(1-5)]
  obtain q' where q': "m = q @ q'" "q' \<noteq> []" using assms(7) by (auto simp: strict_prefix_def prefix_def)
  show ?thesis
  proof (cases "length q < length ?head")
    case True
    have "find_sub (CRLF @ CRLF) (q @ q') = Some (length ?head - 4)"
      using head(1) [of p] assms(8) unfolding q'(1) [symmetric] m by simp
    from find_sub_prefix [OF this] have "find_sub (CRLF @ CRLF) q = None"
      using True head(2) [of p] assms(8) unfolding m by (simp add: CRLF_def)
    then show ?thesis by (simp add: response_len_def)
  next
    case False
    have "prefix ?head m" unfolding m using prefixI [of _ ?head p] by simp
    moreover have "prefix q m" by (simp add: q'(1))
    ultimately have "prefix ?head q" using False prefix_length_prefix by (metis not_le nat_le_linear)
    then obtain t where t: "q = ?head @ t" by (auto simp: prefix_def)
    then have "p = t @ q'" using q'(1) unfolding m by simp
    with q'(2) have "length t < length p" by simp
    moreover have "length ?head + length p < 2 ^ 63" using assms(8) unfolding m by simp
    ultimately show ?thesis using head(3) [of t] by (simp only: t) simp
  qed
qed

lemma no_lookalike_finish:
  assumes "no_lookalike line (res_headers r)"
  shows "no_lookalike line (res_headers (finish_response cl r))"
proof -
  let ?conn = "(''Connection'', if cl then ''close'' else ''keep-alive'')"
  have "\<not> sublist length_key (header_text (''Connection'', ''close''))"
    "\<not> sublist length_key (header_text (''Connection'', ''keep-alive''))" by code_simp+
  then have conn: "\<not> sublist length_key (header_text ?conn)" by (cases cl) simp_all
  have "kv = ?conn \<or> kv \<in> set (res_headers r)" if "kv \<in> set (res_headers (finish_response cl r))"
      "fst kv \<noteq> ''Content-Length''" for kv
    using that set_smap_set [of "''Content-Length''" _ "smap_set (fst ?conn) (snd ?conn) (res_headers r)"]
      set_smap_set [of "fst ?conn" "snd ?conn" "res_headers r"]
    by (fastforce simp: finish_response_def set_content_length_def setHeader_def)
  with conn assms show ?thesis unfolding no_lookalike_def by metis
qed

lemma served_message:
  fixes ka sc :: bool
  assumes "run_chain J \<sigma> reg (start_ctx J junk r w) = Ret c" and "framable J (res c)"
    and "req_method (req c) \<noteq> ''HEAD''" and "no_lookalike (status_line (res c)) (res_headers (res c))"
  defines "h \<equiv> handleRequest J \<sigma> reg junk r ka sc w"
  defines "m \<equiv> wire (h_head h, h_body h)"
  assumes "length m < 2 ^ 63"
  shows "strict_prefix q m \<Longrightarrow> response_len q = 0"
    and "length m + length rest < 2 ^ 63 \<Longrightarrow> response_len (m @ rest) = word_of_nat (length m)"
    and "m \<noteq> []"
proof -
  obtain p where p: "body_payload J (res_body (res c)) = Inr p" "length p = body_length (res_body (res c))"
    using assms(2) payload_length [of J "res_body (res c)"] by (auto simp: framable_def)
  let ?r = "finish_response (\<not> ka) (res c)" and ?hs = "res_headers (finish_response (\<not> ka) (res c))"
  have m: "m = status_line (res c) @ CRLF @ concat (map header_line ?hs) @ CRLF @ p"
    using handleRequest_Ret [OF assms(1) p(1) assms(3), of ka sc] by (auto simp: m_def h_def head_text_def)
  have line: "line_safe (status_line (res c))" "status_line (res c) \<noteq> []"
    using assms(2) by (simp_all add: framable_def) (simp add: status_line_def)
  have hs: "\<forall>kv \<in> set ?hs. header_safe kv" using assms(2) by (intro header_safe_finish) (simp add: framable_def)
  have len: "map_of ?hs ''Content-Length'' = Some (nat_to_string (length p))"
    by (simp add: finish_headers_map_of p(2))
  note facts = line hs no_lookalike_finish [OF assms(4)] len
  show "response_len q = 0" if "strict_prefix q m"
    using response_len_part [OF facts] that assms(7) unfolding m by simp
  show "response_len (m @ rest) = word_of_nat (length m)" if "length m + length rest < 2 ^ 63"
    using response_len_head(3) [OF facts, of "p @ rest"] that unfolding m by simp
  show "m \<noteq> []" by (simp add: m line)
qed

text \<open>Pieces of a message arriving at a connection that waits for it.\<close>

definition gathered :: "nat \<Rightarrow> string \<Rightarrow> nat \<Rightarrow> 'd loadgen \<Rightarrow> 'd loadgen" where
  "gathered i s j g = (upd_lconn i (\<lambda>c. c\<lparr>inbuf := s\<rparr>) g)\<lparr>calls := calls g + j\<rparr>"

lemma on_event_data:
  assumes "0 \<le> fd (lconns g ! i)" and "i < length (lconns g)" and "k_recv K (calls g) (fd (lconns g ! i)) = Data s"
  shows "on_event K rq close_mode deadline (i, False, True) g =
    (let buf = inbuf (lconns g ! i) @ s; len = response_len buf; g2 = gathered i buf 1 g in
     if len > 0 \<and> word_of_nat (length buf) \<ge> len
     then response_done K rq close_mode deadline i (unat len) g2 else g2)"
proof -
  have "upd_lconn i (\<lambda>c. c\<lparr>inbuf := inbuf c @ s\<rparr>) (called g) = gathered i (inbuf (lconns g ! i) @ s) 1 g"
    by (cases g) (simp add: gathered_def upd_lconn_def called_def)
  moreover have "inbuf (lconns (gathered i t 1 g) ! i) = t" for t
    using assms(2) by (simp add: gathered_def)
  ultimately show ?thesis
    using assms(1,3) by (simp add: on_event_def on_in_def Let_def del: upd_lconn_simps)
qed

lemma gathered_simps [simp]:
  "calls (gathered i s j g) = calls g + j" "lat (gathered i s j g) = lat g"
  "completed (gathered i s j g) = completed g" "length (lconns (gathered i s j g)) = length (lconns g)"
  "i < length (lconns g) \<Longrightarrow> lconns (gathered i s j g) ! i = (lconns g ! i)\<lparr>inbuf := s\<rparr>"
  "i < length (lconns g) \<Longrightarrow> gathered i t k (gathered i s j g) = gathered i t (j + k) g"
  by (simp_all add: gathered_def upd_lconn_def add.assoc)

lemma gathered_none:
  assumes "inbuf (lconns g ! i) = []"
  shows "gathered i [] 0 g = g"
proof -
  have "(lconns g ! i)\<lparr>inbuf := []\<rparr> = lconns g ! i" using assms by (cases "lconns g ! i") simp
  then show ?thesis by (cases g) (simp add: gathered_def upd_lconn_def)
qed

lemma pieces_gathered:
  assumes conn: "0 \<le> fd (lconns g ! i)" "i < length (lconns g)" "inbuf (lconns g ! i) = []"
    and recv: "\<forall>k < length ds. k_recv K (calls g + k) (fd (lconns g ! i)) = Data (ds ! k)"
    and quiet: "\<forall>k < length ds. response_len (concat (take k ds)) = 0"
    and "j < length ds"
  shows "(on_event K rq close_mode deadline (i, False, True) ^^ j) g = gathered i (concat (take j ds)) j g"
  using assms(6)
proof (induction j)
  case 0
  then show ?case using gathered_none [OF conn(3)] by simp
next
  case (Suc j)
  let ?g = "gathered i (concat (take j ds)) j g"
  have more: "concat (take j ds) @ ds ! j = concat (take (Suc j) ds)"
    using Suc.prems by (simp add: take_Suc_conv_app_nth)
  have "inbuf (lconns ?g ! i) = concat (take j ds)" by (simp add: conn(2))
  then have buf: "inbuf (lconns ?g ! i) @ ds ! j = concat (take (Suc j) ds)" using more by (simp only:)
  have "response_len (concat (take (Suc j) ds)) = 0" using quiet Suc.prems by blast
  moreover have "0 \<le> fd (lconns ?g ! i)" "i < length (lconns ?g)" using conn by simp_all
  moreover have "k_recv K (calls ?g) (fd (lconns ?g ! i)) = Data (ds ! j)" using conn recv Suc.prems by simp
  ultimately have "on_event K rq close_mode deadline (i, False, True) ?g = gathered i (concat (take (Suc j) ds)) (Suc j) g"
    using conn(2) by (simp only: on_event_data buf Let_def) simp
  with Suc show ?case by simp
qed

lemma response_done_keep_alive:
  assumes "i < length (lconns g)" and "\<forall>n. k_send K n (fd (lconns g ! i)) rq = Sent (length rq)"
  shows "response_done K rq False deadline i len g =
    (upd_lconn i (\<lambda>c. c\<lparr>conn_done := conn_done c + 1, inbuf := drop len (inbuf c),
        sent_at := k_now K (calls g + 1), written := length rq\<rparr>) g)
      \<lparr>lat := lat g @ [d_minus K (k_now K (calls g)) (sent_at (lconns g ! i))],
       completed := completed g + 1, calls := calls g + 3\<rparr>"
  using assms by (cases g) (simp add: response_done_def now_s_def called_def upd_lconn_def Let_def)

section \<open>Properties\<close>

text \<open>
  The load generator finds the end of what the server writes: on the bytes of an answer followed
  by anything, \<open>response_len\<close> is the length of the answer, and on every proper part of it it says
  that the answer is not complete, so however the network cuts an answer it is measured once and
  exactly. (The headers must not have another line with the text \<open>Content-Length:\<close>.)
\<close>

theorem response_len_measures_answers:
  assumes "run_chain J \<sigma> reg (start_ctx J junk r w) = Ret c" and "framable J (res c)"
    and "req_method (req c) \<noteq> ''HEAD''" and "no_lookalike (status_line (res c)) (res_headers (res c))"
    and "h = handleRequest J \<sigma> reg junk r ka sc w" and "m = wire (h_head h, h_body h)"
    and "length m + length rest < 2 ^ 63"
  shows "response_len (m @ rest) = word_of_nat (length m) \<and> (\<forall>q. strict_prefix q m \<longrightarrow> response_len q = 0)"
proof -
  have "length (wire (h_head (handleRequest J \<sigma> reg junk r ka sc w), h_body (handleRequest J \<sigma> reg junk r ka sc w)))
      < 2 ^ 63" using assms(5-7) by simp
  from served_message(1,2) [OF assms(1-4) this] assms(5-7) show ?thesis by simp
qed

text \<open>
  The closed loop against the server: while the answer to its request arrives in any number of
  pieces, a keep-alive connection completes nothing; with the last piece it completes exactly one
  request, has nothing left in its buffer, and has sent the next request.
\<close>

theorem answer_completes_one_request:
  assumes "run_chain J \<sigma> reg (start_ctx J junk r w) = Ret c" and "framable J (res c)"
    and "req_method (req c) \<noteq> ''HEAD''" and "no_lookalike (status_line (res c)) (res_headers (res c))"
    and "h = handleRequest J \<sigma> reg junk r ka sc w" and "concat ds = wire (h_head h, h_body h)"
    and "[] \<notin> set ds" and "length (concat ds) < 2 ^ 63"
    and "i < length (lconns g)" and "0 \<le> fd (lconns g ! i)" and "inbuf (lconns g ! i) = []"
    and "\<forall>k < length ds. k_recv K (calls g + k) (fd (lconns g ! i)) = Data (ds ! k)"
    and "\<forall>n. k_send K n (fd (lconns g ! i)) rq = Sent (length rq)"
  shows "(\<forall>j < length ds. completed ((on_event K rq False deadline (i, False, True) ^^ j) g) = completed g) \<and>
    (\<exists>t t'. (on_event K rq False deadline (i, False, True) ^^ length ds) g =
      (upd_lconn i (\<lambda>c. c\<lparr>conn_done := conn_done c + 1, inbuf := [], sent_at := t, written := length rq\<rparr>) g)
        \<lparr>lat := lat g @ [t'], completed := completed g + 1, calls := calls g + length ds + 3\<rparr>)"
proof -
  let ?m = "wire (h_head h, h_body h)"
  have small: "length (wire (h_head (handleRequest J \<sigma> reg junk r ka sc w),
      h_body (handleRequest J \<sigma> reg junk r ka sc w))) < 2 ^ 63" using assms(5,6,8) by simp
  note served = served_message [OF assms(1-4) small, folded assms(5)]
  have part: "strict_prefix (concat (take k ds)) ?m" if "k < length ds" for k
  proof -
    have "drop k ds = ds ! k # drop (Suc k) ds" using that by (simp add: Cons_nth_drop_Suc)
    moreover have "ds ! k \<noteq> []" using that assms(7) by (metis nth_mem)
    moreover have "concat (take k ds) @ concat (drop k ds) = ?m"
      by (simp add: assms(6) [symmetric] flip: concat_append)
    ultimately show ?thesis by (metis append_is_Nil_conv append_self_conv concat.simps(2) prefixI strict_prefix_def)
  qed
  then have quiet: "\<forall>k < length ds. response_len (concat (take k ds)) = 0" using served(1) by blast
  note gathered = pieces_gathered [OF assms(10,9,11,12) quiet]
  obtain n where n: "length ds = Suc n" using served(3) assms(6) by (cases ds) auto
  let ?g = "gathered i (concat (take n ds)) n g"
  have last: "concat (take n ds) @ ds ! n = ?m"
    using n assms(6) by (metis concat_append concat.simps append_Nil2 lessI take_Suc_conv_app_nth take_all order_refl)
  have "inbuf (lconns ?g ! i) = concat (take n ds)" by (simp add: assms(9))
  then have buf: "inbuf (lconns ?g ! i) @ ds ! n = ?m" using last by (simp only:)
  have len: "response_len ?m = word_of_nat (length ?m)" using served(2) [of "[]"] small assms(5) by simp
  have unat: "unat (word_of_nat (length ?m) :: 64 word) = length ?m" using small assms(5) by (intro unat_small) simp
  have "(word_of_nat (length ?m) :: 64 word) > 0" using served(3) unat by (simp add: word_less_nat_alt)
  moreover have "0 \<le> fd (lconns ?g ! i)" "i < length (lconns ?g)" using assms(9,10) by simp_all
  moreover have "k_recv K (calls ?g) (fd (lconns ?g ! i)) = Data (ds ! n)" using assms(9,12) n by simp
  ultimately have "on_event K rq False deadline (i, False, True) ?g =
      response_done K rq False deadline i (length ?m) (gathered i ?m (Suc n) g)"
    using assms(9) by (simp only: on_event_data buf Let_def len unat) simp
  moreover have "(on_event K rq False deadline (i, False, True) ^^ length ds) g =
      on_event K rq False deadline (i, False, True) ?g"
    using gathered [of n rq False deadline] n by simp
  moreover have "\<exists>t t'. response_done K rq False deadline i (length ?m) (gathered i ?m (Suc n) g) =
      (upd_lconn i (\<lambda>c. c\<lparr>conn_done := conn_done c + 1, inbuf := [], sent_at := t, written := length rq\<rparr>) g)
        \<lparr>lat := lat g @ [t'], completed := completed g + 1, calls := calls g + length ds + 3\<rparr>"
    using response_done_keep_alive [of i "gathered i ?m (Suc n) g" K rq deadline "length ?m"] assms(9,13) n
    by (cases g) (auto simp: gathered_def upd_lconn_def)
  ultimately show ?thesis using gathered by auto
qed

text \<open>
  C28: A run ends, and its books are right: when the clock passes every point in time, enough rounds
  bring the loop to its end, whatever the kernel answers; and at the end the requests counted are
  those counted at the connections and those whose latency was recorded, a run that reports no
  starved connection has completed one request on each, no connection has sent more than one whole
  request, and every index the loop used was in range.
\<close>

theorem load_run_ends_with_books:
  assumes "kernel_ok K" and "\<forall>d. \<exists>N. \<forall>m \<ge> N. \<not> d_less K (k_now K m) d"
  shows "(\<exists>rounds. loadgen_main K zero path n close_mode duration rounds \<noteq> None) \<and>
    (\<forall>rounds code g. loadgen_main K zero path n close_mode duration rounds = Some (code, g) \<longrightarrow>
       length (lconns g) = n \<and> completed g = sum_list (map conn_done (lconns g)) \<and>
       length (lat g) = completed g \<and> (starved g = 0 \<longrightarrow> n \<le> completed g) \<and>
       (\<forall>c \<in> set (lconns g). written c \<le> length (request_text path close_mode)) \<and>
       (\<forall>(out, i) \<in> ran (watch g). i < length (lconns g)))"
proof -
  let ?rq = "request_text path close_mode"
  obtain connected g0 where g0: "connect_all K zero n = (connected, g0)" by fastforce
  then have ok: "books n ?rq g0" using books_connect_all [of n ?rq K zero] by simp
  let ?deadline = "d_plus K (k_now K (calls g0)) duration"
  obtain N where N: "\<forall>m \<ge> N. \<not> d_less K (k_now K m) ?deadline" using assms(2) by blast
  have "N - calls (called g0) < Suc N" by simp
  from run_loop_ends [OF N this, of ?rq close_mode]
  have "loadgen_main K zero path n close_mode duration (Suc N) \<noteq> None"
    by (auto simp: loadgen_main_def g0 now_s_def simp del: run_loop.simps)
  moreover have "books n ?rq g"
    if "loadgen_main K zero path n close_mode duration rounds = Some (code, g)" for rounds code g
  proof (cases "connected = 0")
    case True
    with that ok show ?thesis by (simp add: loadgen_main_def g0)
  next
    case False
    with that obtain g2 where "run_loop K ?rq close_mode ?deadline rounds (called g0) = Some g2" "g = called g2"
      by (auto simp: loadgen_main_def g0 now_s_def split: option.splits)
    moreover have "books n ?rq (called g0)" using ok by simp
    ultimately show ?thesis using books_run_loop [OF assms(1)] by fastforce
  qed
  moreover have "starved g = 0 \<longrightarrow> n \<le> completed g" if "books n ?rq g" for g :: "'a loadgen"
  proof
    assume "starved g = 0"
    then have "\<forall>c \<in> set (lconns g). 1 \<le> conn_done c" by (auto simp: starved_def filter_empty_conv)
    then have "length (lconns g) \<le> sum_list (map conn_done (lconns g))"
      using sum_list_mono [of "lconns g" "\<lambda>c. 1" conn_done] by (simp add: sum_list_triv)
    with that show "n \<le> completed g" by (simp add: books_def)
  qed
  ultimately show ?thesis unfolding books_def by blast
qed

section \<open>Examples\<close>

definition sample_kernel :: "string list \<Rightarrow> nat kernel" where
  "sample_kernel ds =
     \<lparr>k_now = (\<lambda>n. n), k_socket = (\<lambda>n. int n), k_connect = (\<lambda>n. True), k_send = (\<lambda>n d s. Sent (length s)),
      k_recv = (\<lambda>n d. if n < length ds then Data (ds ! n) else RecvError True), k_wait = (\<lambda>n W. []),
      d_plus = (+), d_minus = (-), d_less = (<)\<rparr>"

definition sample_load :: "nat loadgen" where
  "sample_load =
     \<lparr>lconns = [(init_lconn 0)\<lparr>fd := 5\<rparr>], lat = [], completed = 0, errors = 0, reconnects = 0,
      watch = [5 \<mapsto> (False, 0)], calls = 0\<rparr>"

definition sample_bytes :: string where
  "sample_bytes =
     (let h = handleRequest text_json (\<lambda>r. new_router) new_registry 0 (get_request ''/x'') True False () in
      wire (h_head h, h_body h))"

abbreviation (input) sample_404 :: "string response" where
  "sample_404 \<equiv> not_found_response text_json (get_request ''/x'') (not_found_json text_json (get_request ''/x''))"

lemma sample_bytes_length: "5 < length sample_bytes \<and> length sample_bytes < 1000"
proof -
  have payload: "body_payload text_json (res_body sample_404) = Inr (not_found_json text_json (get_request ''/x''))"
    by (simp add: body_payload_def not_found_response_def)
  have hs: "res_headers (finish_response False sample_404) =
      [(''Connection'', ''keep-alive''), (''Content-Length'', ''32''), (''Content-Type'', ''application/json'')]"
    by code_simp
  have len: "length (not_found_json text_json (get_request ''/x'')) = 32" by code_simp
  have eq: "sample_bytes = head_text (finish_response False sample_404) @ not_found_json text_json (get_request ''/x'')"
    using handleRequest_Ret [OF sample_chain, of "not_found_json text_json (get_request ''/x'')" True False] payload
    by (auto simp: sample_bytes_def)
  have "length sample_bytes = length (head_text (finish_response False sample_404)) + 32"
    unfolding eq by (simp only: length_append len)
  moreover have "length (head_text (finish_response False sample_404)) =
      length (''HTTP/1.1 404 Not Found'' @ CRLF @ concat (map header_line [(''Connection'', ''keep-alive''),
        (''Content-Length'', ''32''), (''Content-Type'', ''application/json'')]) @ CRLF)"
    unfolding head_text_def hs by (simp add: sample_status)
  moreover have "\<dots> = 102" by (simp add: header_line_def CRLF_def)
  ultimately show ?thesis by simp
qed

lemma sample_no_lookalike: "no_lookalike (status_line sample_404) (res_headers sample_404)"
proof -
  have "no_lookalike ''HTTP/1.1 404 Not Found'' (res_headers sample_404)" by code_simp
  then show ?thesis by (simp add: sample_status)
qed

lemma strict_prefix_butlast: "xs \<noteq> [] \<Longrightarrow> strict_prefix (butlast xs) xs"
  by (cases xs rule: rev_cases) (simp_all add: strict_prefix_def)

theorem response_len_measures_answers_witness:
  "response_len (sample_bytes @ ''HTTP'') = word_of_nat (length sample_bytes) \<and>
   response_len (butlast sample_bytes) = 0"
proof -
  have "response_len (sample_bytes @ ''HTTP'') = word_of_nat (length sample_bytes) \<and>
      (\<forall>q. strict_prefix q sample_bytes \<longrightarrow> response_len q = 0)"
    using response_len_measures_answers [OF sample_chain _ _ _ refl refl, of True False "''HTTP''"]
      framable_not_found [of text_json "get_request ''/x''"] sample_no_lookalike sample_bytes_length
    by (simp add: sample_bytes_def Let_def)
  moreover have "sample_bytes \<noteq> []" using sample_bytes_length by auto
  then have "strict_prefix (butlast sample_bytes) sample_bytes" by (rule strict_prefix_butlast)
  ultimately show ?thesis by blast
qed

theorem load_run_ends_with_books_witness:
  "\<exists>rounds. loadgen_main (sample_kernel []) 0 ''/plain'' 2 False 3 rounds \<noteq> None"
proof -
  have "kernel_ok (sample_kernel [])" by (simp add: kernel_ok_def sample_kernel_def)
  moreover have "\<exists>N. \<forall>m \<ge> N. \<not> d_less (sample_kernel []) (k_now (sample_kernel []) m) d" for d
    by (rule exI [of _ d]) (simp add: sample_kernel_def)
  ultimately show ?thesis using load_run_ends_with_books [of "sample_kernel []" 0 "''/plain''" 2 False 3] by blast
qed

theorem answer_completes_one_request_witness:
  "completed ((on_event (sample_kernel [take 5 sample_bytes, drop 5 sample_bytes]) (request_text ''/x'' False) False 9
      (0, False, True) ^^ 1) sample_load) = 0 \<and>
   completed ((on_event (sample_kernel [take 5 sample_bytes, drop 5 sample_bytes]) (request_text ''/x'' False) False 9
      (0, False, True) ^^ 2) sample_load) = 1"
proof -
  let ?ds = "[take 5 sample_bytes, drop 5 sample_bytes]"
  let ?h = "handleRequest text_json (\<lambda>r. new_router) new_registry 0 (get_request ''/x'') True False ()"
  have bytes: "concat ?ds = wire (h_head ?h, h_body ?h)" by (simp add: sample_bytes_def Let_def)
  have conn: "0 < length (lconns sample_load)" "0 \<le> fd (lconns sample_load ! 0)"
    "inbuf (lconns sample_load ! 0) = []" by (simp_all add: sample_load_def init_lconn_def)
  have recv: "\<forall>k < length ?ds. k_recv (sample_kernel ?ds) (calls sample_load + k) (fd (lconns sample_load ! 0)) = Data (?ds ! k)"
    by (auto simp: sample_kernel_def sample_load_def)
  have sends: "\<forall>n. k_send (sample_kernel ?ds) n (fd (lconns sample_load ! 0)) (request_text ''/x'' False) =
      Sent (length (request_text ''/x'' False))" by (simp add: sample_kernel_def)
  have pieces: "[] \<notin> set ?ds" "length (concat ?ds) < 2 ^ 63" using sample_bytes_length by auto
  have "framable text_json sample_404" using framable_not_found [of text_json "get_request ''/x''"] by simp
  then have "completed ((on_event (sample_kernel ?ds) (request_text ''/x'' False) False 9 (0, False, True) ^^ j) sample_load) =
      (if j < 2 then 0 else 1)" if "j \<le> 2" for j
    using answer_completes_one_request [OF sample_chain _ _ _ refl bytes pieces conn(1,2,3) recv sends, of 9]
      sample_no_lookalike that
    by (cases "j = 2") (auto simp: sample_load_def numeral_2_eq_2)
  from this [of 1] this [of 2] show ?thesis by simp
qed

end
