(* ===== verification/Closed_Loop.thy ===== *)
theory Closed_Loop
  imports Load_Generator
begin

text \<open>
  The load generator (\<open>bench/loadgen.cpp\<close>, keep-alive mode) and a server at the two ends of the same
  connections. A step moves bytes: the load generator sends or receives some, the server reads some or
  is told that a write has finished; which bytes, on which connection and in which order is not fixed.
  The network keeps bytes and their order. The server is any that keeps the contract
  \<open>answering_server\<close>; it is kept by PlusWeb (\<open>Closed_Server\<close>) and by the control server
  (\<open>Closed_Control\<close>). What such a run does is proved here, once for both.
\<close>

section \<open>The closed system\<close>

text \<open>For each connection, the bytes on their way to the server and to the load generator.\<close>

record ('d, 's) closed =
  lg :: "'d loadgen"
  srv :: 's
  to_srv :: "nat \<Rightarrow> string"
  to_lg :: "nat \<Rightarrow> string"

abbreviation peer :: "'d loadgen \<Rightarrow> nat \<Rightarrow> 'd lg_conn" where
  "peer g i \<equiv> lconns g ! i"

abbreviation put :: "nat \<Rightarrow> string \<Rightarrow> (nat \<Rightarrow> string) \<Rightarrow> nat \<Rightarrow> string" where
  "put i s f \<equiv> f(i := f i @ s)"

text \<open>
  The kernel of a step is any that keeps to its documentation and, on the socket of the step,
  answers what the step says. After a whole answer the load generator sends the next request in the
  same callback, as much of it as the kernel takes. \<open>reads i d\<close> is what the server does when it reads
  \<open>d\<close> on connection \<open>i\<close>, \<open>ends i\<close> when a write on it has finished, and \<open>sent_by i\<close> the messages it
  has sent there.
\<close>

inductive closed_step ::
  "(nat \<Rightarrow> string \<Rightarrow> 's \<Rightarrow> 's \<Rightarrow> bool) \<Rightarrow> (nat \<Rightarrow> 's \<Rightarrow> 's \<Rightarrow> bool) \<Rightarrow> (nat \<Rightarrow> 's \<Rightarrow> string list) \<Rightarrow> string \<Rightarrow> 'd \<Rightarrow>
   ('d, 's) closed \<Rightarrow> ('d, 's) closed \<Rightarrow> bool"
  for reads ends sent_by rq deadline where
  lg_sends:
    "\<lbrakk>g = lg s; c = peer g i; kernel_ok K; watch g (fd c) = Some (True, i);
      k_send K (calls g) (fd c) (drop (written c) rq) = Sent w; 0 < w\<rbrakk>
     \<Longrightarrow> closed_step reads ends sent_by rq deadline s
       (s\<lparr>lg := on_event K rq False deadline (i, True, False) g,
          to_srv := put i (take w (drop (written c) rq)) (to_srv s)\<rparr>)"
| lg_receives:
    "\<lbrakk>g = lg s; c = peer g i; kernel_ok K; watch g (fd c) = Some (False, i);
      to_lg s i = d @ rest; d \<noteq> []; k_recv K (calls g) (fd c) = Data d;
      \<forall>n. k_send K n (fd c) rq = Sent w; 0 < w; g' = on_event K rq False deadline (i, False, True) g\<rbrakk>
     \<Longrightarrow> closed_step reads ends sent_by rq deadline s
       (s\<lparr>lg := g', to_lg := (to_lg s)(i := rest),
          to_srv := (if completed g' = completed g then to_srv s else put i (take w rq) (to_srv s))\<rparr>)"
| srv_reads:
    "\<lbrakk>i < length (lconns (lg s)); to_srv s i = d @ rest; d \<noteq> []; reads i d (srv s) st;
      new = drop (length (sent_by i (srv s))) (sent_by i st)\<rbrakk>
     \<Longrightarrow> closed_step reads ends sent_by rq deadline s
       (s\<lparr>srv := st, to_srv := (to_srv s)(i := rest), to_lg := put i (concat new) (to_lg s)\<rparr>)"
| srv_ends:
    "\<lbrakk>i < length (lconns (lg s)); ends i (srv s) st\<rbrakk>
     \<Longrightarrow> closed_step reads ends sent_by rq deadline s (s\<lparr>srv := st\<rparr>)"

text \<open>The start: every connection established on both sides, nothing sent.\<close>

definition closed_start :: "'d kernel \<Rightarrow> 'd \<Rightarrow> nat \<Rightarrow> 's \<Rightarrow> ('d, 's) closed" where
  "closed_start K zero n s0 =
     \<lparr>lg = snd (connect_all K zero n), srv = s0, to_srv = (\<lambda>i. []), to_lg = (\<lambda>i. [])\<rparr>"

section \<open>The load generator's side\<close>

text \<open>An event changes the connection it is for, and neither fails nor opens one.\<close>

definition lg_change :: "'d loadgen \<Rightarrow> nat \<Rightarrow> 'd loadgen \<Rightarrow> bool" where
  "lg_change g i g' \<longleftrightarrow>
     lconns g' = (lconns g)[i := peer g' i] \<and> fd (peer g' i) = fd (peer g i) \<and> errors g' = errors g \<and> reconnects g' = reconnects g"

lemma reconnects_simps [simp]:
  "reconnects (upd_lconn i f g) = reconnects g" "reconnects (called g) = reconnects g"
  "reconnects (epoll_mod d out i g) = reconnects g" "reconnects (gathered i t j g) = reconnects g"
  "errors (epoll_mod d out i g) = errors g" "errors (gathered i t j g) = errors g"
  "watch (gathered i t j g) = watch g"
  "lconns (gathered i t j g) = (lconns g)[i := (peer g i)\<lparr>inbuf := t\<rparr>]"
  by (simp_all add: upd_lconn_def called_def epoll_mod_def gathered_def)

lemma on_event_out:
  assumes "0 \<le> fd (peer g i)" and "i < length (lconns g)" and "watch g (fd (peer g i)) = Some x"
    and "k_send K (calls g) (fd (peer g i)) (drop (written (peer g i)) rq) = Sent w"
  shows "\<exists>g'. on_event K rq False deadline (i, True, False) g = g' \<and> lg_change g i g' \<and>
    inbuf (peer g' i) = inbuf (peer g i) \<and> conn_done (peer g' i) = conn_done (peer g i) \<and> written (peer g' i) = written (peer g i) + w \<and>
    completed g' = completed g \<and>
    watch g' = (if written (peer g' i) = length rq then (watch g)(fd (peer g i) \<mapsto> (False, i)) else watch g)"
  using assms by (simp add: on_event_def on_out_def lg_change_def Let_def epoll_mod_def)

lemma on_event_part:
  assumes "0 \<le> fd (peer g i)" and "i < length (lconns g)" and "k_recv K (calls g) (fd (peer g i)) = Data d"
    and "response_len (inbuf (peer g i) @ d) = 0"
  shows "\<exists>g'. on_event K rq False deadline (i, False, True) g = g' \<and> lg_change g i g' \<and>
    inbuf (peer g' i) = inbuf (peer g i) @ d \<and> conn_done (peer g' i) = conn_done (peer g i) \<and> written (peer g' i) = written (peer g i) \<and>
    completed g' = completed g \<and> watch g' = watch g"
  using assms by (simp add: on_event_data lg_change_def Let_def gathered_def)

lemma on_event_whole:
  assumes "0 \<le> fd (peer g i)" and "i < length (lconns g)" and "k_recv K (calls g) (fd (peer g i)) = Data d"
    and buf: "inbuf (peer g i) @ d = m" and m: "m \<noteq> []" "length m < 2 ^ 62" "response_len m = word_of_nat (length m)"
    and "\<forall>n. k_send K n (fd (peer g i)) rq = Sent w" and "watch g (fd (peer g i)) = Some x"
  shows "\<exists>g'. on_event K rq False deadline (i, False, True) g = g' \<and> lg_change g i g' \<and>
    inbuf (peer g' i) = [] \<and> conn_done (peer g' i) = conn_done (peer g i) + 1 \<and> written (peer g' i) = w \<and>
    completed g' = completed g + 1 \<and>
    watch g' = (if w < length rq then (watch g)(fd (peer g i) \<mapsto> (True, i)) else watch g)"
proof -
  have unat: "unat (word_of_nat (length m) :: 64 word) = length m" using m(2) by (intro unat_small) simp
  have "(word_of_nat (length m) :: 64 word) > 0" using m(1) unat by (simp add: word_less_nat_alt)
  then have "on_event K rq False deadline (i, False, True) g =
      response_done K rq False deadline i (length m) (gathered i m 1 g)"
    using assms(1-3) buf m(3) unat by (simp add: on_event_data Let_def)
  then show ?thesis
    using assms(2,8,9) by (simp add: response_done_def now_s_def lg_change_def Let_def epoll_mod_def)
qed

section \<open>One connection, seen from both ends\<close>

text \<open>
  A connection is asking while the request is under way, in the bytes the server has read, those on
  their way and those not sent yet; and answering while the answer is under way, in the bytes the load
  generator has and those on their way. The arguments are the load generator's connection, what the
  server has sent, the bytes in between in both directions, and the chunks of the request it has read.
\<close>

definition asking :: "string \<Rightarrow> 'd lg_conn \<Rightarrow> string list \<Rightarrow> string \<Rightarrow> string \<Rightarrow> string list \<Rightarrow> bool" where
  "asking rq c sn us dn ds \<longleftrightarrow>
     length sn = conn_done c \<and> inbuf c = [] \<and> dn = [] \<and> concat ds @ us = take (written c) rq \<and> concat ds \<noteq> rq"

definition answering ::
  "string \<Rightarrow> (string \<Rightarrow> bool) \<Rightarrow> 'd lg_conn \<Rightarrow> string list \<Rightarrow> string \<Rightarrow> string \<Rightarrow> string list \<Rightarrow> bool" where
  "answering rq good c sn us dn ds \<longleftrightarrow>
     length sn = Suc (conn_done c) \<and> ds = [] \<and> us = [] \<and> written c = length rq \<and> dn \<noteq> [] \<and> good (inbuf c @ dn)"

definition link_ok ::
  "string \<Rightarrow> (string \<Rightarrow> bool) \<Rightarrow> nat \<Rightarrow> 'd lg_conn \<Rightarrow> (bool \<times> nat) option \<Rightarrow> (string list \<Rightarrow> bool) \<Rightarrow>
   string list \<Rightarrow> string \<Rightarrow> string \<Rightarrow> bool" where
  "link_ok rq good i c wt has sn us dn \<longleftrightarrow>
     0 \<le> fd c \<and> written c \<le> length rq \<and> wt = Some (written c < length rq, i) \<and> list_all good sn \<and>
     (\<exists>ds. has ds \<and> (asking rq c sn us dn ds \<or> answering rq good c sn us dn ds))"

text \<open>What is left to do on a connection before the next request is complete, in steps; \<open>f\<close> writes have not ended.\<close>

definition work :: "string \<Rightarrow> nat \<Rightarrow> 'd lg_conn \<Rightarrow> nat \<Rightarrow> string list \<Rightarrow> string \<Rightarrow> string \<Rightarrow> nat" where
  "work rq B c f sn us dn =
     2 * (length rq - written c) + length us + length dn + f + (if length sn = conn_done c then B + 1 else 0)"

lemma link_sends:
  assumes "link_ok rq good i c (Some (True, i)) has sn us dn"
    and "0 < w" and "written c + w \<le> length rq" and "us' = us @ take w (drop (written c) rq)"
    and "fd c' = fd c" and "inbuf c' = inbuf c" and "conn_done c' = conn_done c" and "written c' = written c + w"
  shows "link_ok rq good i c' (Some (written c' < length rq, i)) has sn us' dn \<and>
    work rq B c' f sn us' dn + 1 \<le> work rq B c f sn us dn"
proof -
  obtain ds where ds: "has ds" "asking rq c sn us dn ds"
    using assms(1) by (auto simp: link_ok_def answering_def)
  have "concat ds @ us' = take (written c') rq"
    using ds(2) assms(4,8) by (simp add: asking_def take_add flip: append_assoc)
  then have "asking rq c' sn us' dn ds" using ds(2) assms(6,7) by (simp add: asking_def)
  moreover have "length us' = length us + w" using assms(3,4) by simp
  ultimately show ?thesis
    using assms ds(1) by (auto simp: link_ok_def work_def)
qed

lemma link_receives_part:
  assumes "link_ok rq good i c wt has sn us (d @ rest)" and "d \<noteq> []" and "rest \<noteq> []"
    and "fd c' = fd c" and "inbuf c' = inbuf c @ d" and "conn_done c' = conn_done c" and "written c' = written c"
  shows "(\<exists>m. good m \<and> strict_prefix (inbuf c @ d) m) \<and> link_ok rq good i c' wt has sn us rest \<and>
    work rq B c' f sn us rest + 1 \<le> work rq B c f sn us (d @ rest)"
proof -
  obtain ds where ds: "has ds" "answering rq good c sn us (d @ rest) ds"
    using assms(1,2) by (auto simp: link_ok_def asking_def)
  then have "good (inbuf c @ d @ rest)" by (simp add: answering_def)
  moreover have "strict_prefix (inbuf c @ d) (inbuf c @ d @ rest)"
    using assms(3) by (metis append.assoc append_self_conv prefixI strict_prefixI)
  moreover have "answering rq good c' sn us rest ds"
    using ds(2) assms(3,5-7) by (auto simp: answering_def)
  ultimately show ?thesis using assms ds(1) by (auto simp: link_ok_def work_def Suc_leI)
qed

lemma link_receives_all:
  assumes "link_ok rq good i c (Some (False, i)) has sn us d" and "d \<noteq> []" and "rq \<noteq> []"
    and "0 < w" and "w \<le> length rq"
    and "fd c' = fd c" and "inbuf c' = []" and "conn_done c' = conn_done c + 1" and "written c' = w"
  shows "good (inbuf c @ d) \<and> link_ok rq good i c' (Some (w < length rq, i)) has sn (us @ take w rq) [] \<and>
    work rq B c' f sn (us @ take w rq) [] + 1 \<le> work rq B c f sn us d + (2 * length rq + B + 1)"
proof -
  obtain ds where ds: "has ds" "answering rq good c sn us d ds"
    using assms(1,2) by (auto simp: link_ok_def asking_def)
  have "asking rq c' sn (us @ take w rq) [] ds"
    using ds(2) assms(3,7-9) by (auto simp: answering_def asking_def)
  moreover have "1 \<le> length d" using assms(2) by (cases d) simp_all
  ultimately show ?thesis
    using assms ds by (auto simp: link_ok_def work_def answering_def)
qed

text \<open>The server reads a part of the request, or the rest of it, and then has sent one more answer.\<close>

lemma link_reads:
  assumes "link_ok rq good i c wt has sn (d @ rest) dn" and "d \<noteq> []"
    and part: "\<And>ds. has ds \<Longrightarrow> strict_prefix (concat ds @ d) rq \<Longrightarrow> has' (ds @ [d]) \<and> sn' = sn \<and> f' \<le> f"
    and all: "\<And>ds. has ds \<Longrightarrow> concat ds @ d = rq \<Longrightarrow>
      \<exists>m. good m \<and> m \<noteq> [] \<and> length m \<le> B \<and> has' [] \<and> sn' = sn @ [m] \<and> f' \<le> f + 1"
  shows "link_ok rq good i c wt has' sn' rest (dn @ concat (drop (length sn) sn')) \<and>
    work rq B c f' sn' rest (dn @ concat (drop (length sn) sn')) + 1 \<le> work rq B c f sn (d @ rest) dn"
proof -
  obtain ds where ds: "has ds" "asking rq c sn (d @ rest) dn ds"
    and c: "0 \<le> fd c" "written c \<le> length rq" "wt = Some (written c < length rq, i)" "list_all good sn"
    using assms(1,2) by (auto simp: link_ok_def answering_def)
  have taken: "concat ds @ d @ rest = take (written c) rq" using ds(2) by (simp add: asking_def)
  then have pre: "prefix (concat ds @ d) rq" by (metis append.assoc append_take_drop_id prefixI)
  have pos: "1 \<le> length d" using assms(2) by (cases d) simp_all
  show ?thesis
  proof (cases "concat ds @ d = rq")
    case True
    have "length rq + length rest = written c" using arg_cong [OF taken, of length] c(2) by (simp flip: True)
    then have "length rest = 0 \<and> written c = length rq" using c(2) by linarith
    then have rest: "rest = []" "written c = length rq" by simp_all
    obtain m where m: "good m" "m \<noteq> []" "length m \<le> B" "has' []" "sn' = sn @ [m]" "f' \<le> f + 1"
      using all [OF ds(1) True] by blast
    have "answering rq good c sn' rest (dn @ m) []"
      using ds(2) rest m unfolding answering_def asking_def by simp
    then show ?thesis
      using c m ds(2) rest pos by (auto simp: link_ok_def work_def asking_def)
  next
    case False
    then have new: "has' (ds @ [d])" "sn' = sn" "f' \<le> f" using part [OF ds(1)] pre by (auto simp: strict_prefix_def)
    have "asking rq c sn' rest dn (ds @ [d])" using ds(2) taken False new(2) by (simp add: asking_def)
    then show ?thesis using c new pos by (auto simp: link_ok_def work_def)
  qed
qed

section \<open>The invariant of the closed system\<close>

definition closed_ok ::
  "(nat \<Rightarrow> 's \<Rightarrow> string list) \<Rightarrow> (nat \<Rightarrow> string list \<Rightarrow> 's \<Rightarrow> bool) \<Rightarrow> (nat \<Rightarrow> 's \<Rightarrow> nat) \<Rightarrow> string \<Rightarrow> (string \<Rightarrow> bool) \<Rightarrow>
   nat \<Rightarrow> nat \<Rightarrow> nat \<Rightarrow> ('d, 's) closed \<Rightarrow> bool" where
  "closed_ok sent_by holds flights rq good B n N s \<longleftrightarrow>
     books n rq (lg s) \<and> inj_on (\<lambda>i. fd (peer (lg s) i)) {..<n} \<and> errors (lg s) = 0 \<and> reconnects (lg s) = 0 \<and>
     (\<forall>i < n. link_ok rq good i (peer (lg s) i) (watch (lg s) (fd (peer (lg s) i))) (\<lambda>ds. holds i ds (srv s))
        (sent_by i (srv s)) (to_srv s i) (to_lg s i)) \<and>
     N + (\<Sum>i<n. work rq B (peer (lg s) i) (flights i (srv s)) (sent_by i (srv s)) (to_srv s i) (to_lg s i))
       \<le> (2 * length rq + B + 1) * (n + completed (lg s))"

lemma link_mono: "link_ok rq good i c wt has sn us dn \<Longrightarrow> (\<And>ds. has ds \<Longrightarrow> has' ds) \<Longrightarrow> link_ok rq good i c wt has' sn us dn"
  by (auto simp: link_ok_def)

lemma lg_change_refl [simp]: "lg_change g i g"
  by (simp add: lg_change_def)

lemma books_range: "books n rq g \<Longrightarrow> watch g d = Some (out, i) \<Longrightarrow> i < n"
  unfolding books_def by (auto simp: ran_def)

section \<open>The start\<close>

lemma connect_fold:
  assumes "\<forall>m. 0 \<le> k_socket K m" and "inj (k_socket K)" and "\<forall>m. k_connect K m" and "m \<le> n"
  shows "\<exists>g. snd (fold (\<lambda>i (connected, g). let (ok, g1) = connect_one K i g in
          (if ok then connected + 1 else connected, g1)) [0..<m]
        (0 :: nat, \<lparr>lconns = replicate n (init_lconn zero), lat = [], completed = 0, errors = 0, reconnects = 0,
             watch = Map.empty, calls = 0\<rparr>)) = g \<and>
    length (lconns g) = n \<and> calls g = 3 * m \<and> errors g = 0 \<and> reconnects g = 0 \<and> completed g = 0 \<and>
    (\<forall>i < n. inbuf (peer g i) = [] \<and> conn_done (peer g i) = 0 \<and> written (peer g i) = 0) \<and>
    (\<forall>i < m. fd (peer g i) = k_socket K (3 * i) \<and> watch g (k_socket K (3 * i)) = Some (True, i)) \<and>
    (\<forall>i \<ge> m. watch g (k_socket K (3 * i)) = None \<and> (i < n \<longrightarrow> fd (peer g i) = -1))"
  using assms(4)
proof (induction m)
  case 0
  then show ?case by (simp add: init_lconn_def)
next
  case (Suc m)
  let ?F = "fold (\<lambda>i (connected, g). let (ok, g1) = connect_one K i g in
          (if ok then connected + 1 else connected, g1)) [0..<m]
        (0 :: nat, \<lparr>lconns = replicate n (init_lconn zero), lat = [], completed = 0, errors = 0, reconnects = 0,
             watch = Map.empty, calls = 0\<rparr>)"
  obtain c0 g where F: "?F = (c0, g)" by (cases ?F)
  with Suc have g: "length (lconns g) = n" "calls g = 3 * m" "errors g = 0" "reconnects g = 0" "completed g = 0"
    "\<forall>i < n. inbuf (peer g i) = [] \<and> conn_done (peer g i) = 0 \<and> written (peer g i) = 0"
    "\<forall>i < m. fd (peer g i) = k_socket K (3 * i) \<and> watch g (k_socket K (3 * i)) = Some (True, i)"
    "\<forall>i \<ge> m. watch g (k_socket K (3 * i)) = None \<and> (i < n \<longrightarrow> fd (peer g i) = -1)"
    by auto
  have inj: "k_socket K (3 * i) = k_socket K (3 * j) \<longleftrightarrow> i = j" for i j
    using assms(2) by (auto dest: injD)
  have "\<not> 0 \<le> fd (peer g m)" "\<not> k_socket K (3 * m) < 0" "m < n"
    using g(8) Suc.prems assms(1) by (simp_all add: not_less)
  then show ?case
    using F g assms(3) inj
    by (auto simp: connect_one_def now_s_def epoll_add_def Let_def called_def upd_lconn_def nth_list_update less_Suc_eq)
qed

section \<open>A server that answers\<close>

text \<open>
  The contract. \<open>holds i ds\<close> says that connection \<open>i\<close> is open and that the chunks \<open>ds\<close> of the next
  request have been read on it; \<open>flights i\<close> counts the writes that have not ended; an answer is \<open>good\<close>
  when the load generator measures it exactly, and is at most \<open>B\<close> bytes long.
\<close>

locale answering_server =
  fixes reads :: "nat \<Rightarrow> string \<Rightarrow> 's \<Rightarrow> 's \<Rightarrow> bool"
    and ends :: "nat \<Rightarrow> 's \<Rightarrow> 's \<Rightarrow> bool"
    and sent_by :: "nat \<Rightarrow> 's \<Rightarrow> string list"
    and holds :: "nat \<Rightarrow> string list \<Rightarrow> 's \<Rightarrow> bool"
    and flights :: "nat \<Rightarrow> 's \<Rightarrow> nat"
    and rq :: string
    and good :: "string \<Rightarrow> bool"
    and B :: nat
  assumes rq: "rq \<noteq> []"
    and good: "good m \<Longrightarrow> m \<noteq> [] \<and> length m \<le> B \<and> length m < 2 ^ 62 \<and> response_len m = word_of_nat (length m)"
    and good_part: "good m \<Longrightarrow> strict_prefix q m \<Longrightarrow> response_len q = 0"
    and reads_part: "holds i ds s \<Longrightarrow> reads i d s s' \<Longrightarrow> d \<noteq> [] \<Longrightarrow> strict_prefix (concat ds @ d) rq \<Longrightarrow>
      holds i (ds @ [d]) s' \<and> sent_by i s' = sent_by i s \<and> flights i s' \<le> flights i s"
    and reads_all: "holds i ds s \<Longrightarrow> reads i d s s' \<Longrightarrow> d \<noteq> [] \<Longrightarrow> concat ds @ d = rq \<Longrightarrow>
      \<exists>m. good m \<and> holds i [] s' \<and> sent_by i s' = sent_by i s @ [m] \<and> flights i s' \<le> flights i s + 1"
    and reads_other: "holds i ds s \<Longrightarrow> reads i d s s' \<Longrightarrow> d \<noteq> [] \<Longrightarrow> prefix (concat ds @ d) rq \<Longrightarrow> j \<noteq> i \<Longrightarrow>
      (\<forall>es. holds j es s \<longrightarrow> holds j es s') \<and> sent_by j s' = sent_by j s \<and> flights j s' \<le> flights j s"
    and reads_can: "holds i ds s \<Longrightarrow> d \<noteq> [] \<Longrightarrow> \<exists>s'. reads i d s s'"
    and ends_own: "holds i ds s \<Longrightarrow> ends i s s' \<Longrightarrow>
      holds i ds s' \<and> sent_by i s' = sent_by i s \<and> flights i s' < flights i s"
    and ends_other: "holds i ds s \<Longrightarrow> ends i s s' \<Longrightarrow> j \<noteq> i \<Longrightarrow>
      (\<forall>es. holds j es s \<longrightarrow> holds j es s') \<and> sent_by j s' = sent_by j s \<and> flights j s' \<le> flights j s"
begin

abbreviation run_ok :: "nat \<Rightarrow> nat \<Rightarrow> ('d, 's) closed \<Rightarrow> bool" where
  "run_ok n N s \<equiv> closed_ok sent_by holds flights rq good B n N s"

abbreviation link :: "('d, 's) closed \<Rightarrow> nat \<Rightarrow> bool" where
  "link s i \<equiv> link_ok rq good i (peer (lg s) i) (watch (lg s) (fd (peer (lg s) i))) (\<lambda>ds. holds i ds (srv s))
     (sent_by i (srv s)) (to_srv s i) (to_lg s i)"

abbreviation work_on :: "('d, 's) closed \<Rightarrow> nat \<Rightarrow> nat" where
  "work_on s i \<equiv> work rq B (peer (lg s) i) (flights i (srv s)) (sent_by i (srv s)) (to_srv s i) (to_lg s i)"

abbreviation step :: "'d \<Rightarrow> ('d, 's) closed \<Rightarrow> ('d, 's) closed \<Rightarrow> bool" where
  "step \<equiv> closed_step reads ends sent_by rq"

text \<open>What a step has to keep: everything but its connection, that connection's invariant, and the bound.\<close>

lemma inv_step:
  assumes ok: "run_ok n N s" and "i < n"
    and "books n rq (lg s')" and "lg_change (lg s) i (lg s')"
    and frame: "\<And>j. j \<noteq> i \<Longrightarrow> watch (lg s') (fd (peer (lg s) j)) = watch (lg s) (fd (peer (lg s) j)) \<or> n \<le> j"
      "\<And>j. j \<noteq> i \<Longrightarrow> (\<forall>es. holds j es (srv s) \<longrightarrow> holds j es (srv s')) \<and> sent_by j (srv s') = sent_by j (srv s) \<and>
         flights j (srv s') \<le> flights j (srv s)"
      "\<And>j. j \<noteq> i \<Longrightarrow> to_srv s' j = to_srv s j" "\<And>j. j \<noteq> i \<Longrightarrow> to_lg s' j = to_lg s j"
    and "link s' i" and "completed (lg s') = completed (lg s) + x"
    and "work_on s' i + 1 \<le> work_on s i + (2 * length rq + B + 1) * x"
  shows "run_ok n (Suc N) s'"
proof -
  let ?M = "2 * length rq + B + 1"
  have change: "lconns (lg s') = (lconns (lg s))[i := peer (lg s') i]" "fd (peer (lg s') i) = fd (peer (lg s) i)"
    "errors (lg s') = errors (lg s)" "reconnects (lg s') = reconnects (lg s)"
    using assms(4) unfolding lg_change_def by blast+
  have other: "peer (lg s') j = peer (lg s) j" if "j \<noteq> i" for j
    using that change(1) by (metis nth_list_update_neq)
  have fds: "fd (peer (lg s') j) = fd (peer (lg s) j)" for j using other change(2) by (cases "j = i") simp_all
  have links: "link s' j" if "j < n" for j
  proof (cases "j = i")
    case False
    have "link s j" using ok that unfolding closed_ok_def by blast
    then show ?thesis using that False other [of j] frame [of j] by (auto intro: link_mono)
  qed (use assms(9) in simp)
  have "work_on s' j \<le> work_on s j" if "j \<noteq> i" for j
    using that other [of j] frame [of j] by (simp add: work_def)
  then have "(\<Sum>j \<in> {..<n} - {i}. work_on s' j) \<le> (\<Sum>j \<in> {..<n} - {i}. work_on s j)" by (intro sum_mono) simp
  moreover have "(\<Sum>j<n. f j) = f i + (\<Sum>j \<in> {..<n} - {i}. f j)" for f :: "nat \<Rightarrow> nat"
    using assms(2) by (simp add: sum.remove)
  ultimately have "(\<Sum>j<n. work_on s' j) + 1 \<le> (\<Sum>j<n. work_on s j) + ?M * x"
    using assms(11) by simp
  moreover have "?M * (n + completed (lg s')) = ?M * (n + completed (lg s)) + ?M * x"
    by (simp add: assms(10) distrib_left)
  ultimately have "Suc N + (\<Sum>j<n. work_on s' j) \<le> ?M * (n + completed (lg s'))"
    using ok unfolding closed_ok_def by linarith
  then show ?thesis
    using ok assms(3) change(3,4) links fds unfolding closed_ok_def by simp
qed

lemma invD:
  assumes "run_ok n N s" and "i < n"
  shows "link s i" "0 \<le> fd (peer (lg s) i)" "i < length (lconns (lg s))"
    and "j < n \<Longrightarrow> j \<noteq> i \<Longrightarrow> fd (peer (lg s) j) \<noteq> fd (peer (lg s) i)"
proof -
  show link: "link s i" using assms unfolding closed_ok_def by blast
  then show "0 \<le> fd (peer (lg s) i)" by (simp add: link_ok_def)
  show "i < length (lconns (lg s))" using assms by (simp add: closed_ok_def books_def)
  show "j < n \<Longrightarrow> j \<noteq> i \<Longrightarrow> fd (peer (lg s) j) \<noteq> fd (peer (lg s) i)"
    using assms unfolding closed_ok_def inj_on_def by auto
qed

lemma lg_sends_inv:
  fixes s :: "('d, 's) closed" and i :: nat
  defines "g \<equiv> lg s" and "c \<equiv> peer (lg s) i"
  assumes ok: "run_ok n N s" and "kernel_ok K" and "watch g (fd c) = Some (True, i)"
    and send: "k_send K (calls g) (fd c) (drop (written c) rq) = Sent w" and "0 < w"
  shows "run_ok n (Suc N) (s\<lparr>lg := on_event K rq False deadline (i, True, False) g,
      to_srv := put i (take w (drop (written c) rq)) (to_srv s)\<rparr>)"
    (is "run_ok n (Suc N) ?s")
proof -
  have books: "books n rq g" using ok by (simp add: closed_ok_def g_def)
  then have i: "i < n" using assms(5) by (rule books_range)
  have w: "written c + w \<le> length rq"
    using assms(4) send assms(7) unfolding kernel_ok_def by (metis length_drop le_diff_conv2 nat_le_linear
        diff_is_0_eq le_zero_eq less_numeral_extra(3) add.commute)
  note D = invD [OF ok i]
  obtain g' where g': "on_event K rq False deadline (i, True, False) g = g'" "lg_change g i g'"
    "inbuf (peer g' i) = inbuf c" "conn_done (peer g' i) = conn_done c" "written (peer g' i) = written c + w"
    "completed g' = completed g"
    "watch g' = (if written (peer g' i) = length rq then (watch g)(fd c \<mapsto> (False, i)) else watch g)"
    using on_event_out [OF D(2,3), of "(True, i)" K rq w deadline] assms(5) send by (auto simp: g_def c_def)
  have fd: "fd (peer g' i) = fd c" using g'(2) by (simp add: lg_change_def g_def c_def)
  note L = link_sends [of rq good i c "\<lambda>ds. holds i ds (srv s)" "sent_by i (srv s)" "to_srv s i" "to_lg s i" w
      "to_srv s i @ take w (drop (written c) rq)" "peer g' i" B "flights i (srv s)"]
  have "watch g' (fd c) = Some (written (peer g' i) < length rq, i)"
    using g'(5,7) w assms(5) by auto
  moreover have "watch (lg s) (fd c) = Some (True, i)" using assms(5) by (simp add: g_def)
  ultimately have "link ?s i" "work_on ?s i + 1 \<le> work_on s i"
    using L D(1) assms(7) w g'(1,3-5) fd by (simp_all add: c_def)
  moreover have "watch g' (fd (peer (lg s) j)) = watch (lg s) (fd (peer (lg s) j)) \<or> n \<le> j" if "j \<noteq> i" for j
    using D(4) [OF _ that] g'(7) by (auto simp: c_def g_def)
  moreover have "books n rq g'" using books_on_event [OF assms(4) books, of "(i, True, False)" False deadline] i g'(1) by simp
  ultimately show ?thesis
    using g'(1,2,6) ok
    by (intro inv_step [OF ok i, where x = 0]) (simp_all add: g_def closed_ok_def)
qed

lemma lg_receives_inv:
  fixes s :: "('d, 's) closed" and i :: nat and deadline :: 'd
  defines "g \<equiv> lg s" and "c \<equiv> peer (lg s) i"
  assumes ok: "run_ok n N s" and "kernel_ok K" and "watch g (fd c) = Some (False, i)"
    and dn: "to_lg s i = d @ rest" "d \<noteq> []" and recv: "k_recv K (calls g) (fd c) = Data d"
    and send: "\<forall>n. k_send K n (fd c) rq = Sent w" "0 < w"
  defines "g' \<equiv> on_event K rq False deadline (i, False, True) g"
  shows "run_ok n (Suc N) (s\<lparr>lg := g', to_lg := (to_lg s)(i := rest),
      to_srv := (if completed g' = completed g then to_srv s else put i (take w rq) (to_srv s))\<rparr>)"
    (is "run_ok n (Suc N) ?s")
proof -
  have books: "books n rq g" using ok by (simp add: closed_ok_def g_def)
  then have i: "i < n" using assms(5) by (rule books_range)
  have w: "w \<le> length rq" using assms(4) send(1) unfolding kernel_ok_def by blast
  note D = invD [OF ok i]
  have wt: "watch (lg s) (fd c) = Some (False, i)" using assms(5) by (simp add: g_def)
  have books': "books n rq g'"
    using books_on_event [OF assms(4) books, of "(i, False, True)" False deadline] i by (simp add: g'_def)
  have frame: "watch g' (fd (peer (lg s) j)) = watch (lg s) (fd (peer (lg s) j)) \<or> n \<le> j"
    if "j \<noteq> i" "watch g' = watch g \<or> watch g' = (watch g)(fd c \<mapsto> x)" for j x
    using D(4) [OF _ that(1)] that(2) by (auto simp: c_def g_def)
  show ?thesis
  proof (cases "rest = []")
    case False
    have link: "link_ok rq good i c (Some (False, i)) (\<lambda>ds. holds i ds (srv s)) (sent_by i (srv s)) (to_srv s i) (d @ rest)"
      using D(1) wt dn(1) by (simp add: c_def)
    note L = link_receives_part [OF link dn(2) False, where B = B and f = "flights i (srv s)"]
    have "response_len (inbuf c @ d) = 0"
      using L [of "c\<lparr>inbuf := inbuf c @ d\<rparr>"] good_part by auto
    then obtain g2 where g2: "g' = g2" "lg_change g i g2"
      "inbuf (peer g2 i) = inbuf c @ d" "conn_done (peer g2 i) = conn_done c" "written (peer g2 i) = written c"
      "completed g2 = completed g" "watch g2 = watch g"
      using on_event_part [OF D(2,3), of K d rq deadline] recv by (auto simp: g_def c_def g'_def)
    have fd: "fd (peer g2 i) = fd c" using g2(2) by (simp add: lg_change_def g_def c_def)
    have "link ?s i" "work_on ?s i + 1 \<le> work_on s i"
      using L [OF fd g2(3-5)] g2 fd wt dn(1) by (simp_all add: g_def) (simp_all add: c_def)
    then show ?thesis
      using frame g2 ok books'
      by (intro inv_step [OF ok i, where x = 0]) (simp_all add: g_def closed_ok_def)
  next
    case True
    have link: "link_ok rq good i c (Some (False, i)) (\<lambda>ds. holds i ds (srv s)) (sent_by i (srv s)) (to_srv s i) d"
      using D(1) wt dn(1) True by (simp add: c_def)
    note L = link_receives_all [OF link dn(2) rq send(2) w, where B = B and f = "flights i (srv s)"]
    have hb: "good (inbuf c @ d)"
      using L [of "c\<lparr>inbuf := [], conn_done := conn_done c + 1, written := w\<rparr>"] by auto
    obtain g2 where g2: "g' = g2" "lg_change g i g2"
      "inbuf (peer g2 i) = []" "conn_done (peer g2 i) = conn_done c + 1" "written (peer g2 i) = w"
      "completed g2 = completed g + 1"
      "watch g2 = (if w < length rq then (watch g)(fd c \<mapsto> (True, i)) else watch g)"
      using on_event_whole [OF D(2,3), of K d "inbuf c @ d" rq w _ deadline] recv send(1) wt good [OF hb]
      by (auto simp: g_def c_def g'_def)
    have fd: "fd (peer g2 i) = fd c" using g2(2) by (simp add: lg_change_def g_def c_def)
    have "watch g2 (fd c) = Some (w < length rq, i)" using g2(7) wt w by (auto simp: g_def)
    then have "link ?s i" "work_on ?s i + 1 \<le> work_on s i + (2 * length rq + B + 1) * 1"
      using L [OF fd g2(3-5)] g2(1,5,6) fd wt dn(1) True by (simp_all add: g_def) (simp_all add: c_def)
    then show ?thesis
      using frame [of _ "(True, i)"] g2 ok books'
      by (intro inv_step [OF ok i, where x = 1]) (simp_all add: g_def closed_ok_def)
  qed
qed

lemma srv_reads_inv:
  assumes ok: "run_ok n N s" and "i < length (lconns (lg s))" and us: "to_srv s i = d @ rest" "d \<noteq> []" and "reads i d (srv s) st"
  shows "run_ok n (Suc N) (s\<lparr>srv := st, to_srv := (to_srv s)(i := rest),
      to_lg := put i (concat (drop (length (sent_by i (srv s))) (sent_by i st))) (to_lg s)\<rparr>)"
    (is "run_ok n (Suc N) ?s")
proof -
  have i: "i < n" and books: "books n rq (lg s)" using ok assms(2) by (simp_all add: closed_ok_def books_def)
  have link: "link_ok rq good i (peer (lg s) i) (watch (lg s) (fd (peer (lg s) i))) (\<lambda>ds. holds i ds (srv s))
      (sent_by i (srv s)) (d @ rest) (to_lg s i)" using invD(1) [OF ok i] us(1) by simp
  obtain ds where ds: "holds i ds (srv s)" "asking rq (peer (lg s) i) (sent_by i (srv s)) (d @ rest) (to_lg s i) ds"
    using link us(2) by (auto simp: link_ok_def answering_def)
  then have "concat ds @ d @ rest = take (written (peer (lg s) i)) rq" by (simp add: asking_def)
  then have pre: "prefix (concat ds @ d) rq" by (metis append.assoc append_take_drop_id prefixI)
  have "link ?s i \<and> work_on ?s i + 1 \<le> work_on s i"
    using link_reads [OF link us(2), where has' = "\<lambda>ds. holds i ds st" and sn' = "sent_by i st" and B = B and
        f = "flights i (srv s)" and f' = "flights i st"]
      reads_part [OF _ assms(5) us(2)] reads_all [OF _ assms(5) us(2)] good us(1) by auto
  then show ?thesis
    using reads_other [OF ds(1) assms(5) us(2) pre] books
    by (intro inv_step [OF ok i, where x = 0]) simp_all
qed

lemma srv_ends_inv:
  assumes ok: "run_ok n N s" and "i < length (lconns (lg s))" and "ends i (srv s) st"
  shows "run_ok n (Suc N) (s\<lparr>srv := st\<rparr>)"
proof -
  have i: "i < n" and books: "books n rq (lg s)" using ok assms(2) by (simp_all add: closed_ok_def books_def)
  note link = invD(1) [OF ok i]
  then obtain ds where ds: "holds i ds (srv s)" by (auto simp: link_ok_def)
  have "flights i st < flights i (srv s)" "sent_by i st = sent_by i (srv s)" using ends_own [OF ds assms(3)] by simp_all
  moreover have "link (s\<lparr>srv := st\<rparr>) i" using link ends_own [OF _ assms(3)] calculation(2) by (auto intro: link_mono)
  ultimately show ?thesis
    using ends_other [OF ds assms(3)] books
    by (intro inv_step [OF ok i, where x = 0]) (simp_all add: work_def)
qed

lemma step_inv:
  assumes "step deadline s s'" and ok: "run_ok n N s"
  shows "run_ok n (Suc N) s'"
  using assms(1)
proof (cases rule: closed_step.cases)
  case (lg_sends g c i K w)
  with lg_sends_inv [OF ok lg_sends(4)] show ?thesis by simp
next
  case (lg_receives g c i K d rest w g')
  with lg_receives_inv [OF ok lg_receives(4)] show ?thesis by simp
next
  case (srv_reads i d rest st new)
  with srv_reads_inv [OF ok] show ?thesis by simp
next
  case (srv_ends i st)
  with srv_ends_inv [OF ok] show ?thesis by simp
qed

lemma run_inv: "(step deadline ^^ N) s s' \<Longrightarrow> run_ok n 0 s \<Longrightarrow> run_ok n N s'"
proof (induction N arbitrary: s')
  case (Suc N)
  then obtain s1 where "(step deadline ^^ N) s s1" "step deadline s1 s'" by auto
  with Suc show ?case by (blast intro: step_inv)
qed simp

lemma progress:
  assumes ok: "run_ok n N s" and "0 < n"
  shows "\<exists>s'. step deadline s s'"
proof -
  let ?c = "peer (lg s) 0"
  obtain ds where has: "holds 0 ds (srv s)"
    and wt: "watch (lg s) (fd ?c) = Some (written ?c < length rq, 0)"
    and two: "asking rq ?c (sent_by 0 (srv s)) (to_srv s 0) (to_lg s 0) ds \<or>
      answering rq good ?c (sent_by 0 (srv s)) (to_srv s 0) (to_lg s 0) ds"
    and le: "written ?c \<le> length rq"
    using invD(1) [OF ok assms(2)] by (auto simp: link_ok_def)
  let ?K = "\<lambda>d. \<lparr>k_now = undefined, k_socket = undefined, k_connect = undefined, k_send = (\<lambda>n f s. Sent (length s)),
      k_recv = (\<lambda>n f. Data d), k_wait = (\<lambda>n W. []), d_plus = undefined, d_minus = undefined, d_less = undefined\<rparr>"
  have K: "kernel_ok (?K d)" for d by (simp add: kernel_ok_def)
  consider (send) "written ?c < length rq" | (read) "written ?c = length rq" "to_srv s 0 \<noteq> []"
    | (receive) "written ?c = length rq" "to_lg s 0 \<noteq> []"
    using two le by (cases "written ?c < length rq") (auto simp: asking_def answering_def)
  then show ?thesis
  proof cases
    case send
    have "k_send (?K []) (calls (lg s)) (fd ?c) (drop (written ?c) rq) = Sent (length rq - written ?c)" by simp
    from closed_step.lg_sends [OF refl refl K _ this, where reads = reads and ends = ends and sent_by = sent_by and deadline = deadline] wt send show ?thesis by auto
  next
    case read
    obtain st where "reads 0 (to_srv s 0) (srv s) st" using reads_can [OF has read(2)] by blast
    from closed_step.srv_reads [where reads = reads and i = 0 and s = s and d = "to_srv s 0" and rest = "[]" and
        sent_by = sent_by and st = st and rq = rq and ends = ends and deadline = deadline, OF _ _ read(2) this refl]
      invD(3) [OF ok assms(2)] show ?thesis by auto
  next
    case receive
    have "k_recv (?K (to_lg s 0)) (calls (lg s)) (fd ?c) = Data (to_lg s 0)"
      "\<forall>n. k_send (?K (to_lg s 0)) n (fd ?c) rq = Sent (length rq)" by simp_all
    from closed_step.lg_receives [OF refl refl K _ _ receive(2) this _ refl, where reads = reads and ends = ends and sent_by = sent_by and deadline = deadline and rest = "[]"] wt receive(1) rq
    show ?thesis by auto
  qed
qed

lemma start_inv:
  assumes "\<forall>m. 0 \<le> k_socket K m" and "inj (k_socket K)" and "\<forall>m. k_connect K m"
    and "\<forall>i < n. holds i [] s0 \<and> sent_by i s0 = [] \<and> flights i s0 = 0"
  shows "run_ok n 0 (closed_start K zero n s0)"
proof -
  let ?s = "closed_start K zero n s0"
  have "lg ?s = snd (connect_all K zero n)" by (simp add: closed_start_def)
  with connect_fold [OF assms(1-3) order_refl, of n zero, folded connect_all_def]
  have g: "length (lconns (lg ?s)) = n" "errors (lg ?s) = 0" "reconnects (lg ?s) = 0" "completed (lg ?s) = 0"
    "\<forall>i < n. inbuf (peer (lg ?s) i) = [] \<and> conn_done (peer (lg ?s) i) = 0 \<and> written (peer (lg ?s) i) = 0"
    "\<forall>i < n. fd (peer (lg ?s) i) = k_socket K (3 * i) \<and> watch (lg ?s) (k_socket K (3 * i)) = Some (True, i)"
    by auto
  have srv: "srv ?s = s0" "to_srv ?s i = []" "to_lg ?s i = []" for i by (simp_all add: closed_start_def)
  have "inj_on (\<lambda>i. fd (peer (lg ?s) i)) {..<n}"
    using g(6) by (fastforce intro!: inj_onI dest: injD [OF assms(2)])
  moreover have "link ?s i" if "i < n" for i
    using g that assms(1,4) rq srv by (auto simp: link_ok_def asking_def intro!: exI [of _ "[]"])
  moreover have "work_on ?s i = 2 * length rq + B + 1" if "i < n" for i
    using g that assms(4) srv by (simp add: work_def)
  then have "(\<Sum>i<n. work_on ?s i) = (2 * length rq + B + 1) * n" by simp
  moreover have "books n rq (lg ?s)" using books_connect_all [of n rq K zero] by (simp add: closed_start_def)
  ultimately show ?thesis using g(2-4) by (simp add: closed_ok_def)
qed

text \<open>What holds of every run: the conversation and the throughput.\<close>

lemma conversation:
  assumes "run_ok n N s"
  shows "errors (lg s) = 0 \<and> reconnects (lg s) = 0 \<and> length (lconns (lg s)) = n \<and>
    completed (lg s) = sum_list (map conn_done (lconns (lg s))) \<and> length (lat (lg s)) = completed (lg s)"
    and "i < n \<Longrightarrow> (\<exists>ds. holds i ds (srv s)) \<and> list_all good (sent_by i (srv s)) \<and>
      conn_done (peer (lg s) i) \<le> length (sent_by i (srv s)) \<and> length (sent_by i (srv s)) \<le> conn_done (peer (lg s) i) + 1"
  using assms invD(1) [OF assms, of i] by (auto simp: closed_ok_def books_def link_ok_def asking_def answering_def)

lemma throughput: "run_ok n N s \<Longrightarrow> N \<le> (2 * length rq + B + 1) * (n + completed (lg s))"
  unfolding closed_ok_def by linarith

end

end
