(* ===== verification/Closed_Server.thy ===== *)
theory Closed_Server
  imports Connection Closed_Loop
begin

text \<open>
  The load generator against PlusWeb: the event loop of \<open>HttpServer.cpp\<close> keeps the contract
  \<open>answering_server\<close> when llhttp finds the one request in the bytes, however they are cut, and the
  application answers it. The theorems say what a run of the two does: no connection ever fails, what
  the load generator counts are the answers of the server, and the run cannot get slow: so many steps
  complete so many requests.
\<close>

section \<open>What is assumed of llhttp and of the application\<close>

text \<open>
  llhttp, in the states \<open>G\<close> between requests, finds in the bytes of the request, in whatever pieces
  they come, the one message that stands for \<open>r\<close>, and nothing complete in a part of them.
\<close>

definition lexes ::
  "'j json_lib \<Rightarrow> 'l llhttp \<Rightarrow> ('l \<Rightarrow> bool) \<Rightarrow> string \<Rightarrow> 'j request \<Rightarrow> bool" where
  "lexes J L G rq r \<longleftrightarrow>
     G (ll_init L) \<and>
     (\<forall>l ds. G l \<longrightarrow> [] \<notin> set ds \<longrightarrow> strict_prefix (concat ds) rq \<longrightarrow>
        (\<exists>es l'. lex_chunks L ds l = Some (es, l') \<and> unfinished 16384 es)) \<and>
     (\<forall>l ds. G l \<longrightarrow> [] \<notin> set ds \<longrightarrow> concat ds = rq \<longrightarrow>
        (\<exists>m l'. lex_chunks L ds l = Some (msg_events m, l') \<and> G l' \<and> msg_ok 16384 m \<and>
           request_of J m = Inr r \<and> m_keep m))"

text \<open>The application answers the request with \<open>a\<close>, in at most \<open>B\<close> bytes, whatever its handlers do to the world.\<close>

definition answers_load ::
  "'j json_lib \<Rightarrow> ('j, 'w) store \<Rightarrow> ('j, 'w) registry \<Rightarrow> 'j request \<Rightarrow> string \<times> string \<Rightarrow> nat \<Rightarrow> bool" where
  "answers_load J \<sigma> reg r a B \<longleftrightarrow>
     (\<forall>junk w sc. \<exists>c h. run_chain J \<sigma> reg (start_ctx J junk r w) = Ret c \<and> answerable J c \<and>
        req_method (req c) = req_method r \<and> answer_of J c = a \<and> no_lookalike (status_line (res c)) (res_headers (res c)) \<and>
        h = handleRequest J \<sigma> reg junk r True sc w \<and> length (wire (h_head h, h_body h)) \<le> B)"

text \<open>Bytes that carry the answer and that the load generator measures exactly.\<close>

definition good :: "string \<times> string \<Rightarrow> nat \<Rightarrow> string \<times> string \<Rightarrow> bool" where
  "good a B hb \<longleftrightarrow>
     carries (fst a, Some (snd a)) hb \<and> wire hb \<noteq> [] \<and> length (wire hb) \<le> B \<and>
     response_len (wire hb) = word_of_nat (length (wire hb)) \<and>
     (\<forall>q. strict_prefix q (wire hb) \<longrightarrow> response_len q = 0)"

lemma handleRequest_good:
  assumes "answers_load J \<sigma> reg r a B" and "B < 2 ^ 62"
  shows "\<exists>h. handleRequest J \<sigma> reg junk r True sc w = h \<and> h_exc h = None \<and> \<not> h_close h \<and>
    good a B (h_head h, h_body h)"
proof -
  let ?h = "handleRequest J \<sigma> reg junk r True sc w"
  obtain c where c: "run_chain J \<sigma> reg (start_ctx J junk r w) = Ret c" "answerable J c" "answer_of J c = a"
    "no_lookalike (status_line (res c)) (res_headers (res c))" "length (wire (h_head ?h, h_body ?h)) \<le> B"
    using assms(1) unfolding answers_load_def by blast
  have ok: "framable J (res c)" "req_method (req c) \<noteq> ''HEAD''"
    using c(2) by (simp_all add: answerable_def)
  have small: "length (wire (h_head ?h, h_body ?h)) < 2 ^ 63" using c(5) assms(2) by simp
  have "serves J \<sigma> reg (\<lambda>_. (fst a, Some (snd a))) {r}"
    using assms(1) unfolding answers_load_def serves_def reply_of_def answerable_def by fastforce
  from handleRequest_carries [OF this, of r junk True sc w]
  have "h_exc ?h = None" "\<not> h_close ?h" "carries (fst a, Some (snd a)) (h_head ?h, h_body ?h)" by simp_all
  moreover note served_message [OF c(1) ok c(4) small] served_message(2) [OF c(1) ok c(4) small, of "[]"]
  ultimately show ?thesis using c(5) small by (auto simp: good_def)
qed

section \<open>The server's side\<close>

lemma read_data_good:
  assumes "ll_execute L (lex p) data = (es, l1, HPE_OK, reason)"
    and "run_events J note_request es (cleared (impl p)) [] = (True, i1, rs)"
    and "set rs \<subseteq> {(r, True)}" and "answers_load J \<sigma> reg r a B" and "B < 2 ^ 62"
  shows "\<exists>io. read_data J L \<sigma> reg junk data p w = Inr (p\<lparr>impl := i1, lex := l1\<rparr>, io) \<and>
    length (io_writes io) = length rs \<and> list_all (good a B) (io_writes io) \<and> \<not> io_close io"
proof -
  let ?s = "\<lparr>io_world = w, io_close = False, io_writes = []\<rparr>"
  let ?P = "\<lambda>s rs. length (io_writes s) = length rs \<and> list_all (good a B) (io_writes s) \<and> \<not> io_close s"
  have start: "?P ?s []" by simp
  have step: "\<exists>s'. on_request J \<sigma> reg junk r' ka s = (None, s') \<and> ?P s' (rs' @ [(r', ka)])"
    if "(r', ka) \<in> set rs" "?P s rs'" for r' ka s rs'
  proof -
    have "r' = r" "ka" using that(1) assms(3) by auto
    with handleRequest_good [OF assms(4,5), of "junk (length (io_writes s))" "io_close s" "io_world s"] that(2)
    show ?thesis by (auto simp: on_request_def Let_def)
  qed
  from run_events_simulates [where P = ?P and h = "on_request J \<sigma> reg junk", OF assms(2) start step]
  obtain s' where run: "run_events J (on_request J \<sigma> reg junk) es (cleared (impl p)) ?s = (True, i1, s')"
    "?P s' rs" by blast
  then have "execute J L (on_request J \<sigma> reg junk) data p ?s = (True, p\<lparr>impl := i1, lex := l1\<rparr>, s')"
    using execute_eq [OF assms(1) run(1)] by simp
  with run(2) show ?thesis by (simp add: read_data_def)
qed

text \<open>A parser that has read the chunks \<open>ds\<close> of a request.\<close>

definition mid_request ::
  "'j json_lib \<Rightarrow> 'l llhttp \<Rightarrow> ('l \<Rightarrow> bool) \<Rightarrow> 'l http_parser \<Rightarrow> string list \<Rightarrow> bool" where
  "mid_request J L G p ds \<longleftrightarrow>
     (\<exists>l0 i0. G l0 \<and> at_start i0 \<and> limit i0 = 16384 \<and> cleared i0 = i0 \<and> [] \<notin> set ds \<and>
        read_chunks J L ds l0 i0 = Some (lex p, impl p, []))"

lemma mid_request_new:
  assumes "lexes J L G rq r"
  shows "mid_request J L G (new_parser L kMaxHeaderBytes) []"
proof -
  let ?i = "new_impl kMaxHeaderBytes"
  have "limit ?i = 16384" using limit_start by (simp add: new_parser_def)
  moreover have "cleared ?i = ?i" by (simp add: cleared_def new_impl_def)
  moreover have "G (ll_init L)" using assms by (simp add: lexes_def)
  ultimately show ?thesis unfolding mid_request_def
    by (intro exI [of _ "ll_init L"] exI [of _ ?i]) (simp add: new_parser_def)
qed

lemma mid_request_more:
  assumes "lexes J L G rq r" and "mid_request J L G p ds" and "d \<noteq> []" and "prefix (concat ds @ d) rq"
  shows "\<exists>es l reason i rs. ll_execute L (lex p) d = (es, l, HPE_OK, reason) \<and>
    run_events J note_request es (cleared (impl p)) [] = (True, i, rs) \<and>
    (concat ds @ d \<noteq> rq \<longrightarrow> rs = [] \<and> mid_request J L G (p\<lparr>impl := i, lex := l\<rparr>) (ds @ [d])) \<and>
    (concat ds @ d = rq \<longrightarrow> rs = [(r, True)] \<and> mid_request J L G (p\<lparr>impl := i, lex := l\<rparr>) [])"
proof -
  obtain l0 i0 where p: "G l0" "at_start i0" "limit i0 = 16384" "cleared i0 = i0" "[] \<notin> set ds"
    "read_chunks J L ds l0 i0 = Some (lex p, impl p, [])"
    using assms(2) by (auto simp: mid_request_def)
  have ds: "[] \<notin> set (ds @ [d])" "concat (ds @ [d]) = concat ds @ d" using p(5) assms(3) by auto
  have split: "\<exists>es reason. ll_execute L (lex p) d = (es, l, HPE_OK, reason) \<and>
      run_events J note_request es (cleared (impl p)) [] = (True, i, rs)"
    if "read_chunks J L (ds @ [d]) l0 i0 = Some (l, i, rs)" for l i rs
    using read_chunks_snoc [OF that] p(6) by auto
  show ?thesis
  proof (cases "concat ds @ d = rq")
    case True
    then obtain m l where m: "lex_chunks L (ds @ [d]) l0 = Some (msg_events m, l)" "G l" "msg_ok 16384 m"
      "request_of J m = Inr r" "m_keep m"
      using assms(1) p(1) ds unfolding lexes_def by metis
    obtain i where i: "run_events J note_request (msg_events m) i0 [] = (True, i, [(r, True)])" "at_start i"
      using run_msgs [of i0 "[m]" J note_request "[]"] serve_msgs_note [of J "[m]" "[r]" "[]"] p(2,3) m(3-5)
      by auto
    note chunks = read_chunks_lex [OF m(1) i(1) p(4)]
    have "limit i = 16384" using run_events_max [OF i(1)] p(3) by simp
    moreover have "cleared i = i"
      using run_events_ok_flags [OF i(1)] p(4) cleared_simps(3,4,5) [of i0] by (intro cleared_id) auto
    ultimately have "mid_request J L G (p\<lparr>impl := i, lex := l\<rparr>) []"
      using m(2) i(2) unfolding mid_request_def by auto
    then show ?thesis using True split [OF chunks] by blast
  next
    case False
    then have "strict_prefix (concat (ds @ [d])) rq" using assms(4) ds(2) by (simp add: strict_prefix_def)
    then obtain es l where es: "lex_chunks L (ds @ [d]) l0 = Some (es, l)" "unfinished 16384 es"
      using assms(1) p(1) ds(1) unfolding lexes_def by metis
    obtain i where i: "run_events J note_request es i0 [] = (True, i, [])"
      using requests_in_stream [of i0 "[]" es J "[]"] p(2,3) es(2) by auto
    note chunks = read_chunks_lex [OF es(1) i p(4)]
    then have "mid_request J L G (p\<lparr>impl := i, lex := l\<rparr>) (ds @ [d])"
      using p(1-4) ds(1) unfolding mid_request_def by auto
    then show ?thesis using False split [OF chunks] by blast
  qed
qed

section \<open>The event loop keeps the contract\<close>

definition srv_reads ::
  "'j json_lib \<Rightarrow> 'l llhttp \<Rightarrow> ('j, 'w) store \<Rightarrow> ('j, 'w) registry \<Rightarrow> (nat \<Rightarrow> int) \<Rightarrow>
   nat \<Rightarrow> string \<Rightarrow> ('l, 'w) loop_state \<Rightarrow> ('l, 'w) loop_state \<Rightarrow> bool" where
  "srv_reads J L \<sigma> reg junk i d st st' \<longleftrightarrow>
     can_happen (Received i (Some d) (\<lambda>n. True)) st \<and> st' = happen J L \<sigma> reg junk (Received i (Some d) (\<lambda>n. True)) st"

definition srv_written :: "nat \<Rightarrow> ('l, 'w) loop_state \<Rightarrow> ('l, 'w) loop_state \<Rightarrow> bool" where
  "srv_written i st st' \<longleftrightarrow> can_happen (Written i True) st \<and> st' = onWrite i True st"

definition srv_sent :: "nat \<Rightarrow> ('l, 'w) loop_state \<Rightarrow> string list" where
  "srv_sent i st = map wire (sent_on i st)"

definition srv_flights :: "nat \<Rightarrow> ('l, 'w) loop_state \<Rightarrow> nat" where
  "srv_flights i st = (case conn_of st i of None \<Rightarrow> 0 | Some k \<Rightarrow> length (in_flight k))"

definition srv_holds ::
  "'j json_lib \<Rightarrow> 'l llhttp \<Rightarrow> ('l \<Rightarrow> bool) \<Rightarrow> ('j, 'w) store \<Rightarrow> ('j, 'w) registry \<Rightarrow> string \<Rightarrow> 'j request \<Rightarrow>
   string \<times> string \<Rightarrow> nat \<Rightarrow> nat \<Rightarrow> string list \<Rightarrow> ('l, 'w) loop_state \<Rightarrow> bool" where
  "srv_holds J L G \<sigma> reg path r a B i ds st \<longleftrightarrow>
     lexes J L G (request_text path False) r \<and> answers_load J \<sigma> reg r a B \<and> B < 2 ^ 62 \<and> \<not> crashed st \<and>
     (\<exists>k. conn_of st i = Some k \<and> \<not> closing k \<and> mid_request J L G (c_parser k) ds)"

definition good_bytes :: "string \<times> string \<Rightarrow> nat \<Rightarrow> string \<Rightarrow> bool" where
  "good_bytes a B m \<longleftrightarrow> B < 2 ^ 62 \<and> (\<exists>hb. good a B hb \<and> m = wire hb)"

lemma srv_reads_part:
  assumes "srv_holds J L G \<sigma> reg path r a B i ds st" and "srv_reads J L \<sigma> reg junk i d st st'" and "d \<noteq> []"
    and "prefix (concat ds @ d) (request_text path False)"
  shows "\<exists>ds' hbs. srv_holds J L G \<sigma> reg path r a B i ds' st' \<and> srv_sent i st' = srv_sent i st @ map wire hbs \<and>
    srv_flights i st' = srv_flights i st + length hbs \<and> list_all (good a B) hbs \<and>
    (if concat ds @ d = request_text path False then ds' = [] \<and> length hbs = 1 else ds' = ds @ [d] \<and> hbs = [])"
proof -
  obtain k where k: "conn_of st i = Some k" "\<not> closing k" "\<not> crashed st" "mid_request J L G (c_parser k) ds"
    and env: "lexes J L G (request_text path False) r" "answers_load J \<sigma> reg r a B" "B < 2 ^ 62"
    using assms(1) by (auto simp: srv_holds_def)
  let ?p = "\<lambda>i l. (c_parser k)\<lparr>impl := i, lex := l\<rparr>" and ?rq = "request_text path False"
  obtain es l reason i' rs where run: "ll_execute L (lex (c_parser k)) d = (es, l, HPE_OK, reason)"
    "run_events J note_request es (cleared (impl (c_parser k))) [] = (True, i', rs)"
    and part: "concat ds @ d \<noteq> ?rq \<longrightarrow> rs = [] \<and> mid_request J L G (?p i' l) (ds @ [d])"
    and whole: "concat ds @ d = ?rq \<longrightarrow> rs = [(r, True)] \<and> mid_request J L G (?p i' l) []"
    using mid_request_more [OF env(1) k(4) assms(3,4)] by blast
  have "set rs \<subseteq> {(r, True)}" using part whole by (cases "concat ds @ d = ?rq") auto
  from read_data_good [OF run this env(2,3)]
  obtain io where io: "read_data J L \<sigma> reg junk d (c_parser k) (loop_world st) = Inr (?p i' l, io)"
    "length (io_writes io) = length rs" "list_all (good a B) (io_writes io)" "\<not> io_close io" by blast
  let ?k = "k\<lparr>c_parser := ?p i' l, closing := False, in_flight := in_flight k @ io_writes io\<rparr>"
  have st': "st' = onRead J L \<sigma> reg junk i (Some d) (\<lambda>n. True) st" using assms(2) by (simp add: srv_reads_def)
  from onRead_accepted [OF k(1,2) io(1)] io(4)
  have new: "sent_on i st' = sent_on i st @ io_writes io" "conn_of st' i = Some ?k"
    by (simp_all add: st' sent_on_def filter_map comp_def)
  have "\<not> crashed st'" using k io(1) by (simp add: st' onRead_def Let_def)
  then have "srv_holds J L G \<sigma> reg path r a B i (if concat ds @ d = ?rq then [] else ds @ [d]) st'"
    using env new(2) part whole by (simp add: srv_holds_def)
  then show ?thesis using new k(1) io(2,3) part whole
    by (intro exI [of _ "if concat ds @ d = ?rq then [] else ds @ [d]"] exI [of _ "io_writes io"])
      (auto simp: srv_sent_def srv_flights_def)
qed

lemma good_bytes_measured:
  "good_bytes a B m \<Longrightarrow> m \<noteq> [] \<and> length m \<le> B \<and> length m < 2 ^ 62 \<and> response_len m = word_of_nat (length m)"
  "good_bytes a B m \<Longrightarrow> strict_prefix q m \<Longrightarrow> response_len q = 0"
  by (auto simp: good_bytes_def good_def)

lemma good_bytes_stream:
  assumes "list_all (good_bytes a B) (map wire hbs)"
  shows "read_stream (length hbs) (concat (map wire hbs)) = Some (replicate (length hbs) a, [])"
proof -
  have "\<exists>hbs'. map wire hbs' = map wire hbs \<and> list_all (good a B) hbs'" using assms
  proof (induction hbs)
    case (Cons hb hbs)
    then obtain hbs' where "map wire hbs' = map wire hbs" "list_all (good a B) hbs'" by auto
    moreover obtain hb' where "good a B hb'" "wire hb = wire hb'" using Cons.prems by (auto simp: good_bytes_def)
    ultimately show ?case by (intro exI [of _ "hb' # hbs'"]) simp
  qed simp
  then obtain hbs' where h: "map wire hbs' = map wire hbs" "list_all (good a B) hbs'" by blast
  moreover have "length hbs' = length hbs" using arg_cong [OF h(1), of length] by simp
  ultimately have "list_all2 (\<lambda>a. carries (fst a, Some (snd a))) (replicate (length hbs) a) hbs'"
    by (auto simp: good_def list_all2_conv_all_nth list_all_length)
  from read_stream_carries [OF this, of "[]"] h(1) show ?thesis by simp
qed

text \<open>The laws that are about one connection while something happens on another.\<close>

lemma srv_reads_other:
  assumes "srv_reads J L \<sigma> reg junk i d st st'" and "srv_holds J L G \<sigma> reg path r a B i ds st" and "d \<noteq> []"
    and "prefix (concat ds @ d) (request_text path False)" and "j \<noteq> i"
  shows "(\<forall>es. srv_holds J L G \<sigma> reg path r a B j es st \<longrightarrow> srv_holds J L G \<sigma> reg path r a B j es st') \<and>
    srv_sent j st' = srv_sent j st \<and> srv_flights j st' \<le> srv_flights j st"
proof -
  have "\<not> crashed st'" using srv_reads_part [OF assms(2,1,3,4)] by (auto simp: srv_holds_def)
  then show ?thesis
    using assms(1,5) by (auto simp: srv_reads_def srv_holds_def srv_sent_def srv_flights_def onRead_elsewhere)
qed

lemma srv_written_laws:
  assumes "srv_written i st st'" and "srv_holds J L G \<sigma> reg path r a B i ds st"
  shows "srv_holds J L G \<sigma> reg path r a B i ds st' \<and> srv_sent i st' = srv_sent i st \<and> srv_flights i st' < srv_flights i st"
    and "j \<noteq> i \<Longrightarrow> (\<forall>es. srv_holds J L G \<sigma> reg path r a B j es st \<longrightarrow> srv_holds J L G \<sigma> reg path r a B j es st') \<and>
      srv_sent j st' = srv_sent j st \<and> srv_flights j st' \<le> srv_flights j st"
  using assms
  by (auto simp: srv_written_def srv_holds_def srv_sent_def srv_flights_def onWrite_def Let_def sent_on_def
      split: option.splits)

interpretation plusweb: answering_server "srv_reads J L \<sigma> reg junk" srv_written srv_sent
  "srv_holds J L G \<sigma> reg path r a B" srv_flights "request_text path False" "good_bytes a B" B
  for J L \<sigma> reg junk G path r a B
proof
  fix i j d ds m q and s s' :: "('b, 'c) loop_state"
  let ?holds = "srv_holds J L G \<sigma> reg path r a B" and ?reads = "srv_reads J L \<sigma> reg junk" and ?rq = "request_text path False"
  show "?rq \<noteq> []" by (simp add: request_text_def)
  show "good_bytes a B m \<Longrightarrow> m \<noteq> [] \<and> length m \<le> B \<and> length m < 2 ^ 62 \<and> response_len m = word_of_nat (length m)"
    and "good_bytes a B m \<Longrightarrow> strict_prefix q m \<Longrightarrow> response_len q = 0" by (rule good_bytes_measured; assumption)+
  assume holds: "?holds i ds s"
  show "\<exists>s'. ?reads i d s s'" using holds by (auto simp: srv_reads_def srv_holds_def open_conn_def)
  show "srv_written i s s' \<Longrightarrow> ?holds i ds s' \<and> srv_sent i s' = srv_sent i s \<and> srv_flights i s' < srv_flights i s"
    and "srv_written i s s' \<Longrightarrow> j \<noteq> i \<Longrightarrow> (\<forall>es. ?holds j es s \<longrightarrow> ?holds j es s') \<and> srv_sent j s' = srv_sent j s \<and>
      srv_flights j s' \<le> srv_flights j s" using srv_written_laws [OF _ holds] by blast+
  assume d: "?reads i d s s'" "d \<noteq> []"
  show "prefix (concat ds @ d) ?rq \<Longrightarrow> j \<noteq> i \<Longrightarrow> (\<forall>es. ?holds j es s \<longrightarrow> ?holds j es s') \<and> srv_sent j s' = srv_sent j s \<and>
      srv_flights j s' \<le> srv_flights j s" using srv_reads_other [OF d(1) holds d(2)] by blast
  show "strict_prefix (concat ds @ d) ?rq \<Longrightarrow> ?holds i (ds @ [d]) s' \<and> srv_sent i s' = srv_sent i s \<and>
      srv_flights i s' \<le> srv_flights i s"
    using srv_reads_part [OF holds d] by (auto simp: strict_prefix_def)
  show "concat ds @ d = ?rq \<Longrightarrow> \<exists>m. good_bytes a B m \<and> ?holds i [] s' \<and> srv_sent i s' = srv_sent i s @ [m] \<and>
      srv_flights i s' \<le> srv_flights i s + 1"
  proof -
    assume rq: "concat ds @ d = ?rq"
    then obtain hbs where new: "?holds i [] s'" "srv_sent i s' = srv_sent i s @ map wire hbs" "length hbs = 1"
      "srv_flights i s' = srv_flights i s + 1" "list_all (good a B) hbs"
      using srv_reads_part [OF holds d] by auto
    then obtain hb where "hbs = [hb]" "good_bytes a B (wire hb)"
      using holds by (cases hbs) (auto simp: good_bytes_def srv_holds_def)
    with new show "\<exists>m. good_bytes a B m \<and> ?holds i [] s' \<and> srv_sent i s' = srv_sent i s @ [m] \<and>
      srv_flights i s' \<le> srv_flights i s + 1" by auto
  qed
qed

text \<open>The start: the server has accepted the connections and read nothing.\<close>

definition accepted :: "'l llhttp \<Rightarrow> nat \<Rightarrow> 'w \<Rightarrow> ('l, 'w) loop_state" where
  "accepted L n w = fold (\<lambda>i. onConnection L i True True) [0..<n] (init_loop w)"

lemma accepted_all:
  "conn_of (accepted L n w) i = (if i < n then Some (new_conn L) else None) \<and> sent_on i (accepted L n w) = [] \<and>
   \<not> crashed (accepted L n w)"
proof (induction n)
  case 0
  then show ?case by (simp add: accepted_def init_loop_def conn_of_def sent_on_def)
next
  case (Suc n)
  have "accepted L (Suc n) w = onConnection L n True True (accepted L n w)" by (simp add: accepted_def)
  with Suc show ?case by (auto simp: onConnection_def conn_of_def sent_on_def Let_def)
qed

abbreviation plusweb_step ::
  "'j json_lib \<Rightarrow> 'l llhttp \<Rightarrow> ('j, 'w) store \<Rightarrow> ('j, 'w) registry \<Rightarrow> (nat \<Rightarrow> int) \<Rightarrow> string \<Rightarrow> 'd \<Rightarrow>
   ('d, ('l, 'w) loop_state) closed \<Rightarrow> ('d, ('l, 'w) loop_state) closed \<Rightarrow> bool" where
  "plusweb_step J L \<sigma> reg junk \<equiv> closed_step (srv_reads J L \<sigma> reg junk) srv_written srv_sent"

lemma plusweb_start:
  assumes "lexes J L G (request_text path False) r" and "answers_load J \<sigma> reg r a B" and "B < 2 ^ 62"
    and "\<forall>m. 0 \<le> k_socket K m" and "inj (k_socket K)" and "\<forall>m. k_connect K m"
  shows "closed_ok srv_sent (srv_holds J L G \<sigma> reg path r a B) srv_flights (request_text path False) (good_bytes a B) B n 0
    (closed_start K zero n (accepted L n w))"
  using mid_request_new [OF assms(1)] accepted_all [of L n w] assms(1-3)
  by (intro plusweb.start_inv assms(4-6)) (auto simp: srv_holds_def srv_sent_def srv_flights_def new_conn_def)

section \<open>Properties\<close>

text \<open>
  C5: The load generator and the server at the two ends of \<open>n\<close> connections, after any number of
  steps in any order, with the bytes cut into any pieces: no connection has failed or had to be opened
  again, the server has not crashed and has closed nothing; on each connection it has sent whole
  answers only, each of them the answer to the request, and either as many as the load generator has
  counted there or one more, which is on its way; the total counted is the sum over the connections,
  with one latency recorded for each. No failure is caused by the two programs, that is: in a step of the
  closed system no call fails and every \<open>send\<close> takes at least a byte.
\<close>

theorem closed_loop_conversation:
  assumes "lexes J L G (request_text path False) r" and "answers_load J \<sigma> reg r a B" and "B < 2 ^ 62"
    and "\<forall>m. 0 \<le> k_socket K m" and "inj (k_socket K)" and "\<forall>m. k_connect K m"
    and "(plusweb_step J L \<sigma> reg junk (request_text path False) deadline ^^ N)
      (closed_start K zero n (accepted L n w)) s"
  shows "errors (lg s) = 0 \<and> reconnects (lg s) = 0 \<and> \<not> crashed (srv s) \<and> length (lconns (lg s)) = n \<and>
    completed (lg s) = sum_list (map conn_done (lconns (lg s))) \<and> length (lat (lg s)) = completed (lg s) \<and>
    (\<forall>i < n. let k = length (sent_on i (srv s)); c = lconns (lg s) ! i in
       open_conn (srv s) i \<and> conn_done c \<le> k \<and> k \<le> conn_done c + 1 \<and>
       read_stream k (concat (map wire (sent_on i (srv s)))) = Some (replicate k a, []))"
proof -
  note ok = plusweb.run_inv [OF assms(7) plusweb_start [OF assms(1-6)]]
  note books = plusweb.conversation(1) [OF ok] and conn = plusweb.conversation(2) [OF ok]
  have "open_conn (srv s) i \<and> conn_done c \<le> k \<and> k \<le> conn_done c + 1 \<and>
      read_stream k (concat (map wire (sent_on i (srv s)))) = Some (replicate k a, [])"
    if "i < n" "k = length (sent_on i (srv s))" "c = lconns (lg s) ! i" for i k c
  proof -
    have "list_all (good_bytes a B) (map wire (sent_on i (srv s)))" using conn [OF that(1)] by (simp add: srv_sent_def)
    from good_bytes_stream [OF this] conn [OF that(1)] that(2,3)
    show ?thesis by (auto simp: srv_holds_def srv_sent_def open_conn_def)
  qed
  moreover have "\<not> crashed (srv s)"
  proof (cases "n = 0")
    case True
    then have "N = 0" using plusweb.throughput [OF ok] books by simp
    with assms(7) accepted_all [of L n w] show ?thesis by (auto simp: closed_start_def)
  qed (use conn [of 0] in \<open>auto simp: srv_holds_def\<close>)
  ultimately show ?thesis using books by (simp add: Let_def)
qed

text \<open>
  C11: The closed system makes progress. While there is a connection, some step is always possible, so
  neither end ever waits for the other; and a run of \<open>N\<close> steps has completed at least
  \<open>N / (2 |rq| + B + 1) - n\<close> requests, where \<open>|rq|\<close> is the length of the request and \<open>B\<close> bounds the
  length of an answer: each step moves a byte, or ends a write, of a request that is under way. A
  step in which \<open>send\<close> takes nothing is none of the closed system: after one the load generator waits for
  an answer it did not ask for.
\<close>

theorem closed_loop_throughput:
  assumes "lexes J L G (request_text path False) r" and "answers_load J \<sigma> reg r a B" and "B < 2 ^ 62"
    and "\<forall>m. 0 \<le> k_socket K m" and "inj (k_socket K)" and "\<forall>m. k_connect K m"
    and "(plusweb_step J L \<sigma> reg junk (request_text path False) deadline ^^ N)
      (closed_start K zero n (accepted L n w)) s"
  shows "N \<le> (2 * length (request_text path False) + B + 1) * (n + completed (lg s)) \<and>
    (0 < n \<longrightarrow> (\<exists>s'. plusweb_step J L \<sigma> reg junk (request_text path False) deadline s s'))"
proof -
  note ok = plusweb.run_inv [OF assms(7) plusweb_start [OF assms(1-6)]]
  show ?thesis using plusweb.throughput [OF ok] plusweb.progress [OF ok] by blast
qed

section \<open>Examples\<close>

text \<open>A lexer that waits for a whole request of a known text.\<close>

definition whole_ll :: "string \<Rightarrow> msg \<Rightarrow> string llhttp" where
  "whole_ll rq m =
     \<lparr>ll_init = [],
      ll_execute = (\<lambda>l d. if l @ d = rq then (msg_events m, [], HPE_OK, []) else ([], l @ d, HPE_OK, [])),
      ll_stopped = id, ll_errno_name = (\<lambda>e. ''HPE_USER'')\<rparr>"

lemma whole_ll_part:
  "strict_prefix (l @ concat ds) rq \<Longrightarrow> lex_chunks (whole_ll rq m) ds l = Some ([], l @ concat ds)"
proof (induction ds arbitrary: l)
  case (Cons d ds)
  then have "l @ d \<noteq> rq" by (auto simp: strict_prefix_def prefix_def)
  with Cons.IH [of "l @ d"] Cons.prems show ?case by (simp add: whole_ll_def)
qed simp

lemma whole_ll_all:
  "[] \<notin> set ds \<Longrightarrow> l @ concat ds = rq \<Longrightarrow> l \<noteq> rq \<Longrightarrow> lex_chunks (whole_ll rq m) ds l = Some (msg_events m, [])"
proof (induction ds arbitrary: l)
  case (Cons d ds)
  show ?case
  proof (cases "l @ d = rq")
    case True
    with Cons.prems have "concat ds = []" by auto
    with Cons.prems(1) have "ds = []" by (cases ds) auto
    with True show ?thesis by (simp add: whole_ll_def)
  next
    case False
    with Cons.IH [of "l @ d"] Cons.prems show ?thesis by (simp add: whole_ll_def)
  qed
qed simp

lemma whole_ll_lexes:
  assumes "rq \<noteq> []" and "msg_ok 16384 m" and "request_of J m = Inr r" and "m_keep m"
  shows "lexes J (whole_ll rq m) (\<lambda>l. l = []) rq r"
  using assms whole_ll_part [of "[]" _ rq m] whole_ll_all [of _ "[]" rq m]
  by (auto simp: lexes_def unfinished_def) (auto simp: whole_ll_def)

definition load_msg :: msg where
  "load_msg =
     \<lparr>m_target = [''/x''],
      m_headers = [([''Host''], [''bench'']), ([''Accept''], [''*/*'']), ([''Connection''], [''keep-alive''])],
      m_body = [], m_method = ''GET'', m_major = 1, m_minor = 1, m_keep = True\<rparr>"

lemma load_msg_lexes:
  "\<exists>r. lexes text_json (whole_ll (request_text ''/x'' False) load_msg) (\<lambda>l. l = []) (request_text ''/x'' False) r \<and>
     req_method r = ''GET'' \<and> req_path r = ''/x''"
proof -
  have ok: "msg_ok 16384 load_msg" by code_simp
  have get_x: "case request_of text_json load_msg of Inl what \<Rightarrow> False
      | Inr r \<Rightarrow> req_method r = ''GET'' \<and> req_path r = ''/x''" by code_simp
  have "\<exists>r. request_of text_json load_msg = Inr r \<and> req_method r = ''GET'' \<and> req_path r = ''/x''"
    using get_x by (cases "request_of text_json load_msg") auto
  moreover have "request_text ''/x'' False \<noteq> []" "m_keep load_msg" by (simp_all add: request_text_def load_msg_def)
  ultimately show ?thesis using whole_ll_lexes ok by blast
qed

lemma not_found_answers_load:
  assumes "req_method r = ''GET''" and "req_path r = ''/x''"
  shows "\<exists>a. answers_load text_json (\<lambda>r. new_router) (new_registry :: (string, 'w) registry) r a 1000"
proof -
  let ?reg = "new_registry :: (string, 'w) registry"
  let ?t = "not_found_json text_json r"
  let ?a = "answer_of text_json \<lparr>req = r, res = not_found_response text_json r ?t, world = ()\<rparr>"
  have "not_found_json text_json r = not_found_json text_json (get_request ''/x'')"
    using assms by (simp add: not_found_json_def get_request_def)
  then have res: "not_found_response text_json r ?t = sample_404" using assms
    by (simp add: not_found_response_def get_request_def)
  have "\<exists>c h. run_chain text_json (\<lambda>r. new_router) ?reg (start_ctx text_json junk r w) = Ret c \<and> answerable text_json c \<and>
      req_method (req c) = req_method r \<and> answer_of text_json c = ?a \<and> no_lookalike (status_line (res c)) (res_headers (res c)) \<and>
      h = handleRequest text_json (\<lambda>r. new_router) ?reg junk r True sc w \<and> length (wire (h_head h, h_body h)) \<le> 1000"
    for junk w sc
  proof -
    let ?c = "\<lparr>req = r, res = not_found_response text_json r ?t, world = w\<rparr>"
    have chain: "run_chain text_json (\<lambda>r. new_router) ?reg (start_ctx text_json junk r w) = Ret ?c"
      unfolding run_chain_no_middleware [OF queue_new] by (rule runRoute_not_found) simp_all
    have payload: "body_payload text_json (res_body sample_404) = Inr (not_found_json text_json (get_request ''/x''))"
      by (simp add: body_payload_def not_found_response_def)
    let ?h = "handleRequest text_json (\<lambda>r. new_router) ?reg junk r True sc w"
    have "wire (h_head ?h, h_body ?h) = sample_bytes"
      using handleRequest_Ret [OF chain, of _ True sc] handleRequest_Ret [OF sample_chain, of _ True False] payload assms
      by (auto simp: sample_bytes_def res)
    moreover have "answerable text_json ?c" using framable_not_found [of text_json r] assms by (simp add: answerable_def)
    moreover have "no_lookalike (status_line (res ?c)) (res_headers (res ?c))" using sample_no_lookalike by (simp add: res)
    moreover have "answer_of text_json ?c = ?a" by (simp add: answer_of_def)
    ultimately show ?thesis using chain sample_bytes_length by fastforce
  qed
  then show ?thesis unfolding answers_load_def by blast
qed

lemma sample_kernel_connects:
  "\<forall>m. 0 \<le> k_socket (sample_kernel []) m" "inj (k_socket (sample_kernel []))" "\<forall>m. k_connect (sample_kernel []) m"
  by (simp_all add: sample_kernel_def inj_def)

text \<open>The load of the examples: the request for \<open>/x\<close> on one connection, which the empty server answers 404.\<close>

abbreviation load_step ::
  "(nat, (string, unit) loop_state) closed \<Rightarrow> (nat, (string, unit) loop_state) closed \<Rightarrow> bool" where
  "load_step \<equiv> plusweb_step text_json (whole_ll (request_text ''/x'' False) load_msg) (\<lambda>r. new_router) new_registry
     (\<lambda>n. 0) (request_text ''/x'' False) 9"

abbreviation load_start :: "(nat, (string, unit) loop_state) closed" where
  "load_start \<equiv> closed_start (sample_kernel []) 0 1 (accepted (whole_ll (request_text ''/x'' False) load_msg) 1 ())"

lemma load_runs: "\<exists>s. (load_step ^^ N) load_start s \<and> N \<le> (2 * length (request_text ''/x'' False) + 1000 + 1) * (1 + completed (lg s))"
proof -
  let ?rq = "request_text ''/x'' False"
  obtain r a where ra: "lexes text_json (whole_ll ?rq load_msg) (\<lambda>l. l = []) ?rq r"
    "answers_load text_json (\<lambda>r. new_router) (new_registry :: (string, unit) registry) r a 1000"
    using load_msg_lexes not_found_answers_load by blast
  have small: "(1000 :: nat) < 2 ^ 62" by simp
  note start = plusweb_start [OF ra small sample_kernel_connects, of 1 0 "()"]
  have "\<exists>s. (load_step ^^ N) load_start s"
  proof (induction N)
    case (Suc N)
    then obtain s where s: "(load_step ^^ N) load_start s" ..
    from plusweb.progress [OF plusweb.run_inv [OF s start]] obtain s' where "load_step s s'" by auto
    with s show ?case by (blast intro: relpowp_Suc_I)
  qed simp
  then obtain s where s: "(load_step ^^ N) load_start s" ..
  from plusweb.throughput [OF plusweb.run_inv [OF s start]] s show ?thesis by blast
qed

theorem closed_loop_conversation_witness:
  "\<exists>s k a. (load_step ^^ 10000) load_start s \<and> errors (lg s) = 0 \<and> 5 \<le> conn_done (lconns (lg s) ! 0) \<and> 5 \<le> k \<and>
    read_stream k (concat (map wire (sent_on 0 (srv s)))) = Some (replicate k a, [])"
proof -
  obtain r a where ra: "lexes text_json (whole_ll (request_text ''/x'' False) load_msg) (\<lambda>l. l = []) (request_text ''/x'' False) r"
    "answers_load text_json (\<lambda>r. new_router) (new_registry :: (string, unit) registry) r a 1000"
    using load_msg_lexes not_found_answers_load by blast
  obtain s where s: "(load_step ^^ 10000) load_start s"
    "10000 \<le> (2 * length (request_text ''/x'' False) + 1000 + 1) * (1 + completed (lg s))" using load_runs by blast
  have "length (request_text ''/x'' False) = 69" by (simp add: request_text_def CRLF_def)
  with s(2) have many: "5 \<le> completed (lg s)" by simp
  have "(1000 :: nat) < 2 ^ 62" by simp
  from closed_loop_conversation [OF ra this sample_kernel_connects s(1)]
  have "errors (lg s) = 0" "length (lconns (lg s)) = 1" "completed (lg s) = sum_list (map conn_done (lconns (lg s)))"
    "conn_done (lconns (lg s) ! 0) \<le> length (sent_on 0 (srv s))"
    "read_stream (length (sent_on 0 (srv s))) (concat (map wire (sent_on 0 (srv s)))) =
       Some (replicate (length (sent_on 0 (srv s))) a, [])" by (simp_all add: Let_def)
  moreover from this(2,3) many have "5 \<le> conn_done (lconns (lg s) ! 0)"
    by (cases "lconns (lg s)") auto
  ultimately show ?thesis using s(1)
    by (intro exI [of _ s] exI [of _ "length (sent_on 0 (srv s))"] exI [of _ a]) simp
qed

theorem closed_loop_throughput_witness:
  "\<exists>s. (load_step ^^ 10000) load_start s \<and> 10000 \<le> 1139 * (1 + completed (lg s)) \<and> (\<exists>s'. load_step s s')"
proof -
  obtain r a where ra: "lexes text_json (whole_ll (request_text ''/x'' False) load_msg) (\<lambda>l. l = []) (request_text ''/x'' False) r"
    "answers_load text_json (\<lambda>r. new_router) (new_registry :: (string, unit) registry) r a 1000"
    using load_msg_lexes not_found_answers_load by blast
  obtain s where s: "(load_step ^^ 10000) load_start s" using load_runs by blast
  have "length (request_text ''/x'' False) = 69" by (simp add: request_text_def CRLF_def)
  moreover have "(1000 :: nat) < 2 ^ 62" by simp
  from closed_loop_throughput [OF ra this sample_kernel_connects s]
  have "10000 \<le> (2 * length (request_text ''/x'' False) + 1000 + 1) * (1 + completed (lg s)) \<and> (\<exists>s'. load_step s s')"
    by simp
  ultimately show ?thesis using s by auto
qed

end
