(* ===== verification/Reference_Server.thy ===== *)
theory Reference_Server
  imports Load_Generator
begin

text \<open>
  The control server of the benchmarks (\<open>bench/refserver.cpp\<close>): it answers every blank line in what
  it receives with one canned response, so that the load generator's own cost can be measured. The
  measurement is sound only if it answers exactly the requests it was sent, however they were cut.
\<close>

section \<open>The server\<close>

definition kResp :: string where
  "kResp =
     ''HTTP/1.1 200 OK'' @ CRLF @ ''Content-Type: text/html; charset=utf-8'' @ CRLF @
     ''Connection: keep-alive'' @ CRLF @ ''Content-Length: 5'' @ CRLF @ CRLF @ ''hello''"

lemma find_blank_shorter: "find_sub (CRLF @ CRLF) b = Some pos \<Longrightarrow> length (drop (pos + 4) b) < length b"
  by (drule find_sub_SomeD) (auto simp: CRLF_def)

text \<open>The loop that erases the requests of a buffer and counts them: the count and what is left.\<close>

function count_requests :: "string \<Rightarrow> nat \<Rightarrow> nat \<times> string" where
  "count_requests b replies =
     (case find_sub (CRLF @ CRLF) b of
        None \<Rightarrow> (replies, b)
      | Some pos \<Rightarrow> count_requests (drop (pos + 4) b) (replies + 1))"
  by pat_completeness auto
termination
  by (relation "measure (\<lambda>(b, replies). length b)") (auto dest: find_blank_shorter simp del: length_drop)

declare count_requests.simps [simp del]

text \<open>
  The buffers, by descriptor, and what \<open>send\<close> took, in order. What each \<open>send\<close> of one event returns is an
  argument: below zero it failed, and below the length of the response it took the beginning only, the
  socket being non-blocking; the code tests for the first and drops the rest in the second case.
\<close>

record ref_server =
  bufs :: "int \<rightharpoonup> string"
  replies_sent :: "(int \<times> string) list"

definition on_accept :: "int \<Rightarrow> ref_server \<Rightarrow> ref_server" where
  "on_accept c s = s\<lparr>bufs := (bufs s)(c \<mapsto> [])\<rparr>"

definition send_replies :: "(nat \<Rightarrow> int) \<Rightarrow> int \<Rightarrow> nat \<Rightarrow> ref_server \<Rightarrow> ref_server" where
  "send_replies result d replies s =
     s\<lparr>replies_sent := replies_sent s @
       map (\<lambda>k. (d, take (nat (result k)) kResp)) (takeWhile (\<lambda>k. 0 \<le> result k) [0..<replies])\<rparr>"

definition on_readable :: "(nat \<Rightarrow> int) \<Rightarrow> int \<Rightarrow> recv_result \<Rightarrow> ref_server \<Rightarrow> ref_server" where
  "on_readable result d r s =
     (case r of
        Data rb \<Rightarrow>
          let b = (case bufs s d of None \<Rightarrow> [] | Some b \<Rightarrow> b) @ rb; (replies, rest) = count_requests b 0 in
          send_replies result d replies (s\<lparr>bufs := (bufs s)(d \<mapsto> rest)\<rparr>)
      | _ \<Rightarrow> s\<lparr>bufs := (bufs s)(d := None)\<rparr>)"

text \<open>
  What \<open>epoll_wait\<close> reports: the listening socket, with the connections \<open>accept\<close> returns before it
  fails, or a connection, with what \<open>recv\<close> returns; and the loop of \<open>main\<close> over the events of its rounds.
\<close>

datatype ref_event = Acceptable "int list" | Readable int "nat \<Rightarrow> int" recv_result

definition on_ref_event :: "ref_event \<Rightarrow> ref_server \<Rightarrow> ref_server" where
  "on_ref_event e s = (case e of Acceptable cs \<Rightarrow> fold on_accept cs s | Readable d result r \<Rightarrow> on_readable result d r s)"

definition ref_main :: "ref_event list list \<Rightarrow> ref_server" where
  "ref_main rounds = fold (\<lambda>events s. fold on_ref_event events s) rounds \<lparr>bufs = Map.empty, replies_sent = []\<rparr>"

text \<open>Every \<open>send\<close> takes its response as a whole.\<close>

definition all_taken :: "nat \<Rightarrow> int" where
  "all_taken k = int (length kResp)"

lemma all_taken_sends [simp]:
  "send_replies all_taken d n s = s\<lparr>replies_sent := replies_sent s @ replicate n (d, kResp)\<rparr>"
  by (simp add: send_replies_def all_taken_def takeWhile_eq_all_conv [THEN iffD2] map_replicate_const)

section \<open>Connections apart\<close>

text \<open>What the server holds for a connection and has sent on it, and the events that are about it.\<close>

definition on_conn :: "int \<Rightarrow> ref_server \<Rightarrow> string option \<times> string list" where
  "on_conn d s = (bufs s d, map snd (filter (\<lambda>x. fst x = d) (replies_sent s)))"

definition concerns :: "int \<Rightarrow> ref_event \<Rightarrow> bool" where
  "concerns d e \<longleftrightarrow> (case e of Acceptable cs \<Rightarrow> d \<in> set cs | Readable d' ok r \<Rightarrow> d' = d)"

lemma on_conn_accept: "on_conn d (on_accept c s) = (if c = d then (Some [], snd (on_conn d s)) else on_conn d s)"
  by (simp add: on_conn_def on_accept_def)

lemma on_conn_accepts:
  "on_conn d (fold on_accept cs s) = (if d \<in> set cs then (Some [], snd (on_conn d s)) else on_conn d s)"
  by (induction cs arbitrary: s) (auto simp: on_conn_accept)

lemma on_conn_readable_other: "d' \<noteq> d \<Longrightarrow> on_conn d (on_readable ok d' r s) = on_conn d s"
  by (auto simp: on_conn_def on_readable_def send_replies_def filter_empty_conv split: recv_result.split prod.split)

lemma on_conn_readable:
  "on_conn d s = on_conn d s' \<Longrightarrow> on_conn d (on_readable ok d r s) = on_conn d (on_readable ok d r s')"
  by (auto simp: on_conn_def on_readable_def send_replies_def split: recv_result.split prod.split)

text \<open>A connection sees its own events only.\<close>

lemma on_conn_event_other: "\<not> concerns d e \<Longrightarrow> on_conn d (on_ref_event e s) = on_conn d s"
  by (cases e) (simp_all add: concerns_def on_ref_event_def on_conn_accepts on_conn_readable_other)

lemma on_conn_event:
  assumes "on_conn d s = on_conn d s'"
  shows "on_conn d (on_ref_event e s) = on_conn d (on_ref_event e s')"
proof (cases e)
  case (Readable d' ok r)
  then show ?thesis
    using on_conn_readable [OF assms, of ok r] assms by (cases "d' = d") (simp_all add: on_ref_event_def on_conn_readable_other)
qed (use assms in \<open>simp add: on_ref_event_def on_conn_accepts\<close>)

lemma on_conn_events:
  "on_conn d s = on_conn d s' \<Longrightarrow>
   on_conn d (fold on_ref_event es s) = on_conn d (fold on_ref_event (filter (concerns d) es) s')"
proof (induction es arbitrary: s s')
  case (Cons e es)
  show ?case
    using Cons.IH [of "on_ref_event e s" "on_ref_event e s'"] Cons.IH [of "on_ref_event e s" s'] Cons.prems
      on_conn_event [OF Cons.prems, of e] on_conn_event_other [of d e s] by (cases "concerns d e") simp_all
qed simp

lemma ref_main_concat: "ref_main rounds = fold on_ref_event (concat rounds) \<lparr>bufs = Map.empty, replies_sent = []\<rparr>"
proof -
  have "fold (\<lambda>events s. fold on_ref_event events s) rounds s = fold on_ref_event (concat rounds) s" for s
    by (induction rounds arbitrary: s) simp_all
  then show ?thesis by (simp add: ref_main_def)
qed

section \<open>Counting\<close>

lemma count_None: "find_sub (CRLF @ CRLF) b = None \<Longrightarrow> count_requests b n = (n, b)"
  by (simp add: count_requests.simps)

lemma count_Some: "find_sub (CRLF @ CRLF) b = Some pos \<Longrightarrow> count_requests b n = count_requests (drop (pos + 4) b) (n + 1)"
  by (subst count_requests.simps) simp

lemma find_sub_append: "find_sub p a = Some i \<Longrightarrow> find_sub p (a @ b) = Some i"
proof (induction a arbitrary: i)
  case Nil
  then show ?case by (cases b) (auto split: if_splits)
next
  case (Cons c a)
  show ?case
  proof (cases "prefix p (c # a)")
    case True
    with Cons.prems prefix_order.trans [OF True, of "c # a @ b"] show ?thesis by auto
  next
    case False
    with Cons.prems obtain j where j: "find_sub p a = Some j" "i = Suc j" by auto
    have "length p \<le> length (c # a)" using find_sub_SomeD [OF j(1)] by simp
    with False have "\<not> prefix p (c # a @ b)" using prefix_length_prefix [of p "c # a @ b" "c # a"] by auto
    with j Cons.IH [OF j(1)] show ?thesis by simp
  qed
qed

text \<open>Counting in two steps is counting at once.\<close>

lemma count_requests_append:
  "count_requests a n = (k, rest) \<Longrightarrow> count_requests (a @ b) n = count_requests (rest @ b) k"
proof (induction a n arbitrary: k rest rule: count_requests.induct)
  case (1 a n)
  show ?case
  proof (cases "find_sub (CRLF @ CRLF) a")
    case None
    with "1.prems" show ?thesis by (simp add: count_None)
  next
    case (Some pos)
    have "pos + 4 \<le> length a" using find_sub_SomeD [OF Some] by (simp add: CRLF_def)
    with Some 1 show ?thesis by (simp add: count_Some [OF Some] count_Some [OF find_sub_append [OF Some]])
  qed
qed

lemma count_requests_add: "count_requests b (n + m) = (n + fst (count_requests b m), snd (count_requests b m))"
proof (induction b m rule: count_requests.induct)
  case (1 b m)
  show ?case
  proof (cases "find_sub (CRLF @ CRLF) b")
    case (Some pos)
    with 1 [OF Some] show ?thesis by (simp add: count_Some [OF Some])
  qed (simp add: count_None)
qed

text \<open>A request: its only blank line ends it.\<close>

definition whole_request :: "string \<Rightarrow> bool" where
  "whole_request q \<longleftrightarrow> find_sub (CRLF @ CRLF) q = Some (length q - 4)"

lemma count_whole_request: "whole_request q \<Longrightarrow> count_requests (q @ b) n = count_requests b (n + 1)"
  using find_sub_append [of "CRLF @ CRLF" q "length q - 4" b] find_sub_SomeD [of "CRLF @ CRLF" q "length q - 4"]
  by (simp add: whole_request_def count_Some) (simp add: CRLF_def)

lemma count_whole_requests:
  assumes "\<forall>q \<in> set qs. whole_request q" and "find_sub (CRLF @ CRLF) r = None"
  shows "count_requests (concat qs @ r) n = (n + length qs, r)"
  using assms(1)
proof (induction qs arbitrary: n)
  case Nil
  then show ?case by (simp add: count_None assms(2))
next
  case (Cons q qs)
  then show ?case using count_whole_request [of q "concat qs @ r" n] by simp
qed

lemma count_rest: "find_sub (CRLF @ CRLF) (snd (count_requests b n)) = None"
proof (induction b n rule: count_requests.induct)
  case (1 b n)
  show ?case
  proof (cases "find_sub (CRLF @ CRLF) b")
    case (Some pos)
    with 1 [OF Some] show ?thesis by (simp add: count_Some [OF Some])
  qed (simp add: count_None)
qed

lemma read_once:
  assumes "bufs s d = Some b"
  shows "on_readable all_taken d (Data p) s =
    s\<lparr>bufs := (bufs s)(d \<mapsto> snd (count_requests (b @ p) 0)),
      replies_sent := replies_sent s @ replicate (fst (count_requests (b @ p) 0)) (d, kResp)\<rparr>"
  using assms by (cases "count_requests (b @ p) 0")
    (simp add: on_readable_def)

text \<open>Reading pieces one after the other does what reading them at once does.\<close>

lemma reads_pieces:
  assumes "bufs s d = Some b" and "find_sub (CRLF @ CRLF) b = None"
  shows "fold (\<lambda>p. on_readable all_taken d (Data p)) ps s =
    s\<lparr>bufs := (bufs s)(d \<mapsto> snd (count_requests (b @ concat ps) 0)),
      replies_sent := replies_sent s @ replicate (fst (count_requests (b @ concat ps) 0)) (d, kResp)\<rparr>"
  using assms
proof (induction ps arbitrary: s b)
  case Nil
  then show ?case by (cases s) (simp add: count_None map_upd_triv)
next
  case (Cons p ps)
  obtain k rest where k: "count_requests (b @ p) 0 = (k, rest)" by fastforce
  let ?s = "s\<lparr>bufs := (bufs s)(d \<mapsto> rest), replies_sent := replies_sent s @ replicate k (d, kResp)\<rparr>"
  have one: "on_readable all_taken d (Data p) s = ?s" using read_once [OF Cons.prems(1), of p] by (simp add: k)
  have "find_sub (CRLF @ CRLF) rest = None" using count_rest [of "b @ p" 0] by (simp add: k)
  moreover have "bufs ?s d = Some rest" by simp
  ultimately have rec: "fold (\<lambda>p. on_readable all_taken d (Data p)) ps ?s =
      ?s\<lparr>bufs := (bufs ?s)(d \<mapsto> snd (count_requests (rest @ concat ps) 0)),
        replies_sent := replies_sent ?s @ replicate (fst (count_requests (rest @ concat ps) 0)) (d, kResp)\<rparr>"
    using Cons.IH by blast
  have count: "count_requests (b @ p @ concat ps) 0 =
      (k + fst (count_requests (rest @ concat ps) 0), snd (count_requests (rest @ concat ps) 0))"
    using count_requests_append [OF k, of "concat ps"] count_requests_add [of "rest @ concat ps" k 0] by simp
  have "fold (\<lambda>p. on_readable all_taken d (Data p)) (p # ps) s = fold (\<lambda>p. on_readable all_taken d (Data p)) ps ?s"
    by (simp add: one)
  also note rec
  also have "?s\<lparr>bufs := (bufs ?s)(d \<mapsto> x), replies_sent := replies_sent ?s @ y\<rparr> =
      s\<lparr>bufs := (bufs s)(d \<mapsto> x), replies_sent := replies_sent s @ replicate k (d, kResp) @ y\<rparr>" for x y
    by (cases s) simp
  finally show ?case by (simp only: concat.simps count fst_conv snd_conv replicate_add)
qed

section \<open>The load generator against the control server\<close>

lemma request_text_lines:
  "request_text path close_mode =
     lines_text [''GET '' @ path @ '' HTTP/1.1'', ''Host: bench'', ''Accept: */*'',
       ''Connection: '' @ (if close_mode then ''close'' else ''keep-alive'')] @ CRLF"
  by (simp add: request_text_def)

lemma whole_request_text:
  assumes "line_safe path"
  shows "whole_request (request_text path close_mode)"
proof -
  let ?ls = "[''GET '' @ path @ '' HTTP/1.1'', ''Host: bench'', ''Accept: */*'',
       ''Connection: '' @ (if close_mode then ''close'' else ''keep-alive'')]"
  have "\<forall>l \<in> set ?ls. line_safe l \<and> l \<noteq> []" using assms by (auto simp: line_safe_def)
  from find_blank_line [OF _ this, of "[]"]
  have "find_sub (CRLF @ CRLF) (lines_text ?ls @ CRLF) = Some (length (lines_text ?ls) - 2)"
    by (simp del: lines_text_simps)
  moreover have "length (lines_text ?ls @ CRLF) - 4 = length (lines_text ?ls) - 2" by (simp add: CRLF_def)
  ultimately show ?thesis unfolding whole_request_def request_text_lines by (simp only:)
qed

text \<open>A part of a request has no blank line, so the server keeps it and answers nothing yet.\<close>

lemma count_part:
  assumes "line_safe path" and "strict_prefix part (request_text path close_mode)"
  shows "count_requests part n = (n, part)"
proof -
  let ?q = "request_text path close_mode"
  have q: "whole_request ?q" by (rule whole_request_text [OF assms(1)])
  obtain us where us: "?q = part @ us" "us \<noteq> []" using assms(2) by (auto simp: strict_prefix_def prefix_def)
  have "find_sub (CRLF @ CRLF) part = None"
    using find_sub_prefix [of "CRLF @ CRLF" part us "length ?q - 4"] q us find_sub_SomeD [of "CRLF @ CRLF" ?q "length ?q - 4"]
    by (cases us) (auto simp: whole_request_def CRLF_def split: if_splits)
  then show ?thesis by (rule count_None)
qed

text \<open>The canned response as the load generator sees it: a head that announces five bytes.\<close>

abbreviation kResp_line :: string where "kResp_line \<equiv> ''HTTP/1.1 200 OK''"

abbreviation kResp_headers :: "(string \<times> string) list" where
  "kResp_headers \<equiv> [(''Content-Type'', ''text/html; charset=utf-8''), (''Connection'', ''keep-alive''), (''Content-Length'', ''5'')]"

lemma kResp_head: "kResp = kResp_line @ CRLF @ concat (map header_line kResp_headers) @ CRLF @ ''hello''"
  by (simp add: kResp_def header_line_def)

lemma kResp_framed:
  "line_safe kResp_line" "kResp_line \<noteq> []" "\<forall>kv \<in> set kResp_headers. header_safe kv" "no_lookalike kResp_line kResp_headers"
  "map_of kResp_headers ''Content-Length'' = Some (nat_to_string 5)"
proof -
  show "no_lookalike kResp_line kResp_headers" by code_simp
  show "map_of kResp_headers ''Content-Length'' = Some (nat_to_string 5)" by code_simp
qed (simp_all add: header_safe_def line_safe_def)

lemma length_kResp: "length kResp = 107"
  by (simp add: kResp_def CRLF_def)

lemma kResp_part: "strict_prefix q kResp \<Longrightarrow> response_len q = 0"
  using response_len_part [OF kResp_framed(1-4), of "''hello''" q] kResp_framed(5) length_kResp
  by (simp only: kResp_head) simp

lemma kResp_measured:
  assumes "length rest < 2 ^ 62"
  shows "response_len (kResp @ rest) = word_of_nat (length kResp)"
proof -
  let ?head = "kResp_line @ CRLF @ concat (map header_line kResp_headers) @ CRLF"
  have "length ?head < 200" by (simp add: header_line_def CRLF_def)
  then show ?thesis
    unfolding kResp_head using response_len_head(3) [OF kResp_framed, of "''hello'' @ rest"] assms
    by (simp only: append_assoc length_append) simp
qed

section \<open>Properties\<close>

text \<open>
  The control server answers what the load generator sends, request by request: however the
  network cuts a run of requests, the server hands exactly one canned response per request to
  \<open>send\<close> and keeps nothing but the part of the next request, and the load generator measures the
  first response of such a run as one message of its exact length.
\<close>

theorem control_server_answers_each_request:
  assumes "line_safe path" and "bufs s d = Some []"
    and "concat ps = concat (replicate n (request_text path close_mode)) @ part"
    and "strict_prefix part (request_text path close_mode)"
  shows "fold (\<lambda>p. on_readable all_taken d (Data p)) ps s =
      s\<lparr>bufs := (bufs s)(d \<mapsto> part), replies_sent := replies_sent s @ replicate n (d, kResp)\<rparr> \<and>
    (0 < n \<longrightarrow> length (concat (replicate n kResp)) < 2 ^ 62 \<longrightarrow>
      response_len (concat (replicate n kResp)) = word_of_nat (length kResp))"
proof -
  let ?q = "request_text path close_mode"
  have q: "whole_request ?q" by (rule whole_request_text [OF assms(1)])
  have "count_requests (concat (replicate n ?q) @ part) 0 = (n, part)"
    using count_requests_append [OF count_whole_requests [of "replicate n ?q" "[]" 0], of part]
      count_part [OF assms(1,4), of n] q by (simp add: CRLF_def)
  moreover have "find_sub (CRLF @ CRLF) [] = None" by (simp add: CRLF_def)
  ultimately have "fold (\<lambda>p. on_readable all_taken d (Data p)) ps s =
      s\<lparr>bufs := (bufs s)(d \<mapsto> part), replies_sent := replies_sent s @ replicate n (d, kResp)\<rparr>"
    using reads_pieces [OF assms(2), of ps] assms(3) by simp
  moreover have "response_len (concat (replicate n kResp)) = word_of_nat (length kResp)"
    if "0 < n" "length (concat (replicate n kResp)) < 2 ^ 62"
    using that kResp_measured [of "concat (replicate (n - 1) kResp)"] by (cases n) simp_all
  ultimately show ?thesis by blast
qed

theorem control_server_answers_each_request_witness:
  "fold (\<lambda>p. on_readable all_taken 7 (Data p))
      [take 30 (request_text ''/'' False), drop 30 (request_text ''/'' False) @ ''GET'']
      \<lparr>bufs = [7 \<mapsto> []], replies_sent = []\<rparr> =
    \<lparr>bufs = [7 \<mapsto> ''GET''], replies_sent = [(7, kResp)]\<rparr>"
proof -
  have "strict_prefix ''GET'' (request_text ''/'' False)" by (simp add: request_text_def strict_prefix_def)
  then show ?thesis
    using control_server_answers_each_request [of "''/''" "\<lparr>bufs = [7 \<mapsto> []], replies_sent = []\<rparr>" 7
        "[take 30 (request_text ''/'' False), drop 30 (request_text ''/'' False) @ ''GET'']" 1 False "''GET''"]
    by (simp add: line_safe_def)
qed

text \<open>
  The control server answers what the load generators send, on every connection for itself. In
  any run of its event loop, in whatever rounds and interleaving the events of other connections come,
  a connection that was accepted and sent \<open>n\<close> requests and the beginning of another, in any pieces, was
  handed exactly \<open>n\<close> canned responses, and nothing but that beginning is kept for it; the load generator
  measures the first of these responses as one message of its exact length.
\<close>

theorem control_server_serves_every_connection:
  assumes "line_safe path" and "d \<in> set cs"
    and "filter (concerns d) (concat rounds) = Acceptable cs # map (\<lambda>p. Readable d all_taken (Data p)) ps"
    and "concat ps = concat (replicate n (request_text path close_mode)) @ part"
    and "strict_prefix part (request_text path close_mode)"
    and "0 < n" and "length (concat (replicate n kResp)) < 2 ^ 62"
  shows "on_conn d (ref_main rounds) = (Some part, replicate n kResp) \<and>
    response_len (concat (snd (on_conn d (ref_main rounds)))) = word_of_nat (length kResp)"
proof -
  let ?s0 = "\<lparr>bufs = Map.empty, replies_sent = []\<rparr>"
  let ?s1 = "fold on_accept cs ?s0"
  have s1: "on_conn d ?s1 = (Some [], [])" using assms(2) by (simp add: on_conn_accepts) (simp add: on_conn_def)
  then have "bufs ?s1 d = Some []" by (simp add: on_conn_def)
  note reads = control_server_answers_each_request [OF assms(1) this assms(4,5)]
  have pieces: "fold on_ref_event (map (\<lambda>p. Readable d all_taken (Data p)) ps) s =
      fold (\<lambda>p. on_readable all_taken d (Data p)) ps s" for s
    by (induction ps arbitrary: s) (simp_all add: on_ref_event_def)
  have "on_conn d (ref_main rounds) = on_conn d (fold (\<lambda>p. on_readable all_taken d (Data p)) ps ?s1)"
    unfolding ref_main_concat on_conn_events [of d ?s0 ?s0 "concat rounds", OF refl] assms(3) fold_simps(2) pieces
    by (simp add: on_ref_event_def)
  also have "\<dots> = (Some part, replicate n kResp)"
    using reads s1 by (simp add: on_conn_def filter_empty_conv)
  finally show ?thesis using reads assms(6,7) by simp
qed

theorem control_server_serves_every_connection_witness:
  "on_conn 7 (ref_main [[Acceptable [7]], [Readable 7 all_taken (Data (take 30 (request_text ''/'' False))), Acceptable [8]],
      [Readable 8 all_taken (Data (CRLF @ CRLF)), Readable 7 all_taken (Data (drop 30 (request_text ''/'' False) @ ''GET''))]]) =
    (Some ''GET'', [kResp])"
proof -
  have "strict_prefix ''GET'' (request_text ''/'' False)" by (simp add: request_text_def strict_prefix_def)
  moreover have "length kResp < 1000" by (simp add: kResp_def CRLF_def)
  ultimately show ?thesis
    using control_server_serves_every_connection [of "''/''" 7 "[7]"
        "[[Acceptable [7]], [Readable 7 all_taken (Data (take 30 (request_text ''/'' False))), Acceptable [8]],
          [Readable 8 all_taken (Data (CRLF @ CRLF)), Readable 7 all_taken (Data (drop 30 (request_text ''/'' False) @ ''GET''))]]"
        "[take 30 (request_text ''/'' False), drop 30 (request_text ''/'' False) @ ''GET'']" 1 False "''GET''"]
    by (simp add: line_safe_def concerns_def)
qed

end
