(* ===== verification/Closed_Control.thy ===== *)
theory Closed_Control
  imports Closed_Loop Reference_Server
begin

text \<open>
  The load generator against the control server (\<open>bench/refserver.cpp\<close>), the run that calibrates the
  measurements: the control server keeps the same contract \<open>answering_server\<close> as PlusWeb, with one
  canned answer, so what is proved of the closed loop holds of both.
\<close>

section \<open>The control server keeps the contract\<close>

text \<open>Connection \<open>i\<close> of the load generator has the descriptor \<open>D i\<close> in the server; every \<open>send\<close> of the server
  takes its response as a whole, what the server relies on (it drops what a \<open>send\<close> leaves).\<close>

definition ctl_reads :: "(nat \<Rightarrow> int) \<Rightarrow> nat \<Rightarrow> string \<Rightarrow> ref_server \<Rightarrow> ref_server \<Rightarrow> bool" where
  "ctl_reads D i d s s' \<longleftrightarrow> s' = on_ref_event (Readable (D i) all_taken (Data d)) s"

definition ctl_sent :: "(nat \<Rightarrow> int) \<Rightarrow> nat \<Rightarrow> ref_server \<Rightarrow> string list" where
  "ctl_sent D i s = snd (on_conn (D i) s)"

definition ctl_holds :: "(nat \<Rightarrow> int) \<Rightarrow> string \<Rightarrow> nat \<Rightarrow> string list \<Rightarrow> ref_server \<Rightarrow> bool" where
  "ctl_holds D path i ds s \<longleftrightarrow>
     inj D \<and> line_safe path \<and> fst (on_conn (D i) s) = Some (concat ds) \<and>
     strict_prefix (concat ds) (request_text path False)"

lemma count_request: "line_safe path \<Longrightarrow> count_requests (request_text path close_mode) 0 = (1, [])"
  using count_whole_request [OF whole_request_text, of path close_mode "[]" 0] count_None [of "[]" 1]
  by (simp add: CRLF_def)

lemma ctl_reads_laws:
  assumes "ctl_holds D path i ds s" and "ctl_reads D i d s s'" and "d \<noteq> []"
  shows "strict_prefix (concat ds @ d) (request_text path False) \<Longrightarrow>
      ctl_holds D path i (ds @ [d]) s' \<and> ctl_sent D i s' = ctl_sent D i s"
    and "concat ds @ d = request_text path False \<Longrightarrow>
      ctl_holds D path i [] s' \<and> ctl_sent D i s' = ctl_sent D i s @ [kResp]"
    and "j \<noteq> i \<Longrightarrow> on_conn (D j) s' = on_conn (D j) s"
proof -
  have s: "bufs s (D i) = Some (concat ds)" "line_safe path" "inj D" using assms(1) by (auto simp: ctl_holds_def on_conn_def)
  have s': "s' = s\<lparr>bufs := (bufs s)(D i \<mapsto> snd (count_requests (concat ds @ d) 0)),
      replies_sent := replies_sent s @ replicate (fst (count_requests (concat ds @ d) 0)) (D i, kResp)\<rparr>"
    using assms(2) read_once [OF s(1), of d] by (simp add: ctl_reads_def on_ref_event_def)
  show "ctl_holds D path i (ds @ [d]) s' \<and> ctl_sent D i s' = ctl_sent D i s"
    if "strict_prefix (concat ds @ d) (request_text path False)"
    using that s count_part [OF s(2) that, of 0] by (simp add: s' ctl_holds_def ctl_sent_def on_conn_def)
  show "ctl_holds D path i [] s' \<and> ctl_sent D i s' = ctl_sent D i s @ [kResp]"
    if "concat ds @ d = request_text path False"
    using that s count_request [OF s(2), of False]
    by (simp add: s' ctl_holds_def ctl_sent_def on_conn_def request_text_def)
  show "on_conn (D j) s' = on_conn (D j) s" if "j \<noteq> i"
    using that s(3) by (auto simp: s' on_conn_def filter_empty_conv dest: injD)
qed

interpretation control: answering_server "ctl_reads D" "\<lambda>i s s'. False" "ctl_sent D" "ctl_holds D path" "\<lambda>i s. 0"
  "request_text path False" "\<lambda>m. m = kResp" "length kResp" for D path
proof
  fix i j :: nat and ds d m q s s'
  show "request_text path False \<noteq> []" by (simp add: request_text_def)
  show "m = kResp \<Longrightarrow> m \<noteq> [] \<and> length m \<le> length kResp \<and> length m < 2 ^ 62 \<and> response_len m = word_of_nat (length m)"
    using kResp_measured [of "[]"] length_kResp by auto
  show "m = kResp \<Longrightarrow> strict_prefix q m \<Longrightarrow> response_len q = 0" by (simp add: kResp_part)
  show "\<exists>s'. ctl_reads D i d s s'" by (simp add: ctl_reads_def)
  assume holds: "ctl_holds D path i ds s" "ctl_reads D i d s s'" "d \<noteq> []"
  note laws = ctl_reads_laws [OF holds]
  show "strict_prefix (concat ds @ d) (request_text path False) \<Longrightarrow>
      ctl_holds D path i (ds @ [d]) s' \<and> ctl_sent D i s' = ctl_sent D i s \<and> (0 :: nat) \<le> 0" using laws(1) by simp
  show "concat ds @ d = request_text path False \<Longrightarrow> \<exists>m. m = kResp \<and> ctl_holds D path i [] s' \<and>
      ctl_sent D i s' = ctl_sent D i s @ [m] \<and> (0 :: nat) \<le> 0 + 1" using laws(2) by simp
  show "j \<noteq> i \<Longrightarrow> (\<forall>es. ctl_holds D path j es s \<longrightarrow> ctl_holds D path j es s') \<and>
      ctl_sent D j s' = ctl_sent D j s \<and> (0 :: nat) \<le> 0" using laws(3) by (simp add: ctl_holds_def ctl_sent_def)
qed simp_all

definition ctl_accepted :: "(nat \<Rightarrow> int) \<Rightarrow> nat \<Rightarrow> ref_server" where
  "ctl_accepted D n = on_ref_event (Acceptable (map D [0..<n])) \<lparr>bufs = Map.empty, replies_sent = []\<rparr>"

lemma on_conn_accepted: "i < n \<Longrightarrow> on_conn (D i) (ctl_accepted D n) = (Some [], [])"
  unfolding ctl_accepted_def on_ref_event_def by (simp add: on_conn_accepts) (simp add: on_conn_def)

abbreviation control_step ::
  "(nat \<Rightarrow> int) \<Rightarrow> string \<Rightarrow> 'd \<Rightarrow> ('d, ref_server) closed \<Rightarrow> ('d, ref_server) closed \<Rightarrow> bool" where
  "control_step D \<equiv> closed_step (ctl_reads D) (\<lambda>i s s'. False) (ctl_sent D)"

lemma control_start:
  assumes "inj D" and "line_safe path"
    and "\<forall>m. 0 \<le> k_socket K m" and "inj (k_socket K)" and "\<forall>m. k_connect K m"
  shows "closed_ok (ctl_sent D) (ctl_holds D path) (\<lambda>i s. 0) (request_text path False) (\<lambda>m. m = kResp) (length kResp) n 0
    (closed_start K zero n (ctl_accepted D n))"
  using on_conn_accepted [of _ n D] assms(1,2)
  by (intro control.start_inv assms(3-5)) (auto simp: ctl_holds_def ctl_sent_def request_text_def strict_prefix_def)

section \<open>Properties\<close>

text \<open>
  C30: The load generator against the control server, on \<open>n\<close> connections, after any number of steps in
  any order: no connection has failed, each has been handed canned responses only, as many as the load
  generator has counted on it or one more, the server keeps for it a proper part of the next request,
  and \<open>N\<close> steps have completed at least \<open>N / (2 |rq| + 108) - n\<close> requests; some step is always possible.
  In a step no call fails, and every \<open>send\<close> of the control server takes a whole response, of the load
  generator at least a byte.
\<close>

theorem control_closed_loop:
  assumes "inj D" and "line_safe path"
    and "\<forall>m. 0 \<le> k_socket K m" and "inj (k_socket K)" and "\<forall>m. k_connect K m"
    and "(control_step D (request_text path False) deadline ^^ N) (closed_start K zero n (ctl_accepted D n)) s"
  shows "errors (lg s) = 0 \<and> reconnects (lg s) = 0 \<and>
    completed (lg s) = sum_list (map conn_done (lconns (lg s))) \<and>
    (\<forall>i < n. \<exists>part k. on_conn (D i) (srv s) = (Some part, replicate k kResp) \<and>
       strict_prefix part (request_text path False) \<and>
       conn_done (lconns (lg s) ! i) \<le> k \<and> k \<le> conn_done (lconns (lg s) ! i) + 1) \<and>
    N \<le> (2 * length (request_text path False) + 108) * (n + completed (lg s)) \<and>
    (0 < n \<longrightarrow> (\<exists>s'. control_step D (request_text path False) deadline s s'))"
proof -
  note ok = control.run_inv [OF assms(6) control_start [OF assms(1-5)]]
  note books = control.conversation(1) [OF ok] and conn = control.conversation(2) [OF ok]
  have "\<exists>part k. on_conn (D i) (srv s) = (Some part, replicate k kResp) \<and> strict_prefix part (request_text path False) \<and>
      conn_done (lconns (lg s) ! i) \<le> k \<and> k \<le> conn_done (lconns (lg s) ! i) + 1" if i: "i < n" for i
  proof -
    obtain ds where "fst (on_conn (D i) (srv s)) = Some (concat ds)" "strict_prefix (concat ds) (request_text path False)"
      using conn [OF i] by (auto simp: ctl_holds_def)
    moreover have "snd (on_conn (D i) (srv s)) = replicate (length (ctl_sent D i (srv s))) kResp"
      using conn [OF i] by (intro replicate_eqI) (auto simp: ctl_sent_def list_all_iff)
    ultimately show ?thesis using conn [OF i]
      by (intro exI [of _ "concat ds"] exI [of _ "length (ctl_sent D i (srv s))"]) (simp add: prod_eq_iff)
  qed
  moreover have "2 * length (request_text path False) + length kResp + 1 = 2 * length (request_text path False) + 108"
    by (simp add: length_kResp)
  note control.throughput [OF ok, unfolded this]
  ultimately show ?thesis using books control.progress [OF ok] by blast
qed

text \<open>The example: two connections of the load generator, on descriptors 5 and 6 of the server, and any number of steps.\<close>

theorem control_closed_loop_witness:
  "\<exists>s k. (control_step (\<lambda>i. int i + 5) (request_text ''/'' False) (9 :: nat) ^^ 10000)
      (closed_start (sample_kernel []) 0 2 (ctl_accepted (\<lambda>i. int i + 5) 2)) s \<and>
    errors (lg s) = 0 \<and> 30 \<le> completed (lg s) \<and> snd (on_conn 6 (srv s)) = replicate k kResp \<and>
    conn_done (lconns (lg s) ! 1) \<le> k \<and> k \<le> conn_done (lconns (lg s) ! 1) + 1"
proof -
  let ?D = "\<lambda>i. int i + 5"
  let ?step = "control_step ?D (request_text ''/'' False) (9 :: nat)"
  let ?start = "closed_start (sample_kernel []) 0 2 (ctl_accepted ?D 2)"
  have D: "inj ?D" "line_safe ''/''" by (simp_all add: inj_def line_safe_def)
  have K: "\<forall>m. 0 \<le> k_socket (sample_kernel []) m" "inj (k_socket (sample_kernel []))" "\<forall>m. k_connect (sample_kernel []) m"
    by (simp_all add: sample_kernel_def inj_def)
  note loop = control_closed_loop [OF D K]
  have "\<exists>s. (?step ^^ N) ?start s" for N
  proof (induction N)
    case (Suc N)
    then obtain s where s: "(?step ^^ N) ?start s" ..
    from loop [OF this] obtain s' where "?step s s'" by auto
    with s show ?case by (blast intro: relpowp_Suc_I)
  qed simp
  then obtain s where s: "(?step ^^ 10000) ?start s" by blast
  have "length (request_text ''/'' False) = 68" by (simp add: request_text_def CRLF_def)
  moreover note closed = loop [OF s]
  ultimately have "10000 \<le> 244 * (2 + completed (lg s))" by simp
  then have many: "30 \<le> completed (lg s)" by presburger
  moreover have "(1 :: nat) < 2" by simp
  with closed obtain part k where "on_conn (?D 1) (srv s) = (Some part, replicate k kResp)"
      "conn_done (lconns (lg s) ! 1) \<le> k" "k \<le> conn_done (lconns (lg s) ! 1) + 1" by blast
  ultimately show ?thesis using s closed by (intro exI [of _ s] exI [of _ k] conjI) simp_all
qed

end
