(* ===== verification/Load_Report.thy ===== *)
theory Load_Report
  imports Complex_Main Load_Generator
begin

text \<open>
  What \<open>bench/loadgen.cpp\<close> reports: the sorted latencies, percentiles, mean and rate, the printed line,
  and \<open>main\<close> as a whole, from the command line to the exit code. Latencies are ordered linearly
  (differences of a steady clock are never NaN); the arithmetic of \<open>double\<close> is a record of operations.
\<close>

section \<open>The report\<close>

text \<open>
  \<open>f_int\<close> is the conversion from an integer, \<open>f_size\<close> the cast to \<open>size_t\<close>, \<open>f_nines\<close> the literal
  \<open>99.9\<close>, and \<open>f_fixed k x\<close> prints \<open>x\<close> with \<open>k\<close> digits behind the point.
\<close>

record 'd double_ops =
  f_int :: "int \<Rightarrow> 'd"
  f_plus :: "'d \<Rightarrow> 'd \<Rightarrow> 'd"
  f_times :: "'d \<Rightarrow> 'd \<Rightarrow> 'd"
  f_div :: "'d \<Rightarrow> 'd \<Rightarrow> 'd"
  f_size :: "'d \<Rightarrow> nat"
  f_nines :: 'd
  f_fixed :: "nat \<Rightarrow> 'd \<Rightarrow> string"

definition pct_index :: "'d double_ops \<Rightarrow> 'd \<Rightarrow> nat \<Rightarrow> nat" where
  "pct_index F p n = f_size F (f_times F (f_div F p (f_int F 100)) (f_int F (int (n - 1))))"

definition pct :: "'d double_ops \<Rightarrow> 'd list \<Rightarrow> 'd \<Rightarrow> 'd" where
  "pct F ls p = (if ls = [] then f_int F (- 1) else f_times F (ls ! pct_index F p (length ls)) (f_int F 1000))"

definition mean_ms :: "'d double_ops \<Rightarrow> 'd list \<Rightarrow> 'd" where
  "mean_ms F ls =
     (let mean = fold (\<lambda>d mean. f_plus F mean d) ls (f_int F 0) in
      if ls = [] then mean else f_times F (f_div F mean (f_int F (int (length ls)))) (f_int F 1000))"

definition max_ms :: "'d double_ops \<Rightarrow> 'd list \<Rightarrow> 'd" where
  "max_ms F ls = (if ls = [] then f_int F (- 1) else f_times F (last ls) (f_int F 1000))"

definition field :: "string \<Rightarrow> string \<Rightarrow> string" where
  "field name v = [CHR 0x22] @ name @ [CHR 0x22] @ '':'' @ v"

definition sep_by :: "string list \<Rightarrow> string" where
  "sep_by fs = (case fs of [] \<Rightarrow> [] | f # fs \<Rightarrow> f @ concat (map (\<lambda>g. '','' @ g) fs))"

definition report_line ::
  "('d::linorder) double_ops \<Rightarrow> int \<Rightarrow> nat \<Rightarrow> bool \<Rightarrow> 'd \<Rightarrow> 'd loadgen \<Rightarrow> string" where
  "report_line F nconns conn_count close_mode elapsed g =
     (let ls = sort (lat g); ms = f_fixed F 3 in
      ''{'' @ sep_by
        [field ''conns'' (int_to_string nconns), field ''connected'' (nat_to_string conn_count),
         field ''mode'' ([CHR 0x22] @ (if close_mode then ''close'' else ''keep-alive'') @ [CHR 0x22]),
         field ''elapsed_s'' (ms elapsed), field ''completed'' (nat_to_string (completed g)),
         field ''rps'' (f_fixed F 1 (f_div F (f_int F (int (completed g))) elapsed)),
         field ''errors'' (nat_to_string (errors g)), field ''reconnects'' (nat_to_string (reconnects g)),
         field ''starved_conns'' (nat_to_string (starved g)), field ''mean_ms'' (ms (mean_ms F ls)),
         field ''p50_ms'' (ms (pct F ls (f_int F 50))), field ''p90_ms'' (ms (pct F ls (f_int F 90))),
         field ''p99_ms'' (ms (pct F ls (f_int F 99))), field ''p999_ms'' (ms (pct F ls (f_nines F))),
         field ''max_ms'' (ms (max_ms F ls))] @ ''}'' @ NEWLINE)"

section \<open>main\<close>

text \<open>
  The arguments of \<open>main\<close> after the name of the program; \<open>atoi\<close> is \<open>strtol\<close> within the range of an
  \<open>int\<close>, \<open>atof\<close> is a parameter. The result is what goes to \<open>stdout\<close> and \<open>stderr\<close>, and the exit code;
  a negative number of connections is an exception of \<open>std::vector\<close>. What \<open>main\<close> closes at the end
  does not show in what it prints.
\<close>

datatype outcome_of_main = Exited int string string | Terminated string

definition usage :: "string \<Rightarrow> string" where
  "usage name = ''usage: '' @ name @ '' <host> <port> <conns> <seconds> <path> [--close]'' @ NEWLINE"

definition measure_load ::
  "('d::linorder) kernel \<Rightarrow> 'd double_ops \<Rightarrow> 'd \<Rightarrow> string \<Rightarrow> int \<Rightarrow> bool \<Rightarrow> 'd \<Rightarrow> nat \<Rightarrow> outcome_of_main option" where
  "measure_load K F zero path nconns close_mode duration rounds =
     (let (conn_count, g) = connect_all K zero (nat nconns) in
      if conn_count = 0 then Some (Exited 1 [] (''no connections established'' @ NEWLINE))
      else let (start, g1) = now_s K g in
        case run_loop K (request_text path close_mode) close_mode (d_plus K start duration) rounds g1 of
          None \<Rightarrow> None
        | Some g2 \<Rightarrow> let (stop, g3) = now_s K g2 in
            Some (Exited 0 (report_line F nconns conn_count close_mode (d_minus K stop start) g3) []))"

definition loadgen_program ::
  "('d::linorder) kernel \<Rightarrow> 'd double_ops \<Rightarrow> (string \<Rightarrow> 'd) \<Rightarrow> 'd \<Rightarrow> string \<Rightarrow> string list \<Rightarrow> nat \<Rightarrow>
   outcome_of_main option" where
  "loadgen_program K F atof zero name args rounds =
     (if length args < 5 then Some (Exited 2 [] (usage name))
      else
        let nconns = strtol (args ! 2); duration = atof (args ! 3); path = args ! 4;
            close_mode = list_ex (\<lambda>a. a = ''--close'') (drop 5 args) in
        if nconns < 0 then Some (Terminated ''cannot create std::vector larger than max_size()'')
        else measure_load K F zero path nconns close_mode duration rounds)"

section \<open>Ranks\<close>

lemma length_filter_sort: "length (filter P (sort xs)) = length (filter P (xs :: ('d::linorder) list))"
  by (simp add: filter_sort)

text \<open>In a sorted list, at least \<open>k + 1\<close> elements are at most the one at \<open>k\<close>, and \<open>n - k\<close> are at least it.\<close>

lemma sorted_ranks:
  assumes "sorted (ls :: ('d::linorder) list)" and "k < length ls"
  shows "k + 1 \<le> length (filter (\<lambda>x. x \<le> ls ! k) ls)"
    and "length ls - k \<le> length (filter (\<lambda>x. ls ! k \<le> x) ls)"
proof -
  have low: "\<forall>x \<in> set (take (Suc k) ls). x \<le> ls ! k"
    using assms by (auto simp: in_set_conv_nth sorted_iff_nth_mono)
  have high: "\<forall>x \<in> set (drop k ls). ls ! k \<le> x"
    using assms by (auto simp: in_set_conv_nth sorted_iff_nth_mono)
  have "length (filter (\<lambda>x. x \<le> ls ! k) (take (Suc k) ls)) = Suc k"
    using low assms(2) by (simp add: filter_True)
  moreover have "length (filter P ls) = length (filter P (take m ls)) + length (filter P (drop m ls))" for P m
    by (metis append_take_drop_id filter_append length_append)
  ultimately show "k + 1 \<le> length (filter (\<lambda>x. x \<le> ls ! k) ls)" by (metis Suc_eq_plus1 le_add1)
  have "length (filter (\<lambda>x. ls ! k \<le> x) (drop k ls)) = length ls - k" using high by (simp add: filter_True)
  with \<open>\<And>P m. length (filter P ls) = length (filter P (take m ls)) + length (filter P (drop m ls))\<close>
  show "length ls - k \<le> length (filter (\<lambda>x. ls ! k \<le> x) ls)" by (metis le_add2)
qed

section \<open>The index of a percentile\<close>

text \<open>
  What IEEE 754 says of \<open>double\<close>: a finite number has a real value, \<open>val\<close>; comparison is that of the
  values; an operation returns the exact result, rounded, unless it overflows; rounding is monotone,
  leaves integers up to \<open>2^53\<close> alone and has a relative error of at most \<open>2^-53\<close> in the range of normal
  numbers; and the cast to \<open>size_t\<close> cuts off the fraction.
\<close>

definition ieee :: "('d::linorder) double_ops \<Rightarrow> ('d \<Rightarrow> real) \<Rightarrow> (real \<Rightarrow> real) \<Rightarrow> bool" where
  "ieee F val rnd \<longleftrightarrow>
     (\<forall>x y. x \<le> y \<longleftrightarrow> val x \<le> val y) \<and> (\<forall>k. val (f_int F k) = rnd (of_int k)) \<and> val (f_nines F) = rnd 99.9 \<and>
     (\<forall>x y. \<bar>val x * val y\<bar> \<le> 2 ^ 1000 \<longrightarrow> val (f_times F x y) = rnd (val x * val y)) \<and>
     (\<forall>x y. val y \<noteq> 0 \<longrightarrow> \<bar>val x / val y\<bar> \<le> 2 ^ 1000 \<longrightarrow> val (f_div F x y) = rnd (val x / val y)) \<and>
     (\<forall>x. 0 \<le> val x \<longrightarrow> val x < 2 ^ 64 \<longrightarrow> f_size F x = nat \<lfloor>val x\<rfloor>) \<and>
     mono rnd \<and> (\<forall>k. \<bar>k\<bar> \<le> 2 ^ 53 \<longrightarrow> rnd (of_int k) = of_int k) \<and>
     (\<forall>x. 1 / 2 ^ 1000 \<le> \<bar>x\<bar> \<longrightarrow> \<bar>x\<bar> \<le> 2 ^ 1000 \<longrightarrow> \<bar>rnd x - x\<bar> \<le> \<bar>x\<bar> / 2 ^ 53)"

text \<open>The rank of a percentile among \<open>n\<close> values, counted from \<open>0\<close> and not rounded.\<close>

definition rank_of :: "real \<Rightarrow> nat \<Rightarrow> real" where
  "rank_of p n = p / 100 * real (n - 1)"

lemma ieee_simps:
  assumes "ieee F val rnd"
  shows "x \<le> y \<longleftrightarrow> val x \<le> val y"
    and "\<bar>k\<bar> \<le> 2 ^ 53 \<Longrightarrow> rnd (of_int k) = of_int k"
    and "\<bar>k\<bar> \<le> 2 ^ 53 \<Longrightarrow> val (f_int F k) = of_int k"
    and "\<bar>val x * val y\<bar> \<le> 2 ^ 1000 \<Longrightarrow> val (f_times F x y) = rnd (val x * val y)"
    and "val y \<noteq> 0 \<Longrightarrow> \<bar>val x / val y\<bar> \<le> 2 ^ 1000 \<Longrightarrow> val (f_div F x y) = rnd (val x / val y)"
    and "0 \<le> val x \<Longrightarrow> val x < 2 ^ 64 \<Longrightarrow> f_size F x = nat \<lfloor>val x\<rfloor>"
  using assms unfolding ieee_def by (blast, blast, metis, blast, blast, blast)

lemma ieee_mono: "ieee F val rnd \<Longrightarrow> a \<le> b \<Longrightarrow> rnd a \<le> rnd b"
  unfolding ieee_def mono_def by blast

lemma ieee_near: "ieee F val rnd \<Longrightarrow> 1 / 2 ^ 1000 \<le> a \<Longrightarrow> a \<le> 2 ^ 1000 \<Longrightarrow> \<bar>rnd a - a\<bar> \<le> a / 2 ^ 53"
  unfolding ieee_def
proof (elim conjE)
  assume a: "1 / 2 ^ 1000 \<le> a" "a \<le> 2 ^ 1000"
    and near: "\<forall>x. 1 / 2 ^ 1000 \<le> \<bar>x\<bar> \<longrightarrow> \<bar>x\<bar> \<le> 2 ^ 1000 \<longrightarrow> \<bar>rnd x - x\<bar> \<le> \<bar>x\<bar> / 2 ^ 53"
  have "\<bar>a\<bar> = a" using order_trans [OF _ a(1), of 0] by simp
  with near a show ?thesis by metis
qed

text \<open>Two roundings together stay within \<open>2^-51\<close>.\<close>

lemma two_roundings:
  fixes a b c u :: real
  assumes "0 \<le> u" and "u \<le> 1" and "\<bar>b - a\<bar> \<le> a * u" and "\<bar>c - b * m\<bar> \<le> b * m * u" and "0 \<le> a" and "0 \<le> m"
  shows "c \<le> a * m * (1 + 3 * u)" and "a * m * (1 - 2 * u) \<le> c"
proof -
  have "b \<le> a * (1 + u)" and low: "a * (1 - u) \<le> b" using assms(3) by (simp_all add: algebra_simps)
  then have bm: "b * m \<le> a * (1 + u) * m" and lowm: "a * (1 - u) * m \<le> b * m"
    using assms(6) by (simp_all add: mult_right_mono)
  have "c \<le> b * m * (1 + u)" and lowc: "b * m * (1 - u) \<le> c" using assms(4) by (simp_all add: algebra_simps)
  note \<open>c \<le> b * m * (1 + u)\<close>
  also have "b * m * (1 + u) \<le> a * (1 + u) * m * (1 + u)"
    using assms(1) by (intro mult_right_mono [OF bm]) simp
  also have "\<dots> = a * m * (1 + 2 * u + u * u)" by (simp add: algebra_simps)
  also have "\<dots> \<le> a * m * (1 + 3 * u)"
    using assms(1,2,5,6) mult_left_le [of u u] by (intro mult_left_mono) simp_all
  finally show "c \<le> a * m * (1 + 3 * u)" .
  have "a * m * (1 - 2 * u) \<le> a * m * (1 - 2 * u + u * u)"
    using assms(5,6) by (intro mult_left_mono) simp_all
  also have "\<dots> = a * (1 - u) * m * (1 - u)" by (simp add: algebra_simps)
  also have "\<dots> \<le> b * m * (1 - u)" using assms(2) by (intro mult_right_mono [OF lowm]) simp
  also note lowc
  finally show "a * m * (1 - 2 * u) \<le> c" .
qed

text \<open>The number that the cast is applied to: in range, close to the rank, and growing with the percentile.\<close>

definition index_value :: "(real \<Rightarrow> real) \<Rightarrow> real \<Rightarrow> nat \<Rightarrow> real" where
  "index_value rnd p n = rnd (rnd (p / 100) * real (n - 1))"

lemma small_size:
  assumes "n \<le> 2 ^ 53"
  shows "real (n - 1) \<le> 2 ^ 53" and "\<bar>int (n - 1)\<bar> \<le> 2 ^ 53"
proof -
  have "n - 1 \<le> 2 ^ 53" using assms by (rule le_trans [OF diff_le_self])
  then have "real (n - 1) \<le> real (2 ^ 53)" "int (n - 1) \<le> int (2 ^ 53)" by (simp_all only: of_nat_le_iff)
  then show "real (n - 1) \<le> 2 ^ 53" "\<bar>int (n - 1)\<bar> \<le> 2 ^ 53" by simp_all
qed

lemma index_value_range:
  assumes ie: "ieee F val rnd" and p: "1 \<le> p" "p \<le> 100" and n: "0 < n" "n \<le> 2 ^ 53"
  shows "0 \<le> index_value rnd p n" and "index_value rnd p n \<le> real (n - 1)"
    and "index_value rnd p n \<le> rank_of p n * (1 + 1 / 2 ^ 51)"
    and "rank_of p n * (1 - 1 / 2 ^ 51) \<le> index_value rnd p n"
proof -
  let ?m = "real (n - 1)" and ?a = "rnd (p / 100)"
  note n' = small_size [OF n(2)]
  have m: "0 \<le> ?m" "?m \<le> 2 ^ 53" using n' by simp_all
  have int_m: "rnd ?m = ?m" using ieee_simps(2) [OF ie n'(2)] by simp
  have big: "(1::real) \<le> 2 ^ 1000" "(1::real) / 2 ^ 1000 \<le> 1 / 100" "(2::real) ^ 53 \<le> 2 ^ 1000" by simp_all
  have "1 / 2 ^ 1000 \<le> p / 100" "p / 100 \<le> 2 ^ 1000" using p big by linarith+
  from ieee_near [OF ie this] have a: "\<bar>?a - p / 100\<bar> \<le> p / 100 * (1 / 2 ^ 53)" by simp
  have "rnd 1 = 1" "rnd 0 = 0" using ieee_simps(2) [OF ie, of 1] ieee_simps(2) [OF ie, of 0] by simp_all
  then have a_le: "?a \<le> 1" using ieee_mono [OF ie, of "p / 100" 1] p by simp
  have "p / 100 * (1 / 2 ^ 53) \<le> 1 * (1 / 1000)" using p by (intro mult_mono) simp_all
  with a have "\<bar>?a - p / 100\<bar> \<le> 1 / 1000" by linarith
  then have a_ge: "1 / 1000 \<le> ?a" using p(1) by linarith
  have am: "?a * ?m \<le> ?m" "0 \<le> ?a * ?m" using a_le a_ge m by (simp_all add: mult_left_le_one_le)
  have b: "\<bar>rnd (?a * ?m) - ?a * ?m\<bar> \<le> ?a * ?m * (1 / 2 ^ 53)"
  proof (cases "n = 1")
    case True
    then show ?thesis using \<open>rnd 0 = 0\<close> by simp
  next
    case False
    then have "1 \<le> ?m" using n by simp
    then have "1 / 1000 * 1 \<le> ?a * ?m" using a_ge by (intro mult_mono) simp_all
    moreover have "(1::real) / 2 ^ 1000 \<le> 1 / 1000" by simp
    ultimately have "1 / 2 ^ 1000 \<le> ?a * ?m" by linarith
    moreover have "?a * ?m \<le> 2 ^ 1000" using am(1) m(2) big(3) by linarith
    ultimately show ?thesis using ieee_near [OF ie] by fastforce
  qed
  show "0 \<le> index_value rnd p n"
    using ieee_mono [OF ie am(2)] \<open>rnd 0 = 0\<close> by (simp add: index_value_def)
  show "index_value rnd p n \<le> real (n - 1)"
    using ieee_mono [OF ie am(1)] int_m by (simp add: index_value_def)
  have u: "0 \<le> (1::real) / 2 ^ 53" "(1::real) / 2 ^ 53 \<le> 1" and pa: "0 \<le> p / 100" using p by simp_all
  have r: "0 \<le> rank_of p n" using p m by (simp add: rank_of_def)
  have "1 + 3 * (1 / 2 ^ 53) \<le> (1::real) + 1 / 2 ^ 51" "(1::real) - 1 / 2 ^ 51 \<le> 1 - 2 * (1 / 2 ^ 53)" by simp_all
  then have "rank_of p n * (1 + 3 * (1 / 2 ^ 53)) \<le> rank_of p n * (1 + 1 / 2 ^ 51)"
    "rank_of p n * (1 - 1 / 2 ^ 51) \<le> rank_of p n * (1 - 2 * (1 / 2 ^ 53))"
    using r by (intro mult_left_mono; simp)+
  then show "index_value rnd p n \<le> rank_of p n * (1 + 1 / 2 ^ 51)"
    "rank_of p n * (1 - 1 / 2 ^ 51) \<le> index_value rnd p n"
    using two_roundings [OF u a b pa m(1)] unfolding index_value_def rank_of_def by linarith+
qed

lemma index_value_mono:
  assumes "ieee F val rnd" and "p \<le> q"
  shows "index_value rnd p n \<le> index_value rnd q n"
proof -
  have "rnd (p / 100) \<le> rnd (q / 100)" using assms by (intro ieee_mono [OF assms(1)]) simp
  then have "rnd (p / 100) * real (n - 1) \<le> rnd (q / 100) * real (n - 1)" by (simp add: mult_right_mono)
  then show ?thesis unfolding index_value_def by (rule ieee_mono [OF assms(1)])
qed

lemma pct_index_value:
  assumes ie: "ieee F val rnd" and p: "1 \<le> val p" "val p \<le> 100" and n: "0 < n" "n \<le> 2 ^ 53"
  shows "pct_index F p n = nat \<lfloor>index_value rnd (val p) n\<rfloor>"
proof -
  note n' = small_size [OF n(2)]
  have c: "val (f_int F 100) = 100" "val (f_int F (int (n - 1))) = real (n - 1)"
    using ieee_simps(3) [OF ie, of 100] ieee_simps(3) [OF ie n'(2)] by simp_all
  have big: "(1::real) \<le> 2 ^ 1000" "(2::real) ^ 53 \<le> 2 ^ 1000" by simp_all
  have "\<bar>val p / val (f_int F 100)\<bar> \<le> 2 ^ 1000" using p c big by simp
  then have d: "val (f_div F p (f_int F 100)) = rnd (val p / 100)"
    using ieee_simps(5) [OF ie, of "f_int F 100" p] c by simp
  have "rnd 1 = 1" "rnd 0 = 0" using ieee_simps(2) [OF ie, of 1] ieee_simps(2) [OF ie, of 0] by simp_all
  then have a: "0 \<le> rnd (val p / 100)" "rnd (val p / 100) \<le> 1"
    using ieee_mono [OF ie, of 0 "val p / 100"] ieee_mono [OF ie, of "val p / 100" 1] p by simp_all
  note m = n'(1)
  have "rnd (val p / 100) * real (n - 1) \<le> real (n - 1)" using a by (simp add: mult_left_le_one_le)
  then have "\<bar>rnd (val p / 100) * real (n - 1)\<bar> \<le> 2 ^ 1000" using a m big by (simp add: abs_of_nonneg)
  then have t: "val (f_times F (f_div F p (f_int F 100)) (f_int F (int (n - 1)))) = index_value rnd (val p) n"
    using ieee_simps(4) [OF ie, of "f_div F p (f_int F 100)" "f_int F (int (n - 1))"] c d
    by (simp add: index_value_def)
  have "index_value rnd (val p) n < 2 ^ 64"
    using index_value_range(2) [OF ie p n] m by (rule le_less_trans [OF order_trans]) simp
  then show ?thesis
    using ieee_simps(6) [OF ie] t index_value_range(1) [OF ie p n] unfolding pct_index_def by simp
qed

lemma pct_index_rank:
  assumes ie: "ieee F val rnd" and p: "1 \<le> val p" "val p \<le> 100" and n: "0 < n" "n \<le> 2 ^ 53"
  shows "pct_index F p n < n" and "real (pct_index F p n) \<le> rank_of (val p) n * (1 + 1 / 2 ^ 51)"
    and "rank_of (val p) n * (1 - 1 / 2 ^ 51) < real (pct_index F p n) + 1"
    and "val p \<le> val q \<Longrightarrow> val q \<le> 100 \<Longrightarrow> pct_index F p n \<le> pct_index F q n"
proof -
  note range = index_value_range [OF ie p n] and eq = pct_index_value [OF ie p n]
  have k: "real (pct_index F p n) \<le> index_value rnd (val p) n" "index_value rnd (val p) n < real (pct_index F p n) + 1"
    using range(1) unfolding eq by linarith+
  have "real (pct_index F p n) \<le> real (n - 1)" using k(1) range(2) by linarith
  then show "pct_index F p n < n" using n(1) by simp
  show "real (pct_index F p n) \<le> rank_of (val p) n * (1 + 1 / 2 ^ 51)" using k(1) range(3) by linarith
  show "rank_of (val p) n * (1 - 1 / 2 ^ 51) < real (pct_index F p n) + 1" using k(2) range(4) by linarith
  assume "val p \<le> val q" "val q \<le> 100"
  then show "pct_index F p n \<le> pct_index F q n"
    using pct_index_value [OF ie _ _ n, of q] index_value_mono [OF ie, of "val p" "val q" n] p
    unfolding eq by (simp add: nat_mono floor_mono)
qed

lemma scaled_mono:
  assumes ie: "ieee F val rnd" and "\<forall>v \<in> set vs. \<bar>val v\<bar> \<le> 2 ^ 900" and "x \<in> set vs" "y \<in> set vs" and "x \<le> y"
  shows "f_times F x (f_int F 1000) \<le> f_times F y (f_int F 1000)"
proof -
  have c: "val (f_int F 1000) = 1000" using ieee_simps(3) [OF ie, of 1000] by simp
  have "val v * 1000 \<le> 2 ^ 1000 \<and> - (val v * 1000) \<le> 2 ^ 1000" if "v \<in> set vs" for v
  proof -
    have "\<bar>val v\<bar> * 1000 \<le> 2 ^ 900 * 1000" using assms(2) that by simp
    also have "\<dots> \<le> (2::real) ^ 1000" by simp
    finally show ?thesis by linarith
  qed
  then have v: "val (f_times F v (f_int F 1000)) = rnd (val v * 1000)" if "v \<in> set vs" for v
    using ieee_simps(4) [OF ie, of v "f_int F 1000"] that c by (simp add: abs_le_iff)
  have "rnd (val x * 1000) \<le> rnd (val y * 1000)"
    using assms(5) ieee_simps(1) [OF ie, of x y] by (intro ieee_mono [OF ie]) simp
  then show ?thesis unfolding ieee_simps(1) [OF ie] using v assms(3,4) by simp
qed

lemma literal_values:
  assumes ie: "ieee F val rnd"
  shows "val (f_int F 50) = 50" "val (f_int F 90) = 90" "val (f_int F 99) = 99"
    "99 \<le> val (f_nines F)" "val (f_nines F) \<le> 100"
proof -
  show "val (f_int F 50) = 50" "val (f_int F 90) = 90" "val (f_int F 99) = 99"
    using ieee_simps(3) [OF ie, of 50] ieee_simps(3) [OF ie, of 90] ieee_simps(3) [OF ie, of 99] by simp_all
  have "val (f_nines F) = rnd 99.9" using ie unfolding ieee_def by blast
  then show "99 \<le> val (f_nines F)" "val (f_nines F) \<le> 100"
    using ieee_mono [OF ie, of 99 "99.9"] ieee_mono [OF ie, of "99.9" 100]
      ieee_simps(2) [OF ie, of 99] ieee_simps(2) [OF ie, of 100] by simp_all
qed

section \<open>Properties\<close>

text \<open>
  C29: The percentiles of a report are what they are called: \<open>pct(p)\<close> is, in milliseconds, a latency that
  was measured, such that of the \<open>n\<close> measured latencies more than \<open>p/100 * (n-1)\<close> are at most it and at
  least \<open>n - p/100 * (n-1)\<close> are at least it, up to the rounding of \<open>double\<close>, a factor that differs from
  \<open>1\<close> by less than \<open>2^-51\<close>. And the report is in order, from the median to the maximum.
\<close>

theorem percentiles_are_ranks:
  fixes F :: "('d::linorder) double_ops"
  assumes "ieee F val rnd" and "lat g \<noteq> []" and "length (lat g) \<le> 2 ^ 53"
    and "\<forall>v \<in> set (lat g). \<bar>val v\<bar> \<le> 2 ^ 900" and "1 \<le> val p" and "val p \<le> 100"
  shows "(\<exists>v \<in> set (lat g). pct F (sort (lat g)) p = f_times F v (f_int F 1000) \<and>
      rank_of (val p) (length (lat g)) * (1 - 1 / 2 ^ 51) < real (length (filter (\<lambda>x. x \<le> v) (lat g))) \<and>
      real (length (lat g)) - rank_of (val p) (length (lat g)) * (1 + 1 / 2 ^ 51) \<le>
        real (length (filter (\<lambda>x. v \<le> x) (lat g)))) \<and>
    sorted (map (pct F (sort (lat g))) [f_int F 50, f_int F 90, f_int F 99, f_nines F] @ [max_ms F (sort (lat g))])"
proof
  let ?ls = "sort (lat g)" and ?n = "length (lat g)"
  have n: "0 < ?n" "?ls \<noteq> []" using assms(2) by simp (metis assms(2) length_0_conv length_sort)
  note rank = pct_index_rank [OF assms(1) _ _ n(1) assms(3)]
  let ?k = "pct_index F p ?n"
  have k: "?k < length ?ls" using rank(1) [OF assms(5,6)] by simp
  let ?v = "?ls ! ?k"
  have "real ?k + 1 \<le> real (length (filter (\<lambda>x. x \<le> ?v) (lat g)))"
    "real ?n - real ?k \<le> real (length (filter (\<lambda>x. ?v \<le> x) (lat g)))"
    using sorted_ranks [OF sorted_sort k] k by (simp_all add: length_filter_sort)
  then show "\<exists>v \<in> set (lat g). pct F ?ls p = f_times F v (f_int F 1000) \<and>
      rank_of (val p) ?n * (1 - 1 / 2 ^ 51) < real (length (filter (\<lambda>x. x \<le> v) (lat g))) \<and>
      real ?n - rank_of (val p) ?n * (1 + 1 / 2 ^ 51) \<le> real (length (filter (\<lambda>x. v \<le> x) (lat g)))"
    using rank(2,3) [OF assms(5,6)] nth_mem [OF k] n(2)
    by (intro bexI [of _ ?v]) (simp_all add: pct_def)
  have scale: "f_times F (?ls ! i) (f_int F 1000) \<le> f_times F (?ls ! j) (f_int F 1000)" if "i \<le> j" "j < ?n" for i j
    using scaled_mono [OF assms(1,4), of "?ls ! i" "?ls ! j"] that nth_mem [of i ?ls] nth_mem [of j ?ls]
    by (simp add: sorted_nth_mono)
  have mono: "pct F ?ls p \<le> pct F ?ls q" if "1 \<le> val p" "val p \<le> val q" "val q \<le> 100" for p q
    using rank(4) [of p q] rank(1) [of q] that n(2) by (simp add: pct_def scale)
  have top: "pct F ?ls q \<le> max_ms F ?ls" if "1 \<le> val q" "val q \<le> 100" for q
    using rank(1) [OF that] n by (simp add: pct_def max_ms_def last_conv_nth scale)
  have "1 \<le> val (f_int F 50)" "val (f_int F 50) \<le> val (f_int F 90)" "val (f_int F 90) \<le> val (f_int F 99)"
    "val (f_int F 99) \<le> val (f_nines F)" "val (f_nines F) \<le> 100"
    using literal_values [OF assms(1)] by simp_all
  then show "sorted (map (pct F ?ls) [f_int F 50, f_int F 90, f_int F 99, f_nines F] @ [max_ms F ?ls])"
    using mono top by (auto intro: order_trans)
qed

text \<open>
  The program ends on every command line: with the usage, with an exception, without a connection,
  or, once the clock has passed the deadline, with one line of report.
\<close>

theorem loadgen_program_ends:
  assumes "\<forall>d. \<exists>N. \<forall>m \<ge> N. \<not> d_less K (k_now K m) d"
  shows "\<exists>rounds out. loadgen_program K F atof zero name args rounds = Some out \<and>
    (case out of
       Exited code o' e \<Rightarrow> (code = 2) = (length args < 5) \<and> (code = 0) = (o' \<noteq> []) \<and> (code = 0) = (e = [])
     | Terminated what \<Rightarrow> 5 \<le> length args \<and> strtol (args ! 2) < 0)"
proof (cases "length args < 5 \<or> strtol (args ! 2) < 0")
  case True
  then show ?thesis by (auto simp: loadgen_program_def usage_def)
next
  case False
  let ?path = "args ! 4" and ?close = "list_ex (\<lambda>a. a = ''--close'') (drop 5 args)" and ?n = "strtol (args ! 2)"
  obtain c g where g: "connect_all K zero (nat ?n) = (c, g)" by fastforce
  let ?deadline = "d_plus K (k_now K (calls g)) (atof (args ! 3))"
  obtain N where N: "\<forall>m \<ge> N. \<not> d_less K (k_now K m) ?deadline" using assms by blast
  have "N - calls (called g) < Suc N" by simp
  from run_loop_ends [OF N this, of "request_text ?path ?close" ?close] obtain g2 where
    "run_loop K (request_text ?path ?close) ?close ?deadline (Suc N) (called g) = Some g2" by blast
  then show ?thesis
    using False g
    by (intro exI [of _ "Suc N"])
      (auto simp: loadgen_program_def measure_load_def now_s_def report_line_def Let_def simp del: run_loop.simps)
qed

section \<open>Examples\<close>

text \<open>Exact arithmetic, with rounding that does nothing.\<close>

definition real_ops :: "real double_ops" where
  "real_ops =
     \<lparr>f_int = of_int, f_plus = (+), f_times = (*), f_div = (/), f_size = (\<lambda>x. nat \<lfloor>x\<rfloor>), f_nines = 99.9,
      f_fixed = (\<lambda>k x. int_to_string \<lfloor>x\<rfloor>)\<rparr>"

lemma real_ieee: "ieee real_ops id id"
  by (simp add: ieee_def real_ops_def mono_def)

definition measured_load :: "real loadgen" where
  "measured_load =
     \<lparr>lconns = [], lat = [5, 1, 9, 3], completed = 4, errors = 0, reconnects = 0, watch = Map.empty, calls = 0\<rparr>"

text \<open>The rank of the 90th percentile of four values is \<open>2.7\<close>: it is the third of them, \<open>5\<close>.\<close>

theorem percentiles_are_ranks_witness:
  "rank_of 90 4 = 2.7 \<and> pct real_ops (sort [5, 1, 9, 3]) 90 = 5000 \<and>
   sorted (map (pct real_ops (sort [5, 1, 9, 3])) [50, 90, 99, 99.9] @ [max_ms real_ops (sort [5, 1, 9, 3])])"
proof -
  have vals: "\<forall>v \<in> set (lat measured_load). \<bar>id v\<bar> \<le> 2 ^ 900" by (simp add: measured_load_def)
  have "sorted (map (pct real_ops (sort (lat measured_load))) [f_int real_ops 50, f_int real_ops 90, f_int real_ops 99,
      f_nines real_ops] @ [max_ms real_ops (sort (lat measured_load))])"
    using percentiles_are_ranks [OF real_ieee _ _ vals, of 90] by (simp add: measured_load_def)
  then have "sorted (map (pct real_ops (sort [5, 1, 9, 3])) [50, 90, 99, 99.9] @ [max_ms real_ops (sort [5, 1, 9, 3])])"
    by (simp add: measured_load_def) (simp add: real_ops_def)
  moreover have "rank_of 90 4 = 2.7" by (simp add: rank_of_def)
  moreover have "pct real_ops (sort [5, 1, 9, 3]) 90 = 5000" by (simp add: pct_def pct_index_def) (simp add: real_ops_def)
  ultimately show ?thesis by blast
qed

theorem loadgen_program_ends_witness:
  "\<exists>rounds out. loadgen_program (sample_kernel []) \<lparr>f_int = nat, f_plus = (+), f_times = (*), f_div = (div), f_size = id,
      f_nines = 99, f_fixed = (\<lambda>k. nat_to_string)\<rparr> (\<lambda>s. 3) 0 ''loadgen'' [''h'', ''80'', ''2'', ''3'', ''/x''] rounds = Some out \<and>
    (case out of Exited code o' e \<Rightarrow> code \<noteq> 2 \<and> (code = 0) = (o' \<noteq> []) | Terminated what \<Rightarrow> False)"
proof -
  let ?F = "\<lparr>f_int = nat, f_plus = (+), f_times = (*), f_div = (div), f_size = id, f_nines = 99,
      f_fixed = (\<lambda>k. nat_to_string)\<rparr>" and ?args = "[''h'', ''80'', ''2'', ''3'', ''/x'']"
  have "\<exists>N. \<forall>m \<ge> N. \<not> d_less (sample_kernel []) (k_now (sample_kernel []) m) d" for d
    by (rule exI [of _ d]) (simp add: sample_kernel_def)
  then obtain rounds out where out: "loadgen_program (sample_kernel []) ?F (\<lambda>s. 3) 0 ''loadgen'' ?args rounds = Some out"
    "case out of
       Exited code o' e \<Rightarrow> (code = 2) = (length ?args < 5) \<and> (code = 0) = (o' \<noteq> []) \<and> (code = 0) = (e = [])
     | Terminated what \<Rightarrow> 5 \<le> length ?args \<and> strtol (?args ! 2) < 0"
    using loadgen_program_ends [of "sample_kernel []" ?F "\<lambda>s. 3" 0 "''loadgen''" ?args] by blast
  have "\<not> strtol ''2'' < 0" by code_simp
  then have "case out of Exited code o' e \<Rightarrow> code \<noteq> 2 \<and> (code = 0) = (o' \<noteq> []) | Terminated what \<Rightarrow> False"
    using out(2) by (cases out) simp_all
  with out(1) show ?thesis by blast
qed

end
