(* ===== verification/Micro_Rows.thy ===== *)
theory Micro_Rows
  imports Micro_Bench
begin

text \<open>
  The rows of \<open>bench/microbench.cpp\<close>: the code each of them measures, as a function on what it captures
  that may end the process, and \<open>main\<close>, which prints a title, measures a row, prints it, and so on, until
  it is through or a measured function ends the process. What one run of a row allocates and what the clock
  says are arguments; \<open>double\<close> is a parameter type with its decimal form.
\<close>

section \<open>Parsing\<close>

definition parse_raw :: string where
  "parse_raw =
     ''GET /r500/seg1/seg2?a=1&b=2 HTTP/1.1'' @ CRLF @ ''Host: localhost:8084'' @ CRLF @
     ''User-Agent: bench/1.0'' @ CRLF @ ''Accept: */*'' @ CRLF @ ''Connection: keep-alive'' @ CRLF @ CRLF"

definition parse_raw15 :: string where
  "parse_raw15 =
     concat (map (\<lambda>l. l @ CRLF)
       [''GET /r500/seg1/seg2 HTTP/1.1'', ''Host: h'', ''A: 1'', ''B: 2'', ''C: 3'', ''D: 4'', ''E: 5'', ''F: 6'',
        ''G: 7'', ''H: 8'', ''I: 9'', ''J: 10'', ''K: 11'', ''L: 12'', ''M: 13'', ''N: 14'']) @ CRLF"

text \<open>The state of the handler is the variable \<open>got\<close>; the result says whether \<open>abort()\<close> is called.\<close>

definition parse_aborts :: "'j json_lib \<Rightarrow> 'l llhttp \<Rightarrow> bool" where
  "parse_aborts J L =
     (case execute J L (\<lambda>r ka got. (None, req_method r \<noteq> [])) parse_raw (new_parser L kMaxHeaderBytes) False of
        (ok, p, got) \<Rightarrow> \<not> got)"

definition parse15 :: "'j json_lib \<Rightarrow> 'l llhttp \<Rightarrow> bool \<times> 'l http_parser \<times> unit" where
  "parse15 J L = execute J L (\<lambda>r ka s. (None, s)) parse_raw15 (new_parser L kMaxHeaderBytes) ()"

section \<open>Serialisation\<close>

definition bench_response :: "'j json_lib \<Rightarrow> int \<Rightarrow> 'j response" where
  "bench_response J junk = (new_response J junk)\<lparr>res_protocol := ''HTTP/1.1''\<rparr>"

text \<open>The bytes prepared, or the exception that leaves \<open>main\<close>.\<close>

definition row_json :: "'j json_lib \<Rightarrow> 'j" where
  "row_json J = j_object J [(''id'', j_string J ''42''), (''name'', j_string J ''ada'')]"

definition json_row :: "'j json_lib \<Rightarrow> int \<Rightarrow> string + string" where
  "json_row J junk =
     (case send_json J (row_json J) (set_status 200 (bench_response J junk)) of
        (Some what, r) \<Rightarrow> Inl what
      | (None, r) \<Rightarrow> prepareResponse J (set_content_length (setHeader ''Connection'' ''keep-alive'' r)))"

definition text_row :: "'j json_lib \<Rightarrow> int \<Rightarrow> string + string" where
  "text_row J junk =
     prepareResponse J (setHeader ''Connection'' ''keep-alive''
       (send_text (replicate 1024 (CHR ''x'')) (set_status 200 (bench_response J junk))))"

definition construct_row :: "'j json_lib \<Rightarrow> int \<Rightarrow> 'j response \<times> string" where
  "construct_row J junk = (bench_response J junk, getResponseMessage 200)"

definition row_aborts :: "string + string \<Rightarrow> bool" where
  "row_aborts out = (case out of Inl what \<Rightarrow> True | Inr s \<Rightarrow> s = [])"

section \<open>The measured code\<close>

text \<open>
  The request is the captured variable of the lookups; the other rows capture nothing that they change.
  \<^term>\<open>None\<close> is \<open>abort()\<close>.
\<close>

type_synonym 'j code = "'j request \<Rightarrow> 'j request option"

definition ends_if :: "bool \<Rightarrow> 'j code" where
  "ends_if aborts r = (if aborts then None else Some r)"

definition must_find :: "('j, unit) registry \<Rightarrow> 'j code" where
  "must_find reg r = (case getHandler reg r of (None, r1) \<Rightarrow> None | (Some h, r1) \<Rightarrow> Some r1)"

definition look_up :: "('j, unit) registry \<Rightarrow> 'j code" where
  "look_up reg r = Some (snd (getHandler reg r))"

definition mw_table :: "nat \<Rightarrow> ('j, 'w) registry" where
  "mw_table m = fold (\<lambda>i reg. RegisterMiddleWare reg (UserMw pass_on)) [0..<m] (fillRoutes new_registry 100 3)"

definition copy_aborts :: "nat \<Rightarrow> bool" where
  "copy_aborts m \<longleftrightarrow> length (getMiddleWares (mw_table m :: (unit, unit) registry)) \<noteq> m"

section \<open>What is printed\<close>

text \<open>\<open>printf\<close> with a width: the text is filled up with spaces on the right or on the left.\<close>

definition pad_right :: "nat \<Rightarrow> string \<Rightarrow> string" where
  "pad_right n s = s @ replicate (n - length s) (CHR '' '')"

definition pad_left :: "nat \<Rightarrow> string \<Rightarrow> string" where
  "pad_left n s = replicate (n - length s) (CHR '' '') @ s"

definition columns :: "string \<Rightarrow> string \<Rightarrow> string \<Rightarrow> string \<Rightarrow> string \<Rightarrow> string" where
  "columns a b c d e =
     pad_right 34 a @ '' '' @ pad_right 14 b @ '' '' @ pad_left 10 c @ '' '' @ pad_left 12 d @ '' '' @ pad_left 12 e @ NEWLINE"

text \<open>\<open>decimal k x\<close> is \<open>x\<close> with \<open>k\<close> digits behind the point.\<close>

definition row_text :: "(nat \<Rightarrow> 'd \<Rightarrow> string) \<Rightarrow> string \<Rightarrow> string \<Rightarrow> 'd stat \<Rightarrow> string" where
  "row_text decimal name param s =
     columns name param (decimal 1 (ns_per_op s)) (decimal 1 (allocs_per_op s)) (decimal 0 (bytes_per_op s))"

definition title_text :: "string \<Rightarrow> string" where
  "title_text title =
     NEWLINE @ ''== '' @ title @ '' =='' @ NEWLINE @
     columns ''benchmark'' ''param'' ''ns/op'' ''allocs/op'' ''bytes/op'' @ replicate 86 (CHR ''-'') @ NEWLINE"

text \<open>
  \<open>main\<close> as the list of what it does: print a title, or measure some code from a captured request on for a
  number of iterations and print the row.
\<close>

datatype 'j item = Title string | Row string string int "'j request" "'j code"

definition bench_items :: "'j json_lib \<Rightarrow> 'l llhttp \<Rightarrow> int \<Rightarrow> int \<Rightarrow> 'j item list" where
  "bench_items J L junk iters =
     [Title ''Trie lookup vs route count (fixed path depth 3, hit)''] @
     map (\<lambda>n. Row ''getHandler (hit)'' (nat_to_string n @ '' routes'') (trunc_div iters 4)
         (bench_request J (hit_path n)) (must_find (fillRoutes new_registry n 3))) [10, 100, 1000, 10000] @
     [Title ''Trie lookup vs route count (miss / 404 path)''] @
     map (\<lambda>n. Row ''getHandler (miss)'' (nat_to_string n @ '' routes'') (trunc_div iters 4)
         (bench_request J miss_path) (look_up (fillRoutes new_registry n 3))) [10, 100, 1000, 10000] @
     [Title ''Trie lookup vs path depth (1000 routes)''] @
     map (\<lambda>d. Row ''getHandler (hit)'' (''depth '' @ nat_to_string d) (trunc_div iters 8)
         (bench_request J (depth_path (int d))) (must_find (depth_table (int d)))) [1, 2, 4, 8, 16] @
     [Title ''Parameterized vs literal lookup (1000 routes, depth 3)'',
      Row ''literal hit'' ''1000 routes'' (trunc_div iters 4) (bench_request J ''/r500/seg1/seg2'') (look_up param_table),
      Row ''parameter hit'' ''1000 routes'' (trunc_div iters 4) (bench_request J ''/users/12345/posts'') (look_up param_table),
      Title ''Request parsing (what every request pays)'',
      Row ''HttpParser (llhttp)'' ''5 headers'' iters (new_request J) (ends_if (parse_aborts J L)),
      Row ''HttpParser (llhttp)'' ''15 headers'' iters (new_request J)
        (\<lambda>r. case parse15 J L of (ok, p, u) \<Rightarrow> Some r),
      Title ''Response serialization'',
      Row ''prepareResponse (json, 3 hdrs)'' ''-'' iters (new_request J) (ends_if (row_aborts (json_row J junk))),
      Row ''prepareResponse (text 1KB)'' ''-'' iters (new_request J) (ends_if (row_aborts (text_row J junk))),
      Row ''HttpResponse construction only'' ''-'' iters (new_request J)
        (\<lambda>r. case construct_row J junk of (response, name) \<Rightarrow> Some r),
      Title ''Middleware chain cost vs middleware count''] @
     map (\<lambda>m. Row ''getMiddleWares() copy'' (nat_to_string m @ '' mw'') (trunc_div iters 2) (new_request J)
         (ends_if (copy_aborts m))) [0, 1, 4, 16] @
     [Title ''Full request cycle (parse + route + handler + serialize), no socket''] @
     map (\<lambda>(n, m). Row ''full cycle'' (nat_to_string n @ '' routes, '' @ nat_to_string m @ '' mw'') (trunc_div iters 4)
         (new_request J) (ends_if (snd (full_cycle J L n m junk ((), False)))))
       [(10, 0), (10, 2), (1000, 0), (1000, 2)]"

text \<open>One run of the code of a row, with what it allocates.\<close>

definition row_run :: "(size_t + bool) list \<Rightarrow> 'j code \<Rightarrow> 'j request \<times> alloc \<Rightarrow> ('j request \<times> alloc) option" where
  "row_run es code st = (case code (fst st) of None \<Rightarrow> None | Some r \<Rightarrow> Some (r, fold alloc_op es (snd st)))"

text \<open>
  What is outside the program, for the \<open>k\<close>-th row: the allocations of one run and the time per iteration of
  a repetition; and the arithmetic of \<open>double\<close>.
\<close>

record 'd bench_env =
  allocations :: "nat \<Rightarrow> (size_t + bool) list"
  clock :: "nat \<Rightarrow> nat \<Rightarrow> 'd"
  quot :: "size_t \<Rightarrow> int \<Rightarrow> 'd"
  big :: 'd
  dmin :: "'d \<Rightarrow> 'd \<Rightarrow> 'd"
  b_decimal :: "nat \<Rightarrow> 'd \<Rightarrow> string"

text \<open>What is printed, and whether \<open>main\<close> returns; what is handed to \<open>printf\<close> before an abort is kept.\<close>

fun run_items :: "'d bench_env \<Rightarrow> 'j item list \<Rightarrow> nat \<Rightarrow> alloc \<Rightarrow> string \<times> bool" where
  "run_items E [] k a = (NEWLINE, True)"
| "run_items E (Title t # xs) k a = (case run_items E xs k a of (out, ok) \<Rightarrow> (title_text t @ out, ok))"
| "run_items E (Row name param iters r code # xs) k a =
     (case measure_run (quot E) (clock E k) (big E) (dmin E) iters (row_run (allocations E k) code) (r, a) of
        None \<Rightarrow> ([], False)
      | Some (st, r1, a1) \<Rightarrow>
          (case run_items E xs (k + 1) a1 of (out, ok) \<Rightarrow> (row_text (b_decimal E) name param st @ out, ok)))"

definition bench_main :: "'j json_lib \<Rightarrow> 'l llhttp \<Rightarrow> int \<Rightarrow> 'd bench_env \<Rightarrow> int option \<Rightarrow> string \<times> bool" where
  "bench_main J L junk E arg =
     (let iters = (case arg of None \<Rightarrow> 200000 | Some i \<Rightarrow> i) in
      run_items E (bench_items J L junk iters) 0 \<lparr>a_count = 0, a_bytes = 0, a_frees = 0, a_on = False\<rparr>)"

section \<open>The rows that serialise\<close>

lemma bench_response_facts:
  "headers_safe (set_status 200 (bench_response J junk))"
  "res_protocol (set_status 200 (bench_response J junk)) = ''HTTP/1.1''"
  "status (set_status 200 (bench_response J junk)) = 200"
  by (simp_all add: headers_safe_def bench_response_def set_status_def new_response_def line_safe_def)

text \<open>A framable response with the header of its length, prepared as one string, can be read back.\<close>

lemma prepared_reads_back:
  assumes "framable J r" and "body_payload J (res_body r) = Inr p" and "length p \<le> SIZE_MAX"
    and "res_protocol r = ''HTTP/1.1''" and "status r = 200"
    and "smap_get (res_headers r) ''Content-Length'' = Some (nat_to_string (body_length (res_body r)))"
  shows "\<exists>bytes hs. prepareResponse J r = Inr bytes \<and>
    read_message (bytes @ rest) = Some (''HTTP/1.1 200 OK'', hs, p, rest)"
proof -
  from assms(1) have ok: "body_ok J (res_body r)" "written_type (body_type (res_body r))"
    "line_safe (res_protocol r)" "\<forall>kv \<in> set (res_headers r). header_safe kv" by (simp_all add: framable_def)
  have "length p = body_length (res_body r)" using payload_length [OF ok(1,2)] assms(2) by auto
  then have small: "body_length (res_body r) \<le> SIZE_MAX" using assms(3) by simp
  from response_framing [OF ok assms(6)] obtain hb where hb: "serialize J r 0 True = Inr hb"
    "read_message (wire hb @ rest) = Some (status_line r, res_headers r, p, rest)" using assms(2) by fastforce
  then show ?thesis
    using prepareResponse_wire [OF small, of J 0] status_lines(1) [OF assms(5,4)] by (cases hb) auto
qed

lemma framable_keep_alive:
  assumes "framable J r"
  shows "framable J (setHeader ''Connection'' ''keep-alive'' r)" "framable J (set_content_length (setHeader ''Connection'' ''keep-alive'' r))"
proof -
  have "header_safe (''Connection'', ''keep-alive'')" by (simp add: header_safe_def line_safe_def)
  then have "headers_safe (setHeader ''Connection'' ''keep-alive'' r)"
    using assms by (auto simp: framable_iff)
  then show "framable J (setHeader ''Connection'' ''keep-alive'' r)"
    "framable J (set_content_length (setHeader ''Connection'' ''keep-alive'' r))"
    using assms headers_safe_length [of "setHeader ''Connection'' ''keep-alive'' r"]
    by (simp_all add: framable_iff set_content_length_def setHeader_def)
qed

lemma json_row_reads_back:
  assumes "j_dump J (row_json J) = Inr text" and "length text \<le> SIZE_MAX"
  shows "\<exists>bytes hs. json_row J junk = Inr bytes \<and>
    read_message (bytes @ rest) = Some (''HTTP/1.1 200 OK'', hs, text, rest)"
proof -
  let ?s = "set_status 200 (bench_response J junk)"
  obtain r where r: "send_json J (row_json J) ?s = (None, r)" "status r = 200" "res_protocol r = ''HTTP/1.1''"
    "body_payload J (res_body r) = Inr text" "framable J r"
    using send_json_dump [OF assms(1), of ?s] bench_response_facts [of J junk] by auto
  let ?r = "set_content_length (setHeader ''Connection'' ''keep-alive'' r)"
  have "framable J ?r" using r(5) by (rule framable_keep_alive)
  moreover have "smap_get (res_headers ?r) ''Content-Length'' = Some (nat_to_string (body_length (res_body ?r)))"
    by (simp add: set_content_length_def setHeader_def)
  ultimately obtain bytes hs where "prepareResponse J ?r = Inr bytes"
    "read_message (bytes @ rest) = Some (''HTTP/1.1 200 OK'', hs, text, rest)"
    using prepared_reads_back [of J ?r "text" rest] assms(2) r(2-4)
    by (auto simp: set_content_length_def setHeader_def)
  then show ?thesis using r(1) by (simp add: json_row_def)
qed

lemma text_row_reads_back:
  "\<exists>bytes hs. text_row J junk = Inr bytes \<and>
    read_message (bytes @ rest) = Some (''HTTP/1.1 200 OK'', hs, replicate 1024 (CHR ''x''), rest)"
proof -
  let ?t = "replicate 1024 (CHR ''x'')"
  let ?s = "set_status 200 (bench_response J junk)"
  let ?r = "setHeader ''Connection'' ''keep-alive'' (send_text ?t ?s)"
  have "framable J (send_text ?t ?s)" by (intro framable_send bench_response_facts)
  then have "framable J ?r" by (rule framable_keep_alive)
  moreover have "smap_get (res_headers ?r) ''Content-Length'' = Some (nat_to_string (body_length (res_body ?r)))"
    by (simp add: send_text_def set_content_length_def setHeader_def)
  moreover have "body_payload J (res_body ?r) = Inr ?t" by (simp add: setHeader_def body_payload_def setText_def)
  moreover have "length ?t \<le> SIZE_MAX" by (simp add: SIZE_MAX_def)
  ultimately show ?thesis
    using prepared_reads_back [of J ?r ?t rest] bench_response_facts(2,3) [of J junk]
    by (simp add: text_row_def setHeader_def)
qed

section \<open>The rows that look up and parse\<close>

lemma mw_table_queue: "length (queue (mw_table m :: ('j, 'w) registry)) = m"
proof -
  have "length (queue (fold (\<lambda>i reg. RegisterMiddleWare reg (UserMw pass_on)) xs reg)) = length (queue reg) + length xs"
    for xs :: "nat list" and reg :: "('j, 'w) registry"
    by (induction xs arbitrary: reg) (simp_all add: RegisterMiddleWare_def)
  moreover have "queue (fillRoutes (new_registry :: ('j, 'w) registry) n d) = []" for n d
  proof -
    have "queue (fold (\<lambda>i reg. Register reg m (f i) h) xs reg) = queue reg"
      for xs :: "nat list" and m h and f :: "nat \<Rightarrow> string" and reg :: "('j, 'w) registry"
      by (induction xs arbitrary: reg) (simp_all add: Register_def)
    then show ?thesis by (simp add: fillRoutes_def new_registry_def)
  qed
  ultimately show ?thesis by (simp add: mw_table_def)
qed

text \<open>What is expected of llhttp on the request of the parsing row: it is one message with a method.\<close>

definition parses_row :: "'j json_lib \<Rightarrow> 'l llhttp \<Rightarrow> bool" where
  "parses_row J L \<longleftrightarrow>
     (\<exists>m r l reason. ll_execute L (ll_init L) parse_raw = (msg_events m, l, HPE_OK, reason) \<and> msg_ok 16384 m \<and>
        request_of J m = Inr r \<and> req_method r \<noteq> [])"

lemma parse_row_parses:
  assumes "parses_row J L"
  shows "\<not> parse_aborts J L"
proof -
  obtain m r l reason where m: "ll_execute L (ll_init L) parse_raw = (msg_events m, l, HPE_OK, reason)" "msg_ok 16384 m"
    "request_of J m = Inr r" "req_method r \<noteq> []" using assms by (auto simp: parses_row_def)
  let ?p = "new_parser L kMaxHeaderBytes" and ?h = "\<lambda>r ka got. (None, req_method r \<noteq> [])"
  have p: "lex ?p = ll_init L" "cleared (impl ?p) = new_impl kMaxHeaderBytes"
    by (simp_all add: new_parser_def cleared_def new_impl_def)
  have "limit (new_impl kMaxHeaderBytes) = 16384" by (simp add: new_impl_def kMaxHeaderBytes_def)
  then obtain i where "run_events J ?h (msg_events m) (new_impl kMaxHeaderBytes) False = (True, i, True)"
    using run_msgs [of "new_impl kMaxHeaderBytes" "[m]" J ?h False] m(2-4) by (auto simp: serve_msg_def)
  then show ?thesis
    using execute_eq [of L ?p parse_raw "msg_events m" l HPE_OK reason J ?h False True i True] m(1) p
    by (simp add: parse_aborts_def)
qed

section \<open>A report that is complete\<close>

text \<open>What the table of a row shows when its code runs to the end every time.\<close>

definition measured_stat :: "'d bench_env \<Rightarrow> nat \<Rightarrow> int \<Rightarrow> 'd stat" where
  "measured_stat E k iters =
     \<lparr>ns_per_op = fold (\<lambda>rep least. dmin E least (clock E k rep)) [0..<5] (big E),
      allocs_per_op = quot E (of_nat (nat iters * length (sizes (allocations E k)))) iters,
      bytes_per_op = quot E (of_nat (nat iters) * sum_list (sizes (allocations E k))) iters\<rparr>"

definition runs_always :: "'j code \<Rightarrow> 'j request \<Rightarrow> bool" where
  "runs_always code r \<longleftrightarrow> (\<exists>P. P r \<and> (\<forall>r. P r \<longrightarrow> (\<exists>r'. code r = Some r' \<and> P r')))"

lemma runs_always_if [simp]: "runs_always (ends_if b) r \<longleftrightarrow> \<not> b"
  by (auto simp: runs_always_def ends_if_def intro: exI [of _ "\<lambda>x. True"])

lemma runs_always_Some [simp]: "runs_always Some r"
  by (auto simp: runs_always_def intro: exI [of _ "\<lambda>x. True"])

lemma runs_always_look_up [simp]: "runs_always (look_up reg) r"
  by (auto simp: runs_always_def look_up_def intro: exI [of _ "\<lambda>x. True"])

lemma runs_always_some [simp]: "runs_always (\<lambda>r. case x of (a, b, c) \<Rightarrow> Some r) r0" "runs_always (\<lambda>r. case y of (a, b) \<Rightarrow> Some r) r0"
  by (auto simp: runs_always_def split: prod.split intro: exI [of _ "\<lambda>x. True"])

lemma runs_always_must_find:
  assumes "resolve reg ''GET'' path = Some h"
  shows "runs_always (must_find reg) (bench_request J path)"
proof -
  let ?P = "\<lambda>r. req_method r = ''GET'' \<and> req_path r = path"
  have "\<exists>r'. must_find reg r = Some r' \<and> ?P r'" if "?P r" for r
  proof -
    have "resolve reg (req_method r) (req_path r) = Some h" using assms that by (simp only:)
    then have "must_find reg r = Some (r\<lparr>params := bindings reg (req_method r) (req_path r)\<rparr>)"
      by (simp add: must_find_def getHandler_resolve)
    moreover have "?P (r\<lparr>params := bindings reg (req_method r) (req_path r)\<rparr>)" using that by (cases r) simp
    ultimately show ?thesis by blast
  qed
  moreover have "?P (bench_request J path)" by (simp add: bench_request_def)
  ultimately show ?thesis unfolding runs_always_def by (intro exI [of _ ?P]) blast
qed

lemma row_measured:
  assumes "runs_always code r"
  shows "\<exists>r' a'. measure_run (quot E) (clock E k) (big E) (dmin E) iters (row_run (allocations E k) code) (r, a) =
    Some (measured_stat E k iters, r', a')"
proof -
  obtain P where P: "P r" "\<forall>r. P r \<longrightarrow> (\<exists>r'. code r = Some r' \<and> P r')"
    using assms by (auto simp: runs_always_def)
  then have "\<forall>s a. P s \<longrightarrow> row_run (allocations E k) code (s, a) =
      Some (the (code s), fold alloc_op (allocations E k) a) \<and> P (the (code s))"
    by (fastforce simp: row_run_def)
  from measured_allocations_are_exact [OF this P(1), of "quot E" "clock E k" "big E" "dmin E" iters a]
  show ?thesis by (auto simp: measured_stat_def)
qed

fun items_text :: "'d bench_env \<Rightarrow> 'j item list \<Rightarrow> nat \<Rightarrow> string" where
  "items_text E [] k = NEWLINE"
| "items_text E (Title t # xs) k = title_text t @ items_text E xs k"
| "items_text E (Row name param iters r code # xs) k =
     row_text (b_decimal E) name param (measured_stat E k iters) @ items_text E xs (k + 1)"

fun item_runs :: "'j item \<Rightarrow> bool" where
  "item_runs (Title t) \<longleftrightarrow> True"
| "item_runs (Row name param iters r code) \<longleftrightarrow> runs_always code r"

lemma run_items_complete: "list_all item_runs xs \<Longrightarrow> run_items E xs k a = (items_text E xs k, True)"
proof (induction E xs k a rule: run_items.induct)
  case (3 E name param iters r code xs k a)
  then have "runs_always code r" by simp
  with row_measured obtain r' a' where
    m: "measure_run (quot E) (clock E k) (big E) (dmin E) iters (row_run (allocations E k) code) (r, a) =
      Some (measured_stat E k iters, r', a')"
    by blast
  from 3(1) [OF m] 3(2) have "run_items E xs (k + 1) a' = (items_text E xs (k + 1), True)" by simp
  with m show ?case by simp
qed simp_all

lemma bench_items_run:
  assumes "parses_row J L" and "j_dump J (row_json J) = Inr text" and "length text \<le> SIZE_MAX"
  shows "list_all item_runs (bench_items J L junk iters)"
proof -
  have hit: "runs_always (must_find (fillRoutes new_registry n 3)) (bench_request J (hit_path n))" if "0 < n" for n
    by (rule runs_always_must_find [OF hit_resolves [OF that]])
  have depth: "runs_always (must_find (depth_table d)) (bench_request J (depth_path d))" for d
    by (rule runs_always_must_find [OF depth_resolves])
  have "\<not> row_aborts (json_row J junk)"
    using json_row_reads_back [OF assms(2,3), of junk "[]"]
    by (auto simp: row_aborts_def json_row_def prepareResponse_nonempty split: prod.splits option.splits)
  moreover have "\<not> row_aborts (text_row J junk)"
    using text_row_reads_back [of J junk "[]"] by (auto simp: row_aborts_def text_row_def prepareResponse_nonempty)
  moreover have "\<not> copy_aborts m" for m by (simp add: copy_aborts_def getMiddleWares_def mw_table_queue)
  moreover have "\<not> snd (full_cycle J L n m junk ((), False))" for n m
    using middleware_rows_run_no_middleware [THEN conjunct2, of J L n m junk "((), False)"] by simp
  ultimately show ?thesis
    using hit depth parse_row_parses [OF assms(1)] by (simp add: bench_items_def)
qed

text \<open>The tables in full: titles, and for each row its name, its parameter and the divisor of the iterations.\<close>

definition bench_table :: "(string \<times> (string \<times> string \<times> int) list) list" where
  "bench_table =
     [(''Trie lookup vs route count (fixed path depth 3, hit)'',
       [(''getHandler (hit)'', ''10 routes'', 4), (''getHandler (hit)'', ''100 routes'', 4),
        (''getHandler (hit)'', ''1000 routes'', 4), (''getHandler (hit)'', ''10000 routes'', 4)]),
      (''Trie lookup vs route count (miss / 404 path)'',
       [(''getHandler (miss)'', ''10 routes'', 4), (''getHandler (miss)'', ''100 routes'', 4),
        (''getHandler (miss)'', ''1000 routes'', 4), (''getHandler (miss)'', ''10000 routes'', 4)]),
      (''Trie lookup vs path depth (1000 routes)'',
       [(''getHandler (hit)'', ''depth 1'', 8), (''getHandler (hit)'', ''depth 2'', 8), (''getHandler (hit)'', ''depth 4'', 8),
        (''getHandler (hit)'', ''depth 8'', 8), (''getHandler (hit)'', ''depth 16'', 8)]),
      (''Parameterized vs literal lookup (1000 routes, depth 3)'',
       [(''literal hit'', ''1000 routes'', 4), (''parameter hit'', ''1000 routes'', 4)]),
      (''Request parsing (what every request pays)'',
       [(''HttpParser (llhttp)'', ''5 headers'', 1), (''HttpParser (llhttp)'', ''15 headers'', 1)]),
      (''Response serialization'',
       [(''prepareResponse (json, 3 hdrs)'', ''-'', 1), (''prepareResponse (text 1KB)'', ''-'', 1),
        (''HttpResponse construction only'', ''-'', 1)]),
      (''Middleware chain cost vs middleware count'',
       [(''getMiddleWares() copy'', ''0 mw'', 2), (''getMiddleWares() copy'', ''1 mw'', 2),
        (''getMiddleWares() copy'', ''4 mw'', 2), (''getMiddleWares() copy'', ''16 mw'', 2)]),
      (''Full request cycle (parse + route + handler + serialize), no socket'',
       [(''full cycle'', ''10 routes, 0 mw'', 4), (''full cycle'', ''10 routes, 2 mw'', 4),
        (''full cycle'', ''1000 routes, 0 mw'', 4), (''full cycle'', ''1000 routes, 2 mw'', 4)])]"

fun rows_text :: "'d bench_env \<Rightarrow> int \<Rightarrow> nat \<Rightarrow> (string \<times> string \<times> int) list \<Rightarrow> string" where
  "rows_text E iters k [] = []"
| "rows_text E iters k ((name, param, d) # rows) =
     row_text (b_decimal E) name param (measured_stat E k (trunc_div iters d)) @ rows_text E iters (k + 1) rows"

fun report_text :: "'d bench_env \<Rightarrow> int \<Rightarrow> nat \<Rightarrow> (string \<times> (string \<times> string \<times> int) list) list \<Rightarrow> string" where
  "report_text E iters k [] = NEWLINE"
| "report_text E iters k ((title, rows) # ss) =
     title_text title @ rows_text E iters k rows @ report_text E iters (k + length rows) ss"

lemma numerals:
  "nat_to_string 0 = ''0''" "nat_to_string 1 = ''1''" "nat_to_string 2 = ''2''" "nat_to_string 4 = ''4''"
  "nat_to_string 8 = ''8''" "nat_to_string 10 = ''10''" "nat_to_string 16 = ''16''" "nat_to_string 100 = ''100''"
  "nat_to_string 1000 = ''1000''" "nat_to_string 10000 = ''10000''"
  by (simp_all add: nat_to_string.simps char_of_def bit_Suc_0_iff)

lemma trunc_div_1 [simp]: "trunc_div i 1 = i"
  by (simp add: trunc_div_def)

text \<open>The text of a list of rows with the same divisor does not depend on their code.\<close>

lemma items_text_rows:
  "items_text E (map (\<lambda>x. Row (nm x) (pr x) (trunc_div iters d) (s x) (c x)) xs @ ys) k =
     rows_text E iters k (map (\<lambda>x. (nm x, pr x, d)) xs) @ items_text E ys (k + length xs)"
  by (induction xs arbitrary: k) simp_all

lemma items_text_report: "items_text E (bench_items J L junk iters) 0 = report_text E iters 0 bench_table"
proof -
  have pairs: "map (\<lambda>(n, m). Row ''full cycle'' (nat_to_string n @ '' routes, '' @ nat_to_string m @ '' mw'') i r (c n m)) xs =
      map (\<lambda>x. Row ''full cycle'' (nat_to_string (fst x) @ '' routes, '' @ nat_to_string (snd x) @ '' mw'') i r
        (c (fst x) (snd x))) xs" for i r c and xs :: "(nat \<times> nat) list"
    by (simp add: case_prod_beta)
  have end_rows: "items_text E (map (\<lambda>x. Row (nm x) (pr x) (trunc_div iters d) (s x) (c x)) xs) k =
      rows_text E iters k (map (\<lambda>x. (nm x, pr x, d)) xs) @ NEWLINE" for nm pr d s c k and xs :: "(nat \<times> nat) list"
    using items_text_rows [of E nm pr iters d s c xs "[]" k] by simp
  show ?thesis
    unfolding bench_items_def pairs append.simps items_text.simps items_text_rows end_rows append_assoc
    by (simp add: bench_table_def numerals numerals [unfolded One_nat_def])
qed

section \<open>Properties\<close>

text \<open>
  C32: The benchmark runs to its end: with a parser that finds the request and a JSON value that can be dumped,
  no run of any measured code aborts, for any number of iterations, and the program prints its eight tables
  with all twenty-eight rows in order, the row numbered \<open>k\<close> with the least of its five times and with the
  allocations and bytes of its own code per iteration, untouched by the rows and the warm-up before it.
\<close>

theorem bench_main_completes:
  assumes "parses_row J L" and "j_dump J (row_json J) = Inr text" and "length text \<le> SIZE_MAX"
  shows "bench_main J L junk E (Some iters) = (report_text E iters 0 bench_table, True)"
  by (simp add: bench_main_def run_items_complete [OF bench_items_run [OF assms]] items_text_report)

text \<open>
  The layout: the line of the titles is as long as the ruler below it, and so is every row whose
  fields fit their columns.
\<close>

lemma columns_length:
  assumes "length a \<le> 34" and "length b \<le> 14" and "length c \<le> 10" and "length d \<le> 12" and "length e \<le> 12"
  shows "length (columns a b c d e) = 87"
  using assms by (simp add: columns_def pad_right_def pad_left_def NEWLINE_def)

theorem rows_are_aligned:
  assumes "length name \<le> 34" and "length param \<le> 14" and "length (decimal 1 (ns_per_op s)) \<le> 10"
    and "length (decimal 1 (allocs_per_op s)) \<le> 12" and "length (decimal 0 (bytes_per_op s)) \<le> 12"
  shows "length (row_text decimal name param s) = length (replicate 86 (CHR ''-'') @ NEWLINE) \<and>
    (\<exists>head. title_text title = NEWLINE @ ''== '' @ title @ '' =='' @ NEWLINE @ head @ replicate 86 (CHR ''-'') @ NEWLINE \<and>
       length head = length (row_text decimal name param s))"
  using assms columns_length [of "''benchmark''" "''param''" "''ns/op''" "''allocs/op''" "''bytes/op''"]
  by (auto simp: row_text_def title_text_def columns_length) (simp add: NEWLINE_def)

section \<open>Examples\<close>

definition row_msg :: msg where
  "row_msg =
     \<lparr>m_target = [''/r500/seg1/seg2?a=1&b=2''], m_headers = [([''Host''], [''localhost:8084''])], m_body = [],
      m_method = ''GET'', m_major = 1, m_minor = 1, m_keep = True\<rparr>"

text \<open>Every run allocates 32 bytes, the five times are \<open>105\<close> to \<open>101\<close>, and numbers are printed as they are.\<close>

definition sample_env :: "nat bench_env" where
  "sample_env =
     \<lparr>allocations = (\<lambda>k. [Inl 32, Inr True]), clock = (\<lambda>k rep. 105 - rep), quot = (\<lambda>w i. unat w div nat i), big = 1000,
      dmin = min, b_decimal = (\<lambda>k. nat_to_string)\<rparr>"

theorem bench_main_completes_witness:
  "\<exists>out. bench_main text_json (script_ll (msg_events row_msg)) 7 sample_env (Some 20) = (out, True) \<and>
     prefix (title_text ''Trie lookup vs route count (fixed path depth 3, hit)'' @
       row_text (\<lambda>k. nat_to_string) ''getHandler (hit)'' ''10 routes''
         \<lparr>ns_per_op = 101, allocs_per_op = 1, bytes_per_op = 32\<rparr>) out"
proof -
  have ok: "msg_ok 16384 row_msg" by code_simp
  have "case request_of text_json row_msg of Inl what \<Rightarrow> False | Inr r \<Rightarrow> req_method r \<noteq> []" by code_simp
  then have row: "parses_row text_json (script_ll (msg_events row_msg))"
    using ok by (cases "request_of text_json row_msg") (auto simp: parses_row_def script_ll_def)
  have dump: "j_dump text_json (row_json text_json) = Inr (row_json text_json)" by simp
  have "length (row_json text_json) \<le> SIZE_MAX" by (simp add: row_json_def SIZE_MAX_def)
  from bench_main_completes [OF row dump this]
  have out: "bench_main text_json (script_ll (msg_events row_msg)) 7 sample_env (Some 20) =
      (report_text sample_env 20 0 bench_table, True)" .
  have "measured_stat sample_env 0 5 = \<lparr>ns_per_op = 101, allocs_per_op = 1, bytes_per_op = 32\<rparr>"
    by (simp add: measured_stat_def sample_env_def upt_rec)
  moreover have "b_decimal sample_env = (\<lambda>k. nat_to_string)" by (simp add: sample_env_def)
  ultimately show ?thesis
    unfolding out by (simp add: bench_table_def trunc_div_def prefix_def)
qed

theorem rows_are_aligned_witness:
  "length (row_text (\<lambda>k x. x) ''literal hit'' ''1000 routes'' \<lparr>ns_per_op = ''85.1'', allocs_per_op = ''3.0'', bytes_per_op = ''96''\<rparr>) =
     length (replicate 86 (CHR ''-'') @ NEWLINE)"
  by (rule rows_are_aligned [THEN conjunct1]) simp_all

end
