(* ===== verification/Lookup_Cost.thy ===== *)
theory Lookup_Cost
  imports Routing_Trie
begin

text \<open>
  What a lookup costs (\<open>Node::findFrom\<close> of \<open>src/trie.cpp\<close>): the number of calls, one for each node that
  is visited. The README says that a lookup costs one step per path segment, whether the path matches
  or not. That is so where no parameter stands beside a literal; in general the search visits every
  node whose pattern covers a beginning of the path, which may be all of them.
\<close>

section \<open>The search with a counter\<close>

fun findFrom_steps :: "'h node \<Rightarrow> string list \<Rightarrow> strmap \<Rightarrow> ('h node option \<times> strmap) \<times> nat" where
  "findFrom_steps node [] params = ((if handler node \<noteq> None then Some node else None, params), 1)"
| "findFrom_steps node (segment # segments) params =
     (case (case map_of (children node) segment of
              Some literal \<Rightarrow> findFrom_steps literal segments params
            | None \<Rightarrow> ((None, params), 0)) of
        ((Some hit, params1), k) \<Rightarrow> ((Some hit, params1), k + 1)
      | ((None, params1), k) \<Rightarrow>
          (case paramChild node of
             None \<Rightarrow> ((None, params1), k + 1)
           | Some child \<Rightarrow>
               let name = parameterName child; previous = smap_get params1 name in
               (case findFrom_steps child segments (smap_set name segment params1) of
                  ((Some hit, params2), j) \<Rightarrow> ((Some hit, params2), k + j + 1)
                | ((None, params2), j) \<Rightarrow>
                    ((None, case previous of
                              Some saved \<Rightarrow> smap_set name saved params2
                            | None \<Rightarrow> smap_erase name params2), k + j + 1))))"

definition lookup_steps :: "'h trie \<Rightarrow> string \<Rightarrow> strmap \<Rightarrow> nat" where
  "lookup_steps t path params = snd (findFrom_steps (root t) (split path ''/'') params)"

text \<open>The counter changes nothing else.\<close>

lemma findFrom_steps_result: "fst (findFrom_steps n ss ps) = findFrom (n :: 'h node) ss ps"
proof (induction ss arbitrary: n ps)
  case (Cons s ss)
  have split: "findFrom m ss qs = (r, qs')" if "findFrom_steps m ss qs = ((r, qs'), k)" for m :: "'h node" and qs r qs' k
    using Cons.IH [of m qs] that by simp
  obtain r1 ps1 k1 where lit: "(case map_of (children n) s of Some c \<Rightarrow> findFrom_steps c ss ps | None \<Rightarrow> ((None, ps), 0)) =
      ((r1, ps1), k1)" by (metis surj_pair)
  then have lit': "(case map_of (children n) s of Some c \<Rightarrow> findFrom c ss ps | None \<Rightarrow> (None, ps)) = (r1, ps1)"
    by (auto dest: split split: option.splits)
  show ?case
  proof (cases "r1 = None \<and> paramChild n \<noteq> None")
    case True
    then obtain d where d: "paramChild n = Some d" by auto
    obtain r2 ps2 k2 where rest: "findFrom_steps d ss (smap_set (parameterName d) s ps1) = ((r2, ps2), k2)" by (metis surj_pair)
    show ?thesis unfolding findFrom_steps.simps(2) findFrom.simps(2) lit lit' using True d rest split [OF rest]
      by (cases r2) (simp_all add: Let_def)
  next
    case False
    then show ?thesis unfolding findFrom_steps.simps(2) findFrom.simps(2) lit lit' by (cases r1) auto
  qed
qed simp

section \<open>The nodes on the way\<close>

text \<open>The patterns that cover a beginning of the path; those that have a node may be visited.\<close>

definition way_patterns :: "string list \<Rightarrow> pattern list" where
  "way_patterns ss = concat (map candidates (prefixes ss))"

definition on_way :: "'h node \<Rightarrow> string list \<Rightarrow> nat" where
  "on_way n ss = length (filter (\<lambda>p. node_at n p \<noteq> None) (way_patterns ss))"

lemma way_patterns_Nil: "way_patterns [] = [[]]"
  by (simp add: way_patterns_def)

lemma length_filter_concat: "length (filter P (concat xss)) = sum_list (map (\<lambda>xs. length (filter P xs)) xss)"
  by (induction xss) simp_all

lemma on_way_Nil [simp]: "on_way n [] = 1"
  by (simp add: on_way_def way_patterns_Nil)

lemma on_way_Cons:
  "on_way (n :: 'h node) (s # ss) = 1 + (case child_at n (Lit s) of None \<Rightarrow> 0 | Some c \<Rightarrow> on_way c ss) +
     (case child_at n Par of None \<Rightarrow> 0 | Some c \<Rightarrow> on_way c ss)"
proof -
  have via: "length (filter (\<lambda>p. node_at n p \<noteq> None) (map ((#) x) ps)) =
      (case child_at n x of None \<Rightarrow> 0 | Some c \<Rightarrow> length (filter (\<lambda>p. node_at c p \<noteq> None) ps))" for x ps
    by (cases "child_at n x") (simp_all add: filter_map comp_def)
  have "on_way n (s # ss) = 1 + (\<Sum>t\<leftarrow>prefixes ss. length (filter (\<lambda>p. node_at n p \<noteq> None) (candidates (s # t))))"
    by (simp add: on_way_def way_patterns_def length_filter_concat comp_def)
  also have "\<dots> = 1 + ((\<Sum>t\<leftarrow>prefixes ss. case child_at n (Lit s) of None \<Rightarrow> 0
        | Some c \<Rightarrow> length (filter (\<lambda>p. node_at c p \<noteq> None) (candidates t))) +
      (\<Sum>t\<leftarrow>prefixes ss. case child_at n Par of None \<Rightarrow> 0
        | Some c \<Rightarrow> length (filter (\<lambda>p. node_at c p \<noteq> None) (candidates t))))"
    by (simp only: candidates.simps filter_append length_append via sum_list_addf)
  also have "\<dots> = 1 + ((case child_at n (Lit s) of None \<Rightarrow> 0 | Some c \<Rightarrow> on_way c ss) +
      (case child_at n Par of None \<Rightarrow> 0 | Some c \<Rightarrow> on_way c ss))"
    by (cases "child_at n (Lit s)"; cases "child_at n Par")
      (simp_all add: on_way_def way_patterns_def length_filter_concat comp_def)
  finally show ?thesis by simp
qed

lemma steps_on_way:
  "snd (findFrom_steps n ss ps) \<le> on_way (n :: 'h node) ss \<and>
   (fst (fst (findFrom_steps n ss ps)) = None \<longrightarrow> snd (findFrom_steps n ss ps) = on_way n ss)"
proof (induction ss arbitrary: n ps)
  case (Cons s ss)
  have step: "k \<le> on_way m ss \<and> (r = None \<longrightarrow> k = on_way m ss)" if "findFrom_steps m ss qs = ((r, qs'), k)"
    for m :: "'h node" and qs r qs' k
    using Cons.IH [of m qs] that by simp
  show ?case unfolding on_way_Cons child_at_def seg.case
    by (auto simp: Let_def dest!: step split: option.splits prod.splits)
qed simp

lemma on_way_exp: "on_way (n :: 'h node) ss < 2 ^ (length ss + 1)"
proof (induction ss arbitrary: n)
  case (Cons s ss)
  have "(case x of None \<Rightarrow> 0 | Some c \<Rightarrow> on_way c ss) < 2 ^ (length ss + 1)" for x :: "'h node option"
    using Cons.IH by (cases x) simp_all
  from this [of "child_at n (Lit s)"] this [of "child_at n Par"] show ?case unfolding on_way_Cons by simp
qed simp

section \<open>The nodes of a table\<close>

lemma node_at_insert_segments:
  "node_at (insert_segments (n :: 'h node) ss h) p \<noteq> None \<longleftrightarrow> node_at n p \<noteq> None \<or> prefix p (pattern_of ss)"
proof (induction ss arbitrary: n p)
  case Nil
  show ?case by (cases p) (simp_all add: pattern_of_def)
next
  case (Cons s ss)
  show ?case
  proof (cases "s = []")
    case True
    with Cons.IH [of n p] show ?thesis by (simp add: pattern_of_def)
  next
    case False
    show ?thesis
    proof (cases p)
      case (Cons q qs)
      have "node_at (new_node s) qs \<noteq> None \<longleftrightarrow> qs = []" by (cases qs) simp_all
      then show ?thesis using False Cons.IH [of _ qs] by (cases "child_at n q") (auto simp: Cons child_at_insertChild pattern_of_def)
    qed simp
  qed
qed

lemma node_at_empty [simp]: "node_at empty_node p \<noteq> None \<longleftrightarrow> p = []"
  by (cases p) simp_all

lemma node_at_insert_all:
  "node_at (root (insert_all regs t)) p \<noteq> None \<longleftrightarrow>
     node_at (root t) p \<noteq> None \<or> (\<exists>(q, h) \<in> set regs. prefix p (key_pattern q))"
proof (induction regs arbitrary: t)
  case (Cons r regs)
  obtain q h where r: "r = (q, h)" by (cases r)
  have "node_at (root (trie_insert t q h)) p \<noteq> None \<longleftrightarrow> node_at (root t) p \<noteq> None \<or> prefix p (key_pattern q)"
    using node_at_insert_segments [of "root t" "split q ''/''" h p]
    by (simp add: trie_insert_def node_insert_def key_pattern_def)
  moreover have "insert_all (r # regs) t = insert_all regs (trie_insert t q h)" by (simp add: insert_all_def r)
  ultimately show ?case using Cons.IH [of "trie_insert t q h"] by (auto simp: r)
qed (simp add: insert_all_def)

lemma lookup_on_way:
  "on_way (root (insert_all regs new_trie)) ss =
     length (filter (\<lambda>p. p = [] \<or> list_ex (\<lambda>(q, h). prefix p (key_pattern q)) regs) (way_patterns ss))"
proof -
  have "node_at (root (insert_all regs new_trie)) p \<noteq> None \<longleftrightarrow> p = [] \<or> list_ex (\<lambda>(q, h). prefix p (key_pattern q)) regs" for p
    unfolding node_at_insert_all by (simp add: new_trie_def list_ex_iff del: not_None_eq)
  then show ?thesis by (simp only: on_way_def)
qed

section \<open>Tables without parameters\<close>

lemma on_way_literal:
  "(\<And>p. node_at n p \<noteq> None \<Longrightarrow> Par \<notin> set p) \<Longrightarrow> on_way (n :: 'h node) ss \<le> length ss + 1"
proof (induction ss arbitrary: n)
  case (Cons s ss)
  have par: "child_at n Par = None" using Cons.prems [of "[Par]"] by (cases "child_at n Par") auto
  show ?case
  proof (cases "child_at n (Lit s)")
    case (Some c)
    then have "on_way c ss \<le> length ss + 1" using Cons.prems [of "Lit s # p" for p] by (intro Cons.IH) auto
    then show ?thesis by (simp add: on_way_Cons par Some)
  qed (simp add: on_way_Cons par)
qed simp

section \<open>A table that is scanned\<close>

text \<open>\<open>2 ^ k\<close> routes: at each of \<open>k\<close> places the literal \<open>a\<close> or a parameter, then the literal \<open>b\<close>.\<close>

definition wide_table :: "'h \<Rightarrow> nat \<Rightarrow> (string \<times> 'h option) list" where
  "wide_table h k = map (\<lambda>p. (join_path SLASH (p @ [''b'']), Some h)) (List.n_lists k [''a'', '':p''])"

definition deep_path :: "nat \<Rightarrow> string" where
  "deep_path k = join_path SLASH (replicate k ''a'' @ [''c''])"

lemma split_deep_path: "split (deep_path k) ''/'' = replicate k ''a'' @ [''c'']"
  unfolding deep_path_def by (rule split_join_path) auto

lemma wide_table_patterns:
  "list_ex (\<lambda>(q, h). P (key_pattern q)) (wide_table h k) \<longleftrightarrow>
     (\<exists>p. length p = k \<and> set p \<subseteq> {Lit ''a'', Par} \<and> P (p @ [Lit ''b'']))"
proof -
  have key: "key_pattern (join_path SLASH (q @ [''b''])) = map pat_seg q @ [Lit ''b'']"
    if "set q \<subseteq> {''a'', '':p''}" for q
  proof -
    have "split (join_path SLASH (q @ [''b''])) ''/'' = q @ [''b'']" using that by (intro split_join_path) auto
    moreover have "filter (\<lambda>s. s \<noteq> []) q = q" using that by (auto intro: filter_True)
    ultimately show ?thesis by (simp add: key_pattern_def pattern_of_def) (simp add: pat_seg_def)
  qed
  have seg: "pat_seg ''a'' = Lit ''a''" "pat_seg '':p'' = Par" by (simp_all add: pat_seg_def)
  show ?thesis
  proof
    assume "list_ex (\<lambda>(q, h). P (key_pattern q)) (wide_table h k)"
    then obtain q where "length q = k" "set q \<subseteq> {''a'', '':p''}" "P (map pat_seg q @ [Lit ''b''])"
      using key by (auto simp: list_ex_iff wide_table_def set_n_lists)
    then show "\<exists>p. length p = k \<and> set p \<subseteq> {Lit ''a'', Par} \<and> P (p @ [Lit ''b''])"
      using seg by (intro exI [of _ "map pat_seg q"]) auto
  next
    assume "\<exists>p. length p = k \<and> set p \<subseteq> {Lit ''a'', Par} \<and> P (p @ [Lit ''b''])"
    then obtain p where p: "length p = k" "set p \<subseteq> {Lit ''a'', Par}" "P (p @ [Lit ''b''])" by blast
    let ?q = "map (\<lambda>x. if x = Par then '':p'' else ''a'') p"
    have "map pat_seg ?q = p" using p(2) seg by (intro map_idI [THEN trans [OF map_map]]) (auto simp: comp_def)
    moreover have q: "set ?q \<subseteq> {''a'', '':p''}" by auto
    ultimately have "P (key_pattern (join_path SLASH (?q @ [''b''])))" using key [of ?q] p(3) by simp
    moreover have "?q \<in> set (List.n_lists k [''a'', '':p''])" using q p(1) by (simp only: set_n_lists) auto
    then have "(join_path SLASH (?q @ [''b'']), Some h) \<in> set (wide_table h k)" unfolding wide_table_def set_map by blast
    ultimately show "list_ex (\<lambda>(q, h). P (key_pattern q)) (wide_table h k)" unfolding list_ex_iff by blast
  qed
qed

lemma length_way_patterns: "length (way_patterns ss) + 1 = 2 ^ (length ss + 1)"
proof (induction ss)
  case (Cons s ss)
  have "length (way_patterns (s # ss)) = 1 + 2 * length (way_patterns ss)"
    by (simp add: way_patterns_def length_concat comp_def sum_list_const_mult mult_2 sum_list_addf)
  with Cons.IH show ?case by simp
qed (simp add: way_patterns_Nil)

lemma way_pattern_covers: "p \<in> set (way_patterns ss) \<longleftrightarrow> (\<exists>t. prefix t ss \<and> covers p t)"
  by (auto simp: way_patterns_def candidates_covers)

lemma covers_replicate: "covers p (replicate j s) \<longleftrightarrow> length p = j \<and> set p \<subseteq> {Lit s, Par}"
  by (auto simp: covers_def list_all2_conv_all_nth set_conv_nth)

lemma prefix_replicate: "prefix t (replicate k x) \<Longrightarrow> t = replicate (length t) x"
  by (metis in_set_replicate replicate_eqI set_mono_prefix subsetD)

text \<open>All patterns on the way of the deep path but the last ones have a node, and the last ones have none.\<close>

abbreviation has_node :: "(string \<times> 'h option) list \<Rightarrow> pattern \<Rightarrow> bool" where
  "has_node regs p \<equiv> p = [] \<or> list_ex (\<lambda>(q, h). prefix p (key_pattern q)) regs"

lemma wide_table_has: "p \<in> set (way_patterns (replicate k ''a'')) \<Longrightarrow> has_node (wide_table h k) p"
proof -
  assume "p \<in> set (way_patterns (replicate k ''a''))"
  then obtain t where t: "prefix t (replicate k ''a'')" "covers p t" by (auto simp: way_pattern_covers)
  then have "length p = length t" "set p \<subseteq> {Lit ''a'', Par}"
    using covers_replicate [of p "length t" "''a''"] prefix_replicate [OF t(1)] by auto
  moreover have "length t \<le> k" using prefix_length_le [OF t(1)] by simp
  ultimately show ?thesis unfolding wide_table_patterns
    by (intro disjI2 exI [of _ "p @ replicate (k - length p) (Lit ''a'')"]) auto
qed

lemma wide_table_has_not: "covers p (replicate k ''a'' @ [''c'']) \<Longrightarrow> \<not> has_node (wide_table h k) p"
proof -
  assume p: "covers p (replicate k ''a'' @ [''c''])"
  then have len: "length p = k + 1" by (auto simp: covers_def dest: list_all2_lengthD)
  have "p ! k = Par \<or> p ! k = Lit ((replicate k ''a'' @ [''c'']) ! k)"
    using p len unfolding covers_def list_all2_conv_all_nth by auto
  moreover have "p \<noteq> []" using len by auto
  then have "last p = p ! k" using last_conv_nth [of p] len by simp
  ultimately have "last p \<noteq> Lit ''b''" by (auto simp: nth_append)
  show ?thesis
  proof
    assume "has_node (wide_table h k) p"
    then obtain q where q: "length q = k" "prefix p (q @ [Lit ''b''])" using \<open>p \<noteq> []\<close> unfolding wide_table_patterns by blast
    then obtain zs where zs: "q @ [Lit ''b''] = p @ zs" by (auto simp: prefix_def)
    have "length zs = 0" using arg_cong [OF zs, of length] q(1) len by simp
    with zs have "p = q @ [Lit ''b'']" by simp
    with \<open>last p \<noteq> Lit ''b''\<close> show False by simp
  qed
qed

lemma wide_table_way:
  "filter (has_node (wide_table h k)) (way_patterns (replicate k ''a'' @ [''c''])) = way_patterns (replicate k ''a'')"
proof -
  have "way_patterns (replicate k ''a'' @ [''c'']) = way_patterns (replicate k ''a'') @ candidates (replicate k ''a'' @ [''c''])"
    by (simp add: way_patterns_def prefixes_snoc)
  moreover have "filter (has_node (wide_table h k)) (way_patterns (replicate k ''a'')) = way_patterns (replicate k ''a'')"
    by (intro filter_True ballI wide_table_has)
  moreover have "filter (has_node (wide_table h k)) (candidates (replicate k ''a'' @ [''c''])) = []"
    by (intro filter_False ballI wide_table_has_not) (simp add: candidates_covers)
  ultimately show ?thesis by simp
qed

section \<open>Properties\<close>

lemma lookup_steps_way:
  fixes regs :: "(string \<times> 'h option) list"
  defines "t \<equiv> insert_all regs new_trie"
  shows "lookup_steps t path params \<le> on_way (root t) (split path ''/'')"
    and "fst (searchNode t path params) = None \<Longrightarrow> lookup_steps t path params = on_way (root t) (split path ''/'')"
  using steps_on_way [of "root t" "split path ''/''" params]
  by (simp_all add: lookup_steps_def searchNode_def node_find_def findFrom_steps_result)

text \<open>
  C19: The cost of a lookup in any table: a miss takes exactly as many steps as there are patterns that
  begin a registered route and cover a beginning of the path, a hit at most as many. They are fewer
  than \<open>2 ^ (n + 1)\<close> for a path of \<open>n\<close> segments, however many routes there are. Counting the steps does
  not change what the search finds.
\<close>

theorem lookup_visits_the_way:
  "let t = insert_all regs new_trie; segments = split path ''/'';
       way = length (filter (\<lambda>p. p = [] \<or> list_ex (\<lambda>(q, h). prefix p (key_pattern q)) regs) (way_patterns segments))
   in fst (findFrom_steps (root t) segments params) = searchNode t path params \<and>
      (if fst (searchNode t path params) = None then lookup_steps t path params = way
       else lookup_steps t path params \<le> way) \<and>
      way < 2 ^ (length segments + 1)"
proof -
  have "fst (findFrom_steps (root t) (split path ''/'') params) = searchNode t path params" for t :: "'a trie"
    by (simp add: searchNode_def node_find_def findFrom_steps_result)
  then show ?thesis
    using lookup_steps_way [where regs = regs and path = path and params = params]
      on_way_exp [of "root (insert_all regs new_trie)" "split path ''/''"]
    by (simp add: Let_def lookup_on_way [symmetric])
qed

text \<open>
  Where no route has a parameter, a lookup costs one step per path segment and one for the root,
  whether the path matches or not.
\<close>

theorem literal_tables_cost_one_step_per_segment:
  assumes "\<forall>(q, h) \<in> set regs. Par \<notin> set (key_pattern q)"
  shows "lookup_steps (insert_all regs new_trie) path params \<le> length (split path ''/'') + 1"
proof -
  have "Par \<notin> set p" if "node_at (root (insert_all regs new_trie)) p \<noteq> None" for p
  proof -
    have "p = [] \<or> (\<exists>(q, h) \<in> set regs. prefix p (key_pattern q))"
      using that unfolding node_at_insert_all by (simp add: new_trie_def del: not_None_eq)
    then show ?thesis using assms by (auto dest!: set_mono_prefix)
  qed
  then show ?thesis by (intro order_trans [OF lookup_steps_way(1)] on_way_literal)
qed

theorem literal_tables_cost_one_step_per_segment_witness:
  "lookup_steps (insert_all [(''/users'', Some 1), (''/users/new'', Some (2 :: nat))] new_trie) ''/users/old'' [] \<le> 3"
proof -
  have "Par \<notin> set (key_pattern ''/users'')" "Par \<notin> set (key_pattern ''/users/new'')" by code_simp+
  moreover have "length (split ''/users/old'' ''/'') = 2" by code_simp
  ultimately show ?thesis
    using literal_tables_cost_one_step_per_segment [of "[(''/users'', Some 1), (''/users/new'', Some (2 :: nat))]" "''/users/old''" "[]"]
    by simp
qed

text \<open>
  C36: A lookup can visit more nodes than there are routes, and so cost more than a scan over every
  registered route: with \<open>2 ^ k\<close> routes in which literals and parameters meet at \<open>k\<close> places, the search
  for a path of \<open>k + 1\<close> segments that matches none of them takes \<open>2 ^ (k + 1) - 1\<close> steps.
\<close>

theorem lookup_can_cost_more_than_a_scan:
  "let t = insert_all (wide_table h k) new_trie in
   length (wide_table h k) = 2 ^ k \<and> length (split (deep_path k) ''/'') = k + 1 \<and>
   fst (searchNode t (deep_path k) []) = None \<and> lookup_steps t (deep_path k) [] = 2 ^ (k + 1) - 1"
proof -
  let ?t = "insert_all (wide_table h k) new_trie" and ?ss = "replicate k ''a'' @ [''c'']"
  have "routes (root ?t) p = None" if "covers p ?ss" for p
  proof -
    have "node_at (root ?t) p = None"
      using wide_table_has_not [OF that, of h] node_at_insert_all [of "wide_table h k" new_trie p]
      by (simp add: list_ex_iff new_trie_def del: not_None_eq)
    then show ?thesis by (simp add: routes_def)
  qed
  then have miss: "fst (searchNode ?t (deep_path k) []) = None"
    using best_None_iff [of "routes (root ?t)" ?ss] by (simp add: searchNode_spec find_spec_def split_deep_path)
  have "lookup_steps ?t (deep_path k) [] = on_way (root ?t) ?ss"
    using lookup_steps_way(2) [OF miss] by (simp add: split_deep_path)
  also have "\<dots> = length (way_patterns (replicate k ''a''))" unfolding lookup_on_way wide_table_way ..
  also have "\<dots> = 2 ^ (k + 1) - 1" using length_way_patterns [of "replicate k ''a''"] by simp
  finally have "lookup_steps ?t (deep_path k) [] = 2 ^ (k + 1) - 1" .
  moreover have "length (wide_table h k) = 2 ^ k" by (simp add: wide_table_def length_n_lists numeral_2_eq_2)
  ultimately show ?thesis using miss by (simp add: Let_def split_deep_path)
qed

end
