(* ===== verification/App_Routing.thy ===== *)
theory App_Routing
  imports Http_Server
begin

text \<open>
  The routing of a whole application: a server with any number of mounted routers, each with any
  number of sub-routers, and with routes of its own (\<open>src/HttpServer.cpp\<close>, \<open>src/Router.cpp\<close>). The
  specification is a function from the method and the path to the route that answers; what the
  sources build from nested closures is shown to follow it.
\<close>

section \<open>The specification\<close>

text \<open>
  The route that answers: its handler, the path and the parameters the handler sees, and the path
  that is put back afterwards, if any (only \<open>Router::use\<close> puts one back).
\<close>

type_synonym ('j, 'w) target = "('j, 'w) act \<times> string \<times> strmap \<times> string option"

text \<open>
  The path a router sees. Below a mount point of the server a path goes on with a slash or ends; below
  that of a sub-router it goes on in any way, and a slash is put in front.
\<close>

definition below_mount :: "string \<Rightarrow> string \<Rightarrow> string option" where
  "below_mount np path =
     (if np = ''/'' then Some path
      else if path = np then Some ''/''
      else if prefix (np @ ''/'') path then Some (drop (length np) path) else None)"

definition below_sub :: "string \<Rightarrow> string \<Rightarrow> string option" where
  "below_sub np path =
     (if prefix np path
      then Some (let rest = drop (length np) path in if prefix ''/'' rest then rest else SLASH # rest) else None)"

fun sub_target ::
  "('j, 'w) store \<Rightarrow> string \<Rightarrow> string \<Rightarrow> (string \<times> rid) list \<Rightarrow> ('j, 'w) target option" where
  "sub_target \<sigma> m path [] = None"
| "sub_target \<sigma> m path ((np, r) # subs) =
     (case Option.bind (below_sub np path) (\<lambda>rel.
          map_option (\<lambda>h. (h, rel, bindings (rregistry (\<sigma> r)) m rel, Some path)) (resolve (rregistry (\<sigma> r)) m rel)) of
        Some t \<Rightarrow> Some t
      | None \<Rightarrow> sub_target \<sigma> m path subs)"

definition router_target ::
  "('j, 'w) store \<Rightarrow> string \<Rightarrow> string \<Rightarrow> rid \<Rightarrow> (string \<times> rid) list \<Rightarrow> ('j, 'w) target option" where
  "router_target \<sigma> m path r subs =
     (case sub_target \<sigma> m path subs of
        Some t \<Rightarrow> Some t
      | None \<Rightarrow> map_option (\<lambda>h. (h, path, bindings (rregistry (\<sigma> r)) m path, None)) (resolve (rregistry (\<sigma> r)) m path))"

text \<open>A mount: the normalized mount point, the router, and its sub-routers.\<close>

type_synonym mount = "string \<times> rid \<times> (string \<times> rid) list"

definition mount_target :: "('j, 'w) store \<Rightarrow> string \<Rightarrow> string \<Rightarrow> mount \<Rightarrow> ('j, 'w) target option" where
  "mount_target \<sigma> m path mount =
     (case mount of (np, r, subs) \<Rightarrow> Option.bind (below_mount np path) (\<lambda>rel. router_target \<sigma> m rel r subs))"

fun app_target :: "('j, 'w) store \<Rightarrow> string \<Rightarrow> string \<Rightarrow> mount list \<Rightarrow> ('j, 'w) target option" where
  "app_target \<sigma> m path [] = None"
| "app_target \<sigma> m path (mount # mounts) =
     (case mount_target \<sigma> m path mount of Some t \<Rightarrow> Some t | None \<Rightarrow> app_target \<sigma> m path mounts)"

definition serve_target :: "('j, 'w) target \<Rightarrow> ('j, 'w) act" where
  "serve_target t c =
     (case t of (h, path, ps, back_to) \<Rightarrow>
        and_then (h (c\<lparr>req := (req c)\<lparr>req_path := path, params := ps\<rparr>\<rparr>))
          (\<lambda>c2. Ret (case back_to of None \<Rightarrow> c2 | Some p \<Rightarrow> set_path p c2)))"

text \<open>The whole application: the mounts in their order, then \<open>final\<close>.\<close>

definition dispatch_app :: "('j, 'w) store \<Rightarrow> mount list \<Rightarrow> ('j, 'w) act \<Rightarrow> ('j, 'w) act" where
  "dispatch_app \<sigma> mounts final c =
     (case app_target \<sigma> (req_method (req c)) (cpath c) mounts of Some t \<Rightarrow> serve_target t c | None \<Rightarrow> final c)"

section \<open>What the sources build\<close>

text \<open>Several calls of \<open>Router::use(path, subRouter)\<close>, and of \<open>HttpServer::use(path, router)\<close>.\<close>

definition use_subs :: "rid \<Rightarrow> (string \<times> rid) list \<Rightarrow> ('j, 'w) store \<Rightarrow> ('j, 'w) store" where
  "use_subs self subs \<sigma> = fold (\<lambda>(path, sub) \<sigma>. router_use \<sigma> self path sub) subs \<sigma>"

definition use_routers ::
  "('j, 'w) store \<Rightarrow> (string \<times> rid) list \<Rightarrow> ('j, 'w) registry \<Rightarrow> ('j, 'w) registry" where
  "use_routers \<sigma> mounts reg = fold (\<lambda>(path, r) reg. server_use \<sigma> reg path r) mounts reg"

text \<open>The sub-routers of a router whose middleware is all made by \<open>Router::use(path, subRouter)\<close>.\<close>

fun subs_of :: "('j, 'w) middleware list \<Rightarrow> (string \<times> rid) list option" where
  "subs_of [] = Some []"
| "subs_of (SubRouter np r # mws) = map_option ((#) (np, r)) (subs_of mws)"
| "subs_of (_ # mws) = None"

definition mount_of :: "('j, 'w) store \<Rightarrow> string \<times> rid \<Rightarrow> mount" where
  "mount_of \<sigma> m = (normalizePath (fst m), snd m, the (subs_of (queue (rregistry (\<sigma> (snd m))))))"

lemma subs_of_SomeD: "subs_of mws = Some subs \<Longrightarrow> mws = map (\<lambda>(np, r). SubRouter np r) subs"
  by (induction mws arbitrary: subs rule: subs_of.induct) auto

lemma subs_of_subs [simp]: "subs_of (map (\<lambda>(np, r). SubRouter np r) subs) = Some subs"
  by (induction subs) auto

lemma queue_use_subs:
  "queue (rregistry (use_subs self subs \<sigma> self)) =
     queue (rregistry (\<sigma> self)) @ map (\<lambda>(p, r). SubRouter (normalizePath p) r) subs"
proof (induction subs arbitrary: \<sigma>)
  case (Cons s subs)
  have "queue (rregistry (router_use \<sigma> self p r self)) = queue (rregistry (\<sigma> self)) @ [SubRouter (normalizePath p) r]" for p r
    by (simp add: router_use_def Let_def setMountPath_def RegisterMiddleWare_def)
  with Cons.IH show ?case by (cases s) (simp add: use_subs_def)
qed (simp add: use_subs_def)

lemma queue_use_routers:
  assumes "\<forall>(p, r) \<in> set mounts. subs_of (queue (rregistry (\<sigma> r))) \<noteq> None"
  shows "queue (use_routers \<sigma> mounts reg) = queue reg @
    map (\<lambda>(np, r, subs). MountedRouter np (map (\<lambda>(np, r). SubRouter np r) subs @ [RouterRoutes r])) (map (mount_of \<sigma>) mounts)"
  using assms
proof (induction mounts arbitrary: reg)
  case (Cons m mounts)
  obtain p r where m: "m = (p, r)" by (cases m)
  with Cons.prems obtain subs where subs: "subs_of (queue (rregistry (\<sigma> r))) = Some subs" by auto
  have "queue (server_use \<sigma> reg p r) = queue reg @
      [MountedRouter (normalizePath p) (map (\<lambda>(np, r). SubRouter np r) subs @ [RouterRoutes r])]"
    by (simp add: server_use_def RegisterMiddleWare_def getMiddlewares_def getMiddleWares_def
        server_normalize_eq subs_of_SomeD [OF subs])
  then show ?case using Cons.IH [of "server_use \<sigma> reg p r"] Cons.prems
    by (simp add: use_routers_def m mount_of_def subs)
qed (simp add: use_routers_def)

lemma trie_use_routers [simp]: "trie (use_routers \<sigma> mounts reg) = trie reg"
  unfolding use_routers_def
  by (induction mounts arbitrary: reg) (auto simp: server_use_def RegisterMiddleWare_def)

lemma trie_use_subs [simp]: "trie (rregistry (use_subs self subs \<sigma> r)) = trie (rregistry (\<sigma> r))"
  unfolding use_subs_def
  by (induction subs arbitrary: \<sigma>)
    (auto simp: router_use_def setMountPath_def update_registry_def RegisterMiddleWare_def Let_def)

lemma same_trie_resolves: "trie g = trie g' \<Longrightarrow> resolve g = resolve g' \<and> bindings g = bindings g'"
  by (simp add: fun_eq_iff resolve_def bindings_def table_def cong: option.case_cong)

section \<open>A mount follows its specification\<close>

lemma below_mount_eq: "below_mount np path = (if server_matches np path then Some (server_relative np path) else None)"
proof -
  have "drop (length np) path \<noteq> [] \<and> hd (drop (length np) path) = SLASH" if "prefix (np @ ''/'') path"
    using that by (auto simp: prefix_def)
  then show ?thesis
    unfolding below_mount_def server_matches_iff server_relative_def sub_relative_def Let_def by auto
qed

lemma below_sub_eq: "below_sub np path = (if prefix np path then Some (sub_relative np path) else None)"
proof -
  have "prefix ''/'' rest \<longleftrightarrow> rest \<noteq> [] \<and> hd rest = SLASH" for rest by (cases rest) auto
  then show ?thesis by (auto simp: below_sub_def sub_relative_def Let_def)
qed

lemma sub_chain:
  "executeMiddlewareChain 0 (map (run_sub \<sigma>) subs) final c =
     (case sub_target \<sigma> (req_method (req c)) (cpath c) subs of Some t \<Rightarrow> serve_target t c | None \<Rightarrow> final c)"
proof (induction subs)
  case (Cons s subs)
  obtain np r where s: "s = (np, r)" by (cases s)
  show ?case
  proof (cases "sub_serves \<sigma> s c")
    case True
    then show ?thesis
      by (auto simp: s sub_serves_def run_sub_def run_sub_router_def HandleRequest_resolve Let_def serve_target_def
        set_path_def below_sub_eq)
  next
    case False
    then show ?thesis using Cons.IH
      by (auto simp: sub_mounts.pass) (auto simp: s sub_serves_def below_sub_eq split: option.splits)
  qed
qed simp

definition run_full :: "('j, 'w) store \<Rightarrow> mount \<Rightarrow> ('j, 'w) mw_fun" where
  "run_full \<sigma> mount =
     (case mount of (np, r, subs) \<Rightarrow>
        run_mw \<sigma> (MountedRouter np (map (\<lambda>(np, r). SubRouter np r) subs @ [RouterRoutes r])))"

lemma run_full_eq:
  "run_full \<sigma> mount nxt c =
     (case mount_target \<sigma> (req_method (req c)) (cpath c) mount of Some t \<Rightarrow> serve_target t c | None \<Rightarrow> nxt c)"
proof -
  obtain np r subs where mount: "mount = (np, r, subs)" by (cases mount)
  show ?thesis
  proof (cases "server_matches np (cpath c)")
    case False
    then show ?thesis by (simp add: run_full_def mount mount_target_def run_mounted_def below_mount_eq)
  next
    case True
    let ?rel = "server_relative np (cpath c)" and ?m = "req_method (req c)"
    let ?c = "set_path ?rel c" and ?final = "\<lambda>c'. nxt (set_path (cpath c) c')"
    have c: "cpath ?c = ?rel" "req_method (req ?c) = ?m" "set_path (cpath c) ?c = c" by simp_all
    have serve: "serve_target t ?c = serve_target t c" for t
      by (simp add: serve_target_def set_path_def)
    have subs: "map (run_sub \<sigma>) subs = map (\<lambda>m. run_sub_router (rregistry (\<sigma> (snd m))) (fst m)) subs"
      by (simp add: run_sub_def)
    have "run_full \<sigma> mount nxt c =
        executeMiddlewareChain 0 (map (run_sub \<sigma>) subs @ [run_router_routes (rregistry (\<sigma> r))]) ?final ?c"
      unfolding subs using True by (simp add: run_full_def mount run_mounted_def executeRouterChain_eq comp_def case_prod_beta)
    also have "\<dots> = (case sub_target \<sigma> ?m ?rel subs of Some t \<Rightarrow> serve_target t c
        | None \<Rightarrow> run_router_routes (rregistry (\<sigma> r)) ?final ?c)"
      unfolding chain_append sub_chain c by (simp add: serve split: option.split)
    also have "run_router_routes (rregistry (\<sigma> r)) ?final ?c =
        (case resolve (rregistry (\<sigma> r)) ?m ?rel of
           Some h \<Rightarrow> serve_target (h, ?rel, bindings (rregistry (\<sigma> r)) ?m ?rel, None) c | None \<Rightarrow> nxt c)"
    proof (cases "resolve (rregistry (\<sigma> r)) ?m ?rel")
      case None
      then have "run_router_routes (rregistry (\<sigma> r)) ?final ?c = ?final ?c"
        by (intro run_router_routes_None) simp
      with None show ?thesis by simp
    next
      case (Some h)
      have "and_then out Ret = out" for out :: "('a, 'b) outcome" by (cases out) simp_all
      then show ?thesis using Some run_router_routes_Some [of "rregistry (\<sigma> r)" ?c h ?final]
        by (simp add: serve_target_def set_path_def)
    qed
    finally show ?thesis using True by (auto simp: mount mount_target_def router_target_def below_mount_eq split: option.split)
  qed
qed

text \<open>A whole mount, with its sub-routers, is invisible to the requests it does not serve.\<close>

interpretation full_mounts: mount_family "run_full \<sigma>"
  "\<lambda>mount c. mount_target \<sigma> (req_method (req c)) (cpath c) mount \<noteq> None" for \<sigma>
  by unfold_locales (auto simp: run_full_eq split: option.split)

lemma full_chain: "executeMiddlewareChain 0 (map (run_full \<sigma>) mounts) final = dispatch_app \<sigma> mounts final"
proof
  show "executeMiddlewareChain 0 (map (run_full \<sigma>) mounts) final c = dispatch_app \<sigma> mounts final c" for c
  proof (induction mounts)
    case (Cons mount mounts)
    show ?case
    proof (cases "mount_target \<sigma> (req_method (req c)) (cpath c) mount")
      case None
      then show ?thesis using full_mounts.chain_skip [of "[mount]" \<sigma> c "map (run_full \<sigma>) mounts" final] Cons.IH
        by (simp add: dispatch_app_def)
    next
      case (Some t)
      then show ?thesis by (simp add: dispatch_app_def run_full_eq)
    qed
  qed (simp add: dispatch_app_def)
qed

lemma application_routing:
  assumes "\<forall>(p, r) \<in> set mounts. subs_of (queue (rregistry (\<sigma> r))) \<noteq> None"
  shows "run_chain J \<sigma>1 (use_routers \<sigma> mounts reg) =
    executeMiddlewareChain 0 (map (run_mw \<sigma>1) (queue reg)) (dispatch_app \<sigma>1 (map (mount_of \<sigma>) mounts) (runRoute J reg))"
proof -
  have full: "map (run_mw \<sigma>1) (map (\<lambda>(np, r, subs). MountedRouter np (map (\<lambda>(np, r). SubRouter np r) subs @ [RouterRoutes r])) ms) =
      map (run_full \<sigma>1) ms" for ms
    by (simp add: run_full_def case_prod_beta del: run_mw.simps)
  have "runRoute J (use_routers \<sigma> mounts reg) = runRoute J reg"
    by (simp add: fun_eq_iff runRoute_def getHandler_def)
  then show ?thesis
    unfolding run_chain_eq queue_use_routers [OF assms] map_append chain_append full full_chain by simp
qed


section \<open>Properties\<close>

text \<open>
  C6: The middleware of the server, then its mounts as the specification says: an application built
  by calls of \<open>Router::use\<close> and \<open>HttpServer::use\<close>, with any routers, mount points, sub-routers and
  routes, runs the middleware registered before the mounts and at their end the route that the
  specification picks; if it picks none, the routes of the server. Routes may be added after mounting
  (\<open>\<sigma>1\<close> is the store when the request arrives).
\<close>

theorem application_follows_specification:
  assumes "\<forall>(p, r) \<in> set mounts. subs_of (queue (rregistry (\<sigma> r))) \<noteq> None"
  shows "run_chain J \<sigma>1 (use_routers \<sigma> mounts reg) =
    executeMiddlewareChain 0 (map (run_mw \<sigma>1) (queue reg)) (dispatch_app \<sigma>1 (map (mount_of \<sigma>) mounts) (runRoute J reg))"
  using assms by (rule application_routing)

text \<open>
  Routers for examples: router 3 is a sub-router of router 2, and both are mounted.
\<close>

definition sample_routers :: "(string, unit) act \<Rightarrow> (string, unit) store" where
  "sample_routers h = (\<lambda>r.
     \<lparr>mountPath = [], rregistry = Register new_registry ''GET'' (if r = 2 then ''/users'' else ''/items'') (Some h)\<rparr>)"

definition sample_app_store :: "(string, unit) act \<Rightarrow> (string, unit) store" where
  "sample_app_store h = use_subs 2 [(''more/'', 3)] (sample_routers h)"

definition sample_mounts :: "(string \<times> rid) list" where
  "sample_mounts = [(''/x'', 3), (''api'', 2)]"

lemma sample_queues:
  "queue (rregistry (sample_app_store h 2)) = [SubRouter ''/more'' 3]"
  "queue (rregistry (sample_app_store h 3)) = []"
  by (simp_all add: sample_app_store_def queue_use_subs sample_routers_def normalizePath_def Register_def new_registry_def)
    (simp add: use_subs_def router_use_def setMountPath_def sample_routers_def Register_def new_registry_def Let_def)

lemma sample_mounts_of:
  "map (mount_of (sample_app_store h)) sample_mounts = [(''/x'', 3, []), (''/api'', 2, [(''/more'', 3)])]"
  by (simp add: sample_mounts_def mount_of_def normalizePath_def sample_queues)

lemma sample_app_target:
  "app_target (sample_app_store h) ''GET'' ''/api/more/items'' [(''/x'', 3, []), (''/api'', 2, [(''/more'', 3)])] =
     Some (h, ''/items'', [], Some ''/more/items'')"
proof -
  have same: "resolve (rregistry (sample_app_store h 3)) = resolve (rregistry (sample_routers h 3))"
    "bindings (rregistry (sample_app_store h 3)) = bindings (rregistry (sample_routers h 3))"
    using same_trie_resolves [of "rregistry (sample_app_store h 3)" "rregistry (sample_routers h 3)"]
    by (simp_all add: sample_app_store_def)
  have "resolve (rregistry (sample_routers h 3)) ''GET'' ''/items'' = Some h"
    by (rule resolve_literal_route [of _ "''/items''"])
      (simp_all add: sample_routers_def literal_path_def split_eq_tokens c_str_def)
  moreover have "bindings (Register new_registry ''GET'' ''/items'' (Some h) :: (string, unit) registry) ''GET'' ''/items'' = []"
    by code_simp
  moreover have "bindings (rregistry (sample_routers h 3)) ''GET'' ''/items'' = []"
    by (simp add: sample_routers_def) code_simp
  ultimately show ?thesis
    by (simp add: same mount_target_def below_mount_def below_sub_def router_target_def)
qed

theorem application_follows_specification_witness:
  "run_chain text_json (sample_app_store Ret) (use_routers (sample_app_store Ret) sample_mounts new_registry)
       (start_ctx text_json 7 (get_request ''/api/more/items'') ()) =
     Ret (start_ctx text_json 7 ((get_request ''/more/items'')\<lparr>params := []\<rparr>) ())"
proof -
  have "\<forall>(p, r) \<in> set sample_mounts. subs_of (queue (rregistry (sample_app_store Ret r))) \<noteq> None"
    by (simp add: sample_mounts_def sample_queues)
  from application_follows_specification [OF this, of text_json "sample_app_store Ret" new_registry]
  show ?thesis
    by (simp add: sample_mounts_of dispatch_app_def start_ctx_def sample_app_target serve_target_def set_path_def get_request_def
        del: app_target.simps)
qed

end
