(* ===== verification/Text_Pages.thy ===== *)
theory Text_Pages
  imports Http_Server
begin

text \<open>
  Handlers that answer a text: what they put into the response, that it is framed, and the way from
  the bytes of a request for a plain path to the bytes a client reads.
\<close>

section \<open>Handlers and requests\<close>

text \<open>A handler that answers a text, and a message whose target is an encoded path.\<close>

definition text_handler :: "string \<Rightarrow> ('j, 'w) act" where
  "text_handler t c = Ret (c\<lparr>res := send_text t (set_status 200 (res c))\<rparr>)"

definition path_message :: "string \<Rightarrow> string \<Rightarrow> msg \<Rightarrow> bool" where
  "path_message m p msg \<longleftrightarrow>
     m_method msg = m \<and> concat (m_target msg) = urlEncode p \<and> concat (m_body msg) = []"

text \<open>A path that can be registered and requested literally.\<close>

definition plain_path :: "string \<Rightarrow> bool" where
  "plain_path p \<longleftrightarrow> literal_path p \<and> CHR ''?'' \<notin> set p \<and> \<not> sublist ''://'' p"

definition text_response :: "'j json_lib \<Rightarrow> int \<Rightarrow> string \<Rightarrow> 'j response" where
  "text_response J junk t =
     send_text t (set_status 200 ((new_response J junk)\<lparr>res_protocol := ''HTTP/1.1''\<rparr>))"

lemma text_response_eq:
  "text_response J junk t =
     \<lparr>message = [], status = 200, res_protocol = ''HTTP/1.1'',
      res_headers = [(''Content-Length'', nat_to_string (length t)),
                     (''Content-Type'', ''text/html; charset=utf-8'')],
      res_body = setText t (new_body J)\<rparr>"
  by (simp add: text_response_def send_text_def set_status_def new_response_def set_content_length_def
      setHeader_def body_length_def setText_def)

lemma status_line_text_response: "status_line (text_response J junk t) = ''HTTP/1.1 200 OK''"
proof -
  have "int_to_string 200 = ''200''" "getResponseMessage 200 = ''OK''" by code_simp+
  then show ?thesis by (simp add: status_line_def text_response_eq)
qed

lemma framable_text_response: "framable J (text_response J junk t)"
proof -
  have "header_safe (''Content-Length'', nat_to_string n)" for n
    by (simp add: header_safe_def) (simp add: line_safe_def)
  moreover have "header_safe (''Content-Type'', ''text/html; charset=utf-8'')"
    by (simp add: header_safe_def line_safe_def)
  ultimately have "\<forall>kv \<in> set (res_headers (text_response J junk t)). header_safe kv"
    by (simp add: text_response_eq)
  then show ?thesis
    by (simp add: framable_def) (simp add: text_response_eq written_type_def body_ok_def setText_def
        line_safe_def)
qed

lemma payload_text_response: "body_payload J (res_body (text_response J junk t)) = Inr t"
  by (simp add: text_response_eq body_payload_def setText_def)

lemma request_of_path_message:
  assumes "path_message m p msg" and "plain_path p"
  shows "\<exists>r. request_of J msg = Inr r \<and> req_method r = m \<and> req_path r = p"
proof -
  have "p \<noteq> []" "CHR ''?'' \<notin> set p" "\<not> sublist ''://'' p"
    using assms(2) by (auto simp: plain_path_def literal_path_def)
  with assms(1) show ?thesis
    by (simp add: request_of_def build_request_def path_message_def applyTarget_encoded Let_def)
qed

lemma run_chain_text:
  assumes "queue reg = []" and "resolve reg (req_method r) (req_path r) = Some (text_handler t)"
  shows "\<exists>c. run_chain J \<sigma> reg (start_ctx J junk r w) = Ret c \<and> res c = text_response J junk t \<and>
    world c = w \<and> req_method (req c) = req_method r"
proof -
  have "resolve reg (req_method (req (start_ctx J junk r w))) (cpath (start_ctx J junk r w)) =
      Some (text_handler t)"
    using assms(2) by (simp add: start_ctx_def)
  from runRoute_found [OF this, of J] show ?thesis
    unfolding run_chain_no_middleware [OF assms(1)]
    by (simp add: text_handler_def start_ctx_def text_response_def)
qed

lemma read_one_request:
  assumes "ll_execute L (lex p) data = (msg_events msg, l, HPE_OK, reason)"
    and "at_start (impl p)" and "msg_ok (limit (impl p)) msg" and "request_of J msg = Inr r"
    and "handleRequest J \<sigma> reg (junk 0) r (m_keep msg) False w =
      \<lparr>h_exc = None, h_close = cl, h_head = head, h_body = body, h_world = w'\<rparr>"
  shows "\<exists>p1. read_data J L \<sigma> reg junk data p w =
    Inr (p1, \<lparr>io_world = w', io_close = cl, io_writes = [(head, body)]\<rparr>)"
proof -
  have "serve_msgs J (on_request J \<sigma> reg junk) [msg] \<lparr>io_world = w, io_close = False, io_writes = []\<rparr> =
      (True, \<lparr>io_world = w', io_close = cl, io_writes = [] @ [(head, body)]\<rparr>)"
    using assms(4,5) by (intro serve_msgs_answers [where rs = "[r]"]) simp_all
  then show ?thesis
    using read_data_msgs [of L p data "[msg]" l reason J \<sigma> reg junk w] assms(1-3) by auto
qed

text \<open>A chain that answers a text, from the bytes that were read to what the client reads.\<close>

lemma text_answer_end_to_end:
  assumes "ll_execute L (lex p) data = (msg_events msg, l, HPE_OK, reason)"
    and "at_start (impl p)" and "msg_ok (limit (impl p)) msg" and "request_of J msg = Inr r"
    and "run_chain J \<sigma> reg (start_ctx J (junk 0) r w) = Ret c" and "res c = text_response J (junk 0) t"
    and "world c = w" and "req_method (req c) = ''GET''"
  shows "\<exists>p1 hb hs. read_data J L \<sigma> reg junk data p w =
      Inr (p1, \<lparr>io_world = w, io_close = \<not> m_keep msg, io_writes = [hb]\<rparr>) \<and>
    read_message (wire hb @ rest) = Some (''HTTP/1.1 200 OK'', hs, t, rest)"
proof -
  have "framable J (res c)" "req_method (req c) \<noteq> ''HEAD''"
    using assms(6,8) framable_text_response [of J "junk 0" t] by simp_all
  from handleRequest_framed [OF assms(5) this, of "m_keep msg" False rest]
  obtain head body where h: "handleRequest J \<sigma> reg (junk 0) r (m_keep msg) False w =
      \<lparr>h_exc = None, h_close = \<not> m_keep msg, h_head = head, h_body = body, h_world = w\<rparr>"
    "read_message (wire (head, body) @ rest) = Some (''HTTP/1.1 200 OK'',
      res_headers (finish_response (\<not> m_keep msg) (res c)), t, rest)"
    using assms(6,7) by (auto simp: payload_text_response status_line_text_response)
  from read_one_request [where junk = junk, OF assms(1-4) h(1)] h(2) show ?thesis by blast
qed

end
