(* ===== verification/Site.thy ===== *)
theory Site
  imports Connection App_Routing Text_Pages
begin

text \<open>
  A whole site: a server with mounted routers, sub-routers and routes of its own whose handlers show
  pages, in its event loop. The specification is the page of a request; the theorem says that on every
  connection, in every trace of the loop, a client reads the pages of its requests.
\<close>

section \<open>The specification\<close>

text \<open>
  The route of a request and what its handler sees: the first mount that has one, in the order of
  mounting, then the routes of the server.
\<close>

definition site_route ::
  "('j, 'w) store \<Rightarrow> mount list \<Rightarrow> ('j, 'w) registry \<Rightarrow> 'j request \<Rightarrow> (('j, 'w) act \<times> 'j request) option" where
  "site_route \<sigma> mounts reg r =
     (case app_target \<sigma> (req_method r) (req_path r) mounts of
        Some (h, p, ps, back_to) \<Rightarrow> Some (h, r\<lparr>req_path := p, params := ps\<rparr>)
      | None \<Rightarrow> map_option (\<lambda>h. (h, r\<lparr>params := bindings reg (req_method r) (req_path r)\<rparr>))
          (resolve reg (req_method r) (req_path r)))"

text \<open>The answer, when \<open>pg\<close> says what each handler answers to a request.\<close>

type_synonym ('j, 'w) pages = "('j, 'w) act \<Rightarrow> 'j request \<Rightarrow> answer"

definition site_answer ::
  "'j json_lib \<Rightarrow> ('j, 'w) store \<Rightarrow> mount list \<Rightarrow> ('j, 'w) registry \<Rightarrow> ('j, 'w) pages \<Rightarrow> 'j request \<Rightarrow> answer" where
  "site_answer J \<sigma> mounts reg pg r =
     (case site_route \<sigma> mounts reg r of
        Some (h, r') \<Rightarrow> pg h r'
      | None \<Rightarrow> (''HTTP/1.1 404 Not Found'',
          case j_dump J (not_found_json J r) of Inl what \<Rightarrow> None
          | Inr t \<Rightarrow> if req_method r = ''HEAD'' then None else Some t))"

text \<open>A handler that answers a request with \<open>a\<close>, whatever the state of the world, which it may change.\<close>

definition shows_page :: "'j json_lib \<Rightarrow> ('j, 'w) act \<Rightarrow> 'j request \<Rightarrow> answer \<Rightarrow> bool" where
  "shows_page J h r a \<longleftrightarrow>
     (\<forall>junk w. \<exists>c. h (start_ctx J junk r w) = Ret c \<and> framable J (res c) \<and>
        req_method (req c) = req_method r \<and> reply_of J c = a)"

text \<open>
  What is asked of a request: its route, if any, shows what \<open>pg\<close> says, and when there is none the
  library can print the 404 body, which contains the path.
\<close>

definition site_serves ::
  "'j json_lib \<Rightarrow> ('j, 'w) store \<Rightarrow> mount list \<Rightarrow> ('j, 'w) registry \<Rightarrow> ('j, 'w) pages \<Rightarrow> 'j request \<Rightarrow> bool" where
  "site_serves J \<sigma> mounts reg pg r \<longleftrightarrow>
     (case site_route \<sigma> mounts reg r of
        Some (h, r') \<Rightarrow> shows_page J h r' (pg h r')
      | None \<Rightarrow> (\<exists>t. j_dump J (not_found_json J r) = Inr t))"

text \<open>
  Middleware that passes the request on and changes nothing but the world, before and after: a logger,
  a timer.
\<close>

definition passes :: "('j, 'w) mw_fun \<Rightarrow> bool" where
  "passes mw \<longleftrightarrow>
     (\<exists>f g. \<forall>nxt c. mw nxt c = and_then (nxt (c\<lparr>world := f c\<rparr>)) (\<lambda>c2. Ret (c2\<lparr>world := g c c2\<rparr>)))"

lemma passes_before: "passes (\<lambda>nxt c. nxt (c\<lparr>world := f c\<rparr>))"
proof -
  have "and_then out (\<lambda>c. Ret (c\<lparr>world := world c\<rparr>)) = out" for out :: "('a, 'b) outcome" by (cases out) simp_all
  then show ?thesis unfolding passes_def by (intro exI [of _ f] exI [of _ "\<lambda>c. world"]) simp
qed

section \<open>The server follows it\<close>

lemma passing_chain:
  assumes "\<forall>mw \<in> set mws. passes mw"
  shows "\<exists>f g. \<forall>c. executeMiddlewareChain 0 mws final c = and_then (final (c\<lparr>world := f c\<rparr>)) (\<lambda>c2. Ret (c2\<lparr>world := g c c2\<rparr>))"
  using assms
proof (induction mws)
  case Nil
  have "and_then out (\<lambda>c. Ret (c\<lparr>world := world c\<rparr>)) = out" for out :: "('a, 'b) outcome" by (cases out) simp_all
  then show ?case by (intro exI [of _ world] exI [of _ "\<lambda>c. world"]) simp
next
  case (Cons mw mws)
  then obtain f g where fg:
    "\<And>c. executeMiddlewareChain 0 mws final c = and_then (final (c\<lparr>world := f c\<rparr>)) (\<lambda>c2. Ret (c2\<lparr>world := g c c2\<rparr>))" by auto
  obtain f' g' where mw: "\<And>nxt c. mw nxt c = and_then (nxt (c\<lparr>world := f' c\<rparr>)) (\<lambda>c2. Ret (c2\<lparr>world := g' c c2\<rparr>))"
    using Cons.prems by (auto simp: passes_def)
  have "and_then (and_then out k) k' = and_then out (\<lambda>c. and_then (k c) k')" for out :: "('a, 'b) outcome" and k k'
    by (cases out) simp_all
  then show ?case
    by (intro exI [of _ "\<lambda>c. f (c\<lparr>world := f' c\<rparr>)"] exI [of _ "\<lambda>c c2. g' c (c2\<lparr>world := g (c\<lparr>world := f' c\<rparr>) c2\<rparr>)"])
      (simp add: fg mw)
qed

lemma reply_of_other [simp]:
  "reply_of J (c\<lparr>world := w\<rparr>) = reply_of J c" "reply_of J (set_path p c) = reply_of J c"
  by (simp_all add: reply_of_def answer_of_def set_path_def)

lemma set_path_keeps [simp]: "res (set_path p c) = res c" "req_method (req (set_path p c)) = req_method (req c)"
  by (simp_all add: set_path_def)

lemma site_chain:
  assumes "site_serves J \<sigma> mounts reg pg r"
  shows "\<exists>c. dispatch_app \<sigma> mounts (runRoute J reg) (start_ctx J junk r w) = Ret c \<and>
    framable J (res c) \<and> req_method (req c) = req_method r \<and>
    reply_of J c = site_answer J \<sigma> mounts reg pg r"
proof (cases "app_target \<sigma> (req_method r) (req_path r) mounts")
  case None
  then have own: "dispatch_app \<sigma> mounts (runRoute J reg) (start_ctx J junk r w) = runRoute J reg (start_ctx J junk r w)"
    by (simp add: dispatch_app_def start_ctx_def)
  show ?thesis
  proof (cases "resolve reg (req_method r) (req_path r)")
    case None
    with \<open>app_target \<sigma> (req_method r) (req_path r) mounts = None\<close> have "site_route \<sigma> mounts reg r = None"
      by (simp add: site_route_def)
    moreover from this obtain t where t: "j_dump J (not_found_json J r) = Inr t" using assms by (auto simp: site_serves_def)
    ultimately show ?thesis
      using runRoute_not_found [OF None t, of junk w] assms framable_not_found [OF t]
      by (simp add: own site_answer_def site_serves_def reply_of_def answer_of_def sample_status)
        (simp add: body_payload_def not_found_response_def)
  next
    case (Some h)
    have "resolve reg (req_method (req (start_ctx J junk r w))) (cpath (start_ctx J junk r w)) = Some h"
      using Some by (simp add: start_ctx_def)
    from runRoute_found [OF this, of J] show ?thesis
      unfolding own using Some None assms by (simp add: site_serves_def site_answer_def site_route_def shows_page_def start_ctx_def)
  qed
next
  case (Some target)
  obtain h p ps b where t: "target = (h, p, ps, b)" by (cases target)
  obtain c where "h (start_ctx J junk (r\<lparr>req_path := p, params := ps\<rparr>) w) = Ret c" "framable J (res c)"
    "req_method (req c) = req_method r" "reply_of J c = site_answer J \<sigma> mounts reg pg r"
    using assms Some t by (fastforce simp: site_serves_def site_answer_def site_route_def shows_page_def)
  then show ?thesis using Some
    by (cases b) (simp_all add: dispatch_app_def start_ctx_def serve_target_def t)
qed

lemma site_serves_all:
  assumes "\<forall>(p, r) \<in> set mounts. subs_of (queue (rregistry (\<sigma> r))) \<noteq> None"
    and "\<forall>mw \<in> set (queue reg). passes (run_mw \<sigma>1 mw)"
    and "\<forall>r \<in> R. site_serves J \<sigma>1 (map (mount_of \<sigma>) mounts) reg pg r"
  shows "serves J \<sigma>1 (use_routers \<sigma> mounts reg) (site_answer J \<sigma>1 (map (mount_of \<sigma>) mounts) reg pg) R"
  unfolding serves_def
proof (intro ballI allI)
  fix r junk w
  assume "r \<in> R"
  obtain f g where "\<And>c. executeMiddlewareChain 0 (map (run_mw \<sigma>1) (queue reg))
      (dispatch_app \<sigma>1 (map (mount_of \<sigma>) mounts) (runRoute J reg)) c =
      and_then (dispatch_app \<sigma>1 (map (mount_of \<sigma>) mounts) (runRoute J reg) (c\<lparr>world := f c\<rparr>))
        (\<lambda>c2. Ret (c2\<lparr>world := g c c2\<rparr>))"
    using passing_chain [of "map (run_mw \<sigma>1) (queue reg)" "dispatch_app \<sigma>1 (map (mount_of \<sigma>) mounts) (runRoute J reg)"]
      assms(2) by auto
  moreover have "(start_ctx J junk r w)\<lparr>world := f (start_ctx J junk r w)\<rparr> = start_ctx J junk r (f (start_ctx J junk r w))"
    by (simp add: start_ctx_def)
  ultimately show "\<exists>c. run_chain J \<sigma>1 (use_routers \<sigma> mounts reg) (start_ctx J junk r w) = Ret c \<and> framable J (res c) \<and>
      req_method (req c) = req_method r \<and> reply_of J c = site_answer J \<sigma>1 (map (mount_of \<sigma>) mounts) reg pg r"
    unfolding application_routing [OF assms(1)]
    using site_chain [OF bspec [OF assms(3) \<open>r \<in> R\<close>], of junk "f (start_ctx J junk r w)"] by auto
qed

lemma site_talk:
  assumes "loop_trace J L \<sigma>1 (use_routers \<sigma> mounts reg) junk tr (init_loop w) = Some st"
    and "list_all (taken_by_uv c) tr"
    and "lex_chunks L (chunks_of c tr) (ll_init L) = Some (concat (map msg_events ms) @ tail, l)"
    and "\<forall>m \<in> set ms. msg_ok 16384 m" and "unfinished 16384 tail" and "map (request_of J) ms = map Inr rs"
    and "\<forall>(p, r) \<in> set mounts. subs_of (queue (rregistry (\<sigma> r))) \<noteq> None"
    and "\<forall>mw \<in> set (queue reg). passes (run_mw \<sigma>1 mw)"
    and "\<forall>r \<in> set rs. site_serves J \<sigma>1 (map (mount_of \<sigma>) mounts) reg pg r"
  shows "read_answers (map req_method rs) (concat (map wire (sent_on c st)) @ rest) =
      Some (map (site_answer J \<sigma>1 (map (mount_of \<sigma>) mounts) reg pg) rs, rest) \<and>
    (ms \<noteq> [] \<and> \<not> m_keep (last ms) \<longrightarrow> \<not> open_conn st c)"
  by (rule connection_talk [OF assms(1-6) site_serves_all [OF assms(7-9)]])

section \<open>Properties\<close>

text \<open>
  C16: A site in its event loop, from the bytes of the clients to the bytes of the answers. The server has
  any number of mounted routers with any number of sub-routers, routes of its own, and middleware that
  passes requests on (loggers, timers); the handlers of the routes that are asked for answer what
  \<open>pg\<close> says. Then on every connection, in every trace of the loop, whatever other connections, write callbacks
  and \<open>stop\<close> do, and however the requests are cut and pipelined, a client reads for its requests, HEAD
  included, in their order, exactly the answers of the routes the specification of the routing picks, and
  404 with the method and path where it picks none; the connection takes no more requests after one that
  ends it.
\<close>

theorem site_conversation:
  assumes "loop_trace J L \<sigma>1 (use_routers \<sigma> mounts reg) junk tr (init_loop w) = Some st"
    and "list_all (taken_by_uv c) tr"
    and "lex_chunks L (chunks_of c tr) (ll_init L) = Some (concat (map msg_events ms) @ tail, l)"
    and "\<forall>m \<in> set ms. msg_ok 16384 m" and "unfinished 16384 tail" and "map (request_of J) ms = map Inr rs"
    and "\<forall>(p, r) \<in> set mounts. subs_of (queue (rregistry (\<sigma> r))) \<noteq> None"
    and "\<forall>mw \<in> set (queue reg). passes (run_mw \<sigma>1 mw)"
    and "\<forall>r \<in> set rs. site_serves J \<sigma>1 (map (mount_of \<sigma>) mounts) reg pg r"
  shows "read_answers (map req_method rs) (concat (map wire (sent_on c st)) @ rest) =
      Some (map (site_answer J \<sigma>1 (map (mount_of \<sigma>) mounts) reg pg) rs, rest) \<and>
    (ms \<noteq> [] \<and> \<not> m_keep (last ms) \<longrightarrow> \<not> open_conn st c)"
  using assms by (rule site_talk)

text \<open>A handler that shows a text that depends on the request.\<close>

definition text_page :: "('j request \<Rightarrow> string) \<Rightarrow> ('j, 'w) act" where
  "text_page f c = Ret (c\<lparr>res := send_text (f (req c)) (set_status 200 (res c))\<rparr>)"

lemma text_page_shows:
  "shows_page J (text_page f :: ('j, 'w) act) r (''HTTP/1.1 200 OK'', if req_method r = ''HEAD'' then None else Some (f r))"
proof -
  have "\<exists>c. text_page f (start_ctx J junk r w) = Ret c \<and> framable J (res c) \<and> req_method (req c) = req_method r \<and>
      reply_of J c = (''HTTP/1.1 200 OK'', if req_method r = ''HEAD'' then None else Some (f r))"
    for junk and w :: 'w
    by (intro exI [of _ "\<lparr>req = r, res = text_response J junk (f r), world = w\<rparr>"])
      (simp add: text_page_def start_ctx_def text_response_def [symmetric] reply_of_def answer_of_def
        framable_text_response payload_text_response status_line_text_response)
  then show ?thesis unfolding shows_page_def by simp
qed

text \<open>The example: the application of \<open>App_Routing\<close>, whose pages are the paths the handlers see, with a logger.\<close>

definition site_msgs :: "msg list" where
  "site_msgs = [get_msg [''/api/more/items''] True, get_msg [''/none''] False]"

definition site_ll :: "unit llhttp" where
  "site_ll = script_ll (concat (map msg_events site_msgs))"

abbreviation site_store :: "(string, unit) store" where
  "site_store \<equiv> sample_app_store (text_page req_path)"

definition site_pages :: "(string, unit) pages" where
  "site_pages h r = (''HTTP/1.1 200 OK'', if req_method r = ''HEAD'' then None else Some (req_path r))"

abbreviation site_registry :: "(string, unit) registry" where
  "site_registry \<equiv> use_mw new_registry (UserMw (\<lambda>nxt c. nxt (c\<lparr>world := ()\<rparr>)))"

lemma site_requests:
  "\<exists>r1 r2. map (request_of text_json) site_msgs = map Inr [r1, r2] \<and>
    req_method r1 = ''GET'' \<and> req_path r1 = ''/api/more/items'' \<and> req_method r2 = ''GET'' \<and> req_path r2 = ''/none''"
proof -
  have "\<exists>r. request_of text_json (get_msg [p] keep) = Inr r \<and> req_method r = ''GET'' \<and> req_path r = p"
    if "p = ''/api/more/items'' \<or> p = ''/none''" for p keep
    using that by (auto simp: sample_requests applyTarget_def strip_authority_def str_find_def Let_def)
  from this [of "''/api/more/items''" True] this [of "''/none''" False] show ?thesis
    by (simp add: site_msgs_def) blast
qed

lemma site_routes:
  "req_method r = ''GET'' \<Longrightarrow> req_path r = ''/api/more/items'' \<Longrightarrow>
    site_route site_store (map (mount_of site_store) sample_mounts) site_registry r =
      Some (text_page req_path, r\<lparr>req_path := ''/items'', params := []\<rparr>)"
  "req_method r = ''GET'' \<Longrightarrow> req_path r = ''/none'' \<Longrightarrow>
    site_route site_store (map (mount_of site_store) sample_mounts) site_registry r = None"
proof -
  show "req_method r = ''GET'' \<Longrightarrow> req_path r = ''/api/more/items'' \<Longrightarrow>
    site_route site_store (map (mount_of site_store) sample_mounts) site_registry r =
      Some (text_page req_path, r\<lparr>req_path := ''/items'', params := []\<rparr>)"
    by (simp add: site_route_def sample_mounts_of sample_app_target del: app_target.simps)
  have "resolve site_registry m p = None" for m p
    using same_trie_resolves [of site_registry new_registry] by (simp add: use_mw_def RegisterMiddleWare_def)
  then show "req_method r = ''GET'' \<Longrightarrow> req_path r = ''/none'' \<Longrightarrow>
    site_route site_store (map (mount_of site_store) sample_mounts) site_registry r = None"
    by (simp add: site_route_def sample_mounts_of mount_target_def below_mount_def)
qed

theorem site_conversation_witness:
  "\<exists>st t. loop_trace text_json site_ll site_store (use_routers site_store sample_mounts site_registry) (\<lambda>n. 0)
      sample_trace (init_loop ()) = Some st \<and>
    read_answers [''GET'', ''GET''] (concat (map wire (sent_on 7 st)) @ []) =
      Some ([(''HTTP/1.1 200 OK'', Some ''/items''), (''HTTP/1.1 404 Not Found'', Some t)], []) \<and>
    \<not> open_conn st 7"
proof -
  obtain st where st: "loop_trace text_json site_ll site_store (use_routers site_store sample_mounts site_registry)
      (\<lambda>n. 0) sample_trace (init_loop ()) = Some st"
    by (simp add: sample_trace_def init_loop_def onConnection_def stop_def open_conn_def conn_of_def
      new_conn_def Let_def)
  obtain r1 r2 where rs: "map (request_of text_json) site_msgs = map Inr [r1, r2]"
    "req_method r1 = ''GET''" "req_path r1 = ''/api/more/items''" "req_method r2 = ''GET''" "req_path r2 = ''/none''"
    using site_requests by blast
  have chunks: "lex_chunks site_ll (chunks_of 7 sample_trace) (ll_init site_ll) =
      Some (concat (map msg_events site_msgs) @ [], ())"
    by (simp add: sample_trace_def chunks_of_def site_ll_def script_ll_def)
  have ok: "\<forall>m \<in> set site_msgs. msg_ok 16384 m" by (simp add: site_msgs_def get_msg_ok)
  have serves: "\<forall>r \<in> set [r1, r2]. site_serves text_json site_store (map (mount_of site_store) sample_mounts)
      site_registry site_pages r"
    using rs(2-5) text_page_shows [of text_json req_path "r1\<lparr>req_path := ''/items'', params := []\<rparr>"]
    by (simp add: site_serves_def site_routes site_pages_def)
  have subs: "\<forall>(p, r) \<in> set sample_mounts. subs_of (queue (rregistry (site_store r))) \<noteq> None"
    by (simp add: sample_mounts_def sample_queues)
  have mws: "\<forall>mw \<in> set (queue site_registry). passes (run_mw site_store mw)"
    by (simp add: use_mw_def RegisterMiddleWare_def new_registry_def passes_before)
  have taken: "list_all (taken_by_uv 7) sample_trace" by (simp add: sample_trace_def)
  have "unfinished 16384 []" by (simp add: unfinished_def)
  from site_conversation [OF st taken chunks ok this rs(1) subs mws serves, of "[]"]
  have "read_answers (map req_method [r1, r2]) (concat (map wire (sent_on 7 st)) @ []) =
      Some (map (site_answer text_json site_store (map (mount_of site_store) sample_mounts) site_registry site_pages) [r1, r2], [])"
    "site_msgs \<noteq> [] \<and> \<not> m_keep (last site_msgs) \<longrightarrow> \<not> open_conn st 7" by simp_all
  moreover have "site_msgs \<noteq> []" "\<not> m_keep (last site_msgs)"
    by (simp_all add: site_msgs_def get_msg_def)
  ultimately show ?thesis using st rs(2-5) by (auto simp: site_answer_def site_routes site_pages_def)
qed

end
