(* ===== verification/Site_Apps.thy ===== *)
theory Site_Apps
  imports Site Rest_Api
begin

text \<open>
  Applications of the repository as sites: the middleware of \<open>examples/rest_api\<close> that passes requests on,
  and the whole of \<open>examples/hello_world\<close>, from the bytes of its clients to the bytes of its answers.
\<close>

section \<open>Middleware that passes requests on\<close>

lemma passes_logging: "passes loggingMiddleware"
  using passes_before [of "\<lambda>c. (world c)\<lparr>stdout := stdout (world c) @ ''[LOG] '' @ req_method (req c) @ '' '' @
      req_path (req c) @ NEWLINE\<rparr>"]
  by (simp add: loggingMiddleware_def [abs_def] print_out_def)

lemma passes_timing: "passes timingMiddleware"
  unfolding passes_def
  by (intro exI allI) (simp add: timingMiddleware_def clock_now_def print_out_def Let_def)

section \<open>The routes of the smallest application\<close>

lemma tokens_aux_longer: "acc \<noteq> [] \<Longrightarrow> \<exists>u ss. tokens_aux d acc t = (acc @ u) # ss"
proof (induction t arbitrary: acc)
  case (Cons c t)
  from Cons.IH [of "acc @ [c]"] Cons.prems show ?case by auto
qed simp

lemma tokens_Nil_iff: "tokens d t = [] \<longleftrightarrow> set t \<subseteq> {d}"
proof (induction t)
  case (Cons c t)
  with tokens_aux_longer [of "[c]" d t] show ?case by auto
qed simp

lemma tokens_aux_one_iff: "acc \<noteq> [] \<Longrightarrow> tokens_aux d acc t = [acc] \<longleftrightarrow> set t \<subseteq> {d}"
proof (induction t)
  case (Cons c t)
  with tokens_aux_longer [of "acc @ [c]" d t] tokens_Nil_iff [of d t] show ?case by auto
qed simp

lemma tokens_aux_word: "d \<notin> set u \<Longrightarrow> tokens_aux d acc (u @ t) = tokens_aux d (acc @ u) t"
  by (induction u arbitrary: acc) auto

text \<open>A request whose path is nothing but slashes, and only such a request, has the segments of the root.\<close>

lemma route_segments_root:
  assumes "method_ok m" and "method_ok m'"
  shows "route_segments m p = [m' @ '':''] \<longleftrightarrow> m = m' \<and> set (c_str p) \<subseteq> {SLASH}"
proof -
  have m: "NUL \<notin> set m" "SLASH \<notin> set (m @ '':'')" using assms(1) by (simp_all add: method_ok_def)
  then have "c_str (m @ '':'' @ p) = (m @ '':'') @ c_str p"
    by (simp add: c_str_append) (simp add: c_str_def)
  then have segs: "route_segments m p = tokens_aux SLASH (m @ '':'') (c_str p)"
    using tokens_aux_word [OF m(2), of "[]" "c_str p"] by (simp add: route_segments_def split_eq_tokens)
  show ?thesis
  proof (cases "set (c_str p) \<subseteq> {SLASH}")
    case True
    with tokens_aux_one_iff [of "m @ '':''" SLASH "c_str p"] segs show ?thesis by simp
  next
    case False
    obtain u ss where u: "route_segments m p = ((m @ '':'') @ u) # ss"
      using tokens_aux_longer [of "m @ '':''" SLASH "c_str p"] segs by auto
    have "m = m'" if "route_segments m p = [m' @ '':'']"
      using that u assms method_colon_unique [of m u m' "[]"] by (simp add: method_ok_def)
    with False tokens_aux_one_iff [of "m @ '':''" SLASH "c_str p"] segs show ?thesis by auto
  qed
qed

lemma hello_resolve:
  assumes "method_ok m"
  shows "resolve (hello_world :: ('j, 'w) registry) m p =
    (if (m = ''GET'' \<or> m = ''HEAD'') \<and> set (c_str p) \<subseteq> {SLASH} then Some (reply_literal 200 ''Hello World!'') else None)"
proof -
  let ?reg = "hello_world :: ('j, 'w) registry" and ?h = "reply_literal 200 ''Hello World!'' :: ('j, 'w) act"
  have table: "table ?reg = [[Lit ''GET:''] \<mapsto> ?h, [Lit ''HEAD:''] \<mapsto> ?h]"
    by (simp add: hello_world_def GET_def rest_keys)
  have root: "route_segments m p = [''GET:''] \<longleftrightarrow> m = ''GET'' \<and> set (c_str p) \<subseteq> {SLASH}"
    "route_segments m p = [''HEAD:''] \<longleftrightarrow> m = ''HEAD'' \<and> set (c_str p) \<subseteq> {SLASH}"
    using route_segments_root [OF assms, of "''GET''" p] route_segments_root [OF assms, of "''HEAD''" p] by simp_all
  show ?thesis
  proof (cases "(m = ''GET'' \<or> m = ''HEAD'') \<and> set (c_str p) \<subseteq> {SLASH}")
    case True
    then have "table ?reg (map Lit (route_segments m p)) = Some ?h" using root by (auto simp: table)
    with True show ?thesis by (simp add: resolve_literals)
  next
    case False
    then have "route_segments m p \<noteq> [''GET:'']" "route_segments m p \<noteq> [''HEAD:'']" using root by auto
    then have "table ?reg q = None" if "covers q (route_segments m p)" for q
      using that by (auto simp: table covers_def list_all2_Cons1)
    then show ?thesis unfolding if_not_P [OF False] by (simp add: resolve_None_iff)
  qed
qed

text \<open>What a client reads for a request: the text for the root, whatever slashes it is spelled with, or 404.\<close>

definition hello_answer :: "'j json_lib \<Rightarrow> 'j request \<Rightarrow> answer" where
  "hello_answer J r =
     (let body = (\<lambda>t. if req_method r = ''HEAD'' then None else Some t) in
      if (req_method r = ''GET'' \<or> req_method r = ''HEAD'') \<and> set (c_str (req_path r)) \<subseteq> {SLASH}
      then (''HTTP/1.1 200 OK'', body ''Hello World!'')
      else (''HTTP/1.1 404 Not Found'', case j_dump J (not_found_json J r) of Inl what \<Rightarrow> None | Inr t \<Rightarrow> body t))"

lemma literal_shows:
  assumes "NUL \<notin> set t"
  shows "shows_page J (reply_literal 200 t :: ('j, 'w) act) r
    (''HTTP/1.1 200 OK'', if req_method r = ''HEAD'' then None else Some t)"
proof -
  have "reply_literal 200 t (start_ctx J junk r w) = text_page (\<lambda>r. t) (start_ctx J junk r w)" for junk and w :: 'w
    by (simp add: reply_literal_def text_page_def send_cstr_def send_text_def c_str_no_NUL [OF assms])
  then show ?thesis using text_page_shows [of J "\<lambda>r. t" r] by (simp add: shows_page_def)
qed

section \<open>Properties\<close>

text \<open>
  C17: The whole of \<open>hello_world\<close>: on every connection, in every trace of its event loop and however the
  bytes are cut, a client reads for each of its requests in order status 200 and the greeting if it asks
  for the root with GET, the head alone with HEAD, and 404 otherwise.
\<close>

theorem hello_world_conversation:
  fixes J :: "'j json_lib" and w :: 'w
  assumes "loop_trace J L \<sigma> hello_world junk tr (init_loop w) = Some st"
    and "list_all (taken_by_uv c) tr"
    and "lex_chunks L (chunks_of c tr) (ll_init L) = Some (concat (map msg_events ms) @ tail, l)"
    and "\<forall>m \<in> set ms. msg_ok 16384 m" and "unfinished 16384 tail" and "map (request_of J) ms = map Inr rs"
    and "\<forall>r \<in> set rs. method_ok (req_method r) \<and> (\<exists>t. j_dump J (not_found_json J r) = Inr t)"
  shows "read_answers (map req_method rs) (concat (map wire (sent_on c st)) @ rest) = Some (map (hello_answer J) rs, rest) \<and>
    (ms \<noteq> [] \<and> \<not> m_keep (last ms) \<longrightarrow> \<not> open_conn st c)"
proof -
  let ?reg = "hello_world :: ('j, 'w) registry"
  let ?pg = "\<lambda>h r. (''HTTP/1.1 200 OK'', if req_method r = ''HEAD'' then None else Some ''Hello World!'')"
  have route: "site_route \<sigma> [] ?reg r =
      (if (req_method r = ''GET'' \<or> req_method r = ''HEAD'') \<and> set (c_str (req_path r)) \<subseteq> {SLASH}
       then Some (reply_literal 200 ''Hello World!'', r\<lparr>params := bindings ?reg (req_method r) (req_path r)\<rparr>)
       else None)" if "r \<in> set rs" for r
    using hello_resolve [where 'j = 'j and 'w = 'w, of "req_method r" "req_path r"] assms(7) that by (simp add: site_route_def)
  have "site_serves J \<sigma> [] ?reg ?pg r" if "r \<in> set rs" for r
    using route [OF that] assms(7) that
      literal_shows [of "''Hello World!''" J "r\<lparr>params := bindings ?reg (req_method r) (req_path r)\<rparr>"]
    by (auto simp: site_serves_def)
  moreover have "site_answer J \<sigma> [] ?reg ?pg r = hello_answer J r" if "r \<in> set rs" for r
    using route [OF that] by (simp add: site_answer_def hello_answer_def Let_def split: sum.split)
  moreover have "queue ?reg = []" by (simp add: hello_world_def new_registry_def)
  moreover have "use_routers \<sigma> [] ?reg = ?reg" by (simp add: use_routers_def)
  ultimately show ?thesis
    using site_talk [of J L \<sigma> \<sigma> "[]" ?reg, OF _ assms(2-6), where pg = ?pg and rest = rest] assms(1)
    by (simp cong: map_cong)
qed

text \<open>The example: GET for the root, spelled with two slashes, and HEAD for another path.\<close>

definition hello_msgs :: "msg list" where
  "hello_msgs = [get_msg [''//''] True, (get_msg [''/none''] False)\<lparr>m_method := ''HEAD''\<rparr>]"

definition hello_ll :: "unit llhttp" where
  "hello_ll = script_ll (concat (map msg_events hello_msgs))"

lemma hello_requests:
  "\<exists>r1 r2. map (request_of text_json) hello_msgs = map Inr [r1, r2] \<and>
    req_method r1 = ''GET'' \<and> req_path r1 = ''//'' \<and> req_method r2 = ''HEAD'' \<and> req_path r2 = ''/none''"
proof -
  have "\<exists>r. request_of text_json ((get_msg [p] keep)\<lparr>m_method := m\<rparr>) = Inr r \<and> req_method r = m \<and> req_path r = p"
    if "p = ''//'' \<or> p = ''/none''" for p keep m
    using that by (auto simp: request_of_def build_request_def get_msg_def applyTarget_def strip_authority_def str_find_def Let_def)
  from this [where p = "''//''" and keep = True and m = "''GET''"] this [where p = "''/none''" and keep = False and m = "''HEAD''"] show ?thesis
    by (simp add: hello_msgs_def get_msg_def) blast
qed

theorem hello_world_conversation_witness:
  "\<exists>st. loop_trace text_json hello_ll (\<lambda>r. new_router) hello_world (\<lambda>n. 0) sample_trace (init_loop ()) = Some st \<and>
    read_answers [''GET'', ''HEAD''] (concat (map wire (sent_on 7 st)) @ []) =
      Some ([(''HTTP/1.1 200 OK'', Some ''Hello World!''), (''HTTP/1.1 404 Not Found'', None)], []) \<and>
    \<not> open_conn st 7"
proof -
  obtain st where st: "loop_trace text_json hello_ll (\<lambda>r. new_router) hello_world (\<lambda>n. 0) sample_trace (init_loop ()) = Some st"
    by (simp add: sample_trace_def init_loop_def onConnection_def stop_def open_conn_def conn_of_def
      new_conn_def Let_def)
  obtain r1 r2 where rs: "map (request_of text_json) hello_msgs = map Inr [r1, r2]"
    "req_method r1 = ''GET''" "req_path r1 = ''//''" "req_method r2 = ''HEAD''" "req_path r2 = ''/none''"
    using hello_requests by blast
  have chunks: "lex_chunks hello_ll (chunks_of 7 sample_trace) (ll_init hello_ll) =
      Some (concat (map msg_events hello_msgs) @ [], ())"
    by (simp add: sample_trace_def chunks_of_def hello_ll_def script_ll_def)
  have ok: "\<forall>m \<in> set hello_msgs. msg_ok 16384 m"
    by (simp add: hello_msgs_def get_msg_def msg_ok_def headers_ok_def header_bytes_def)
  have taken: "list_all (taken_by_uv 7) sample_trace" by (simp add: sample_trace_def)
  have methods: "\<forall>r \<in> set [r1, r2]. method_ok (req_method r) \<and> (\<exists>t. j_dump text_json (not_found_json text_json r) = Inr t)"
    using rs(2,4) by simp
  have "unfinished 16384 []" by (simp add: unfinished_def)
  from hello_world_conversation [OF st taken chunks ok this rs(1) methods, of "[]"]
  have "read_answers (map req_method [r1, r2]) (concat (map wire (sent_on 7 st)) @ []) = Some (map (hello_answer text_json) [r1, r2], [])"
    "hello_msgs \<noteq> [] \<and> \<not> m_keep (last hello_msgs) \<longrightarrow> \<not> open_conn st 7" by simp_all
  moreover have "hello_msgs \<noteq> []" "\<not> m_keep (last hello_msgs)" by (simp_all add: hello_msgs_def get_msg_def)
  ultimately show ?thesis using st rs(2-5) by (simp add: hello_answer_def) (simp add: c_str_def)
qed

end
