(* ===== verification/Rest_Pages.thy ===== *)
theory Rest_Pages
  imports Rest_Api
begin

text \<open>
  The pages of \<open>examples/rest_api\<close>: a specification by the method and the segments of the path
  (\<open>rest_page\<close>), and that the trie leads every request to a handler that sends the page of the
  specification, with the parameters it needs, or to none where there is no page.
\<close>

section \<open>The table\<close>

text \<open>The entries of the reading methods, GET and the HEAD that comes with it, and the others.\<close>

definition read_entries :: "'j json_lib \<Rightarrow> string \<Rightarrow> (pattern \<times> ('j, rest_world) act) list" where
  "read_entries J m =
     [([Lit m], home), ([Lit m, Lit ''api''], api_home), ([Lit m, Lit ''users''], users J),
      ([Lit m, Lit ''health''], health J), ([Lit m, Lit ''api'', Lit ''info''], api_info J),
      ([Lit m, Lit ''error''], error_page J), ([Lit m, Lit ''me'', Par], me J),
      ([Lit m, Lit ''users'', Par], user_by_id J), ([Lit m, Lit ''names'', Par], name_page),
      ([Lit m, Lit ''users'', Par, Lit ''data''], user_data J),
      ([Lit m, Lit ''users'', Par, Lit ''policy'', Par], user_policy J)]"

definition write_entries :: "'j json_lib \<Rightarrow> (pattern \<times> ('j, rest_world) act) list" where
  "write_entries J =
     [([Lit ''POST:'', Lit ''echo''], echo J), ([Lit ''DELETE:'', Lit ''names'', Par], delete_name J),
      ([Lit ''POST:'', Lit ''users'', Par], update_user J)]"

lemma rest_table_eq:
  "table (rest_server J) = map_of (read_entries J ''GET:'' @ read_entries J ''HEAD:'' @ write_entries J)"
proof
  show "table (rest_server J) q = map_of (read_entries J ''GET:'' @ read_entries J ''HEAD:'' @ write_entries J) q" for q
    by (simp add: rest_table read_entries_def write_entries_def)
qed

lemma rest_table_SomeD:
  "table (rest_server J) q = Some h \<Longrightarrow>
   (q, h) \<in> set (read_entries J ''GET:'') \<or> (q, h) \<in> set (read_entries J ''HEAD:'') \<or> (q, h) \<in> set (write_entries J)"
  unfolding rest_table_eq using map_of_SomeD by fastforce

lemma root_rest_middleware: "root (trie (rest_middleware J)) = empty_node"
  by (simp add: rest_middleware_def server_use_def new_registry_def new_trie_def RegisterMiddleWare_def)

text \<open>What the patterns with parameters bind.\<close>

definition both :: "string list \<Rightarrow> ('j, rest_world) act \<Rightarrow> (string list \<times> ('j, rest_world) act) list" where
  "both ws h = [(''GET:'' # ws, h), (''HEAD:'' # ws, h)]"

lemma rest_root:
  "root (trie (rest_server J)) = fold (\<lambda>(ws, h) n. insert_segments n ws (Some h))
     (both [] home @ both [''api''] api_home @ both [''me'', '':id''] (me J) @ both [''users''] (users J) @
      both [''users'', '':id''] (user_by_id J) @ both [''users'', '':id'', ''policy'', '':policyId''] (user_policy J) @
      both [''names'', '':name''] name_page @ [([''DELETE:'', ''names'', '':name''], delete_name J)] @
      both [''users'', '':id'', ''data''] (user_data J) @ [([''POST:'', ''users'', '':id''], update_user J)] @
      both [''health''] (health J) @ both [''api'', ''info''] (api_info J) @ [([''POST:'', ''echo''], echo J)] @
      both [''error''] (error_page J)) empty_node"
  by (simp add: rest_server_def rest_routes_def rest_verbs root_Register root_rest_middleware segment_eval both_def
      del: insert_segments.simps insert_segments_Cons)

lemma child_at_insert_segments:
  "s \<noteq> [] \<Longrightarrow> child_at (insert_segments n (s # ss) h) p =
     (if p = pat_seg s
      then Some (insert_segments (case child_at n p of None \<Rightarrow> new_node s | Some c \<Rightarrow> c) ss h) else child_at n p)"
  by (simp add: child_at_insertChild)

lemma rest_verb_root:
  "x = ''GET:'' \<or> x = ''HEAD:'' \<Longrightarrow> child_at (root (trie (rest_server J))) (Lit x) =
     Some (fold (\<lambda>(ws, h) n. insert_segments n ws (Some h))
       [([], home), ([''api''], api_home), ([''me'', '':id''], me J), ([''users''], users J),
        ([''users'', '':id''], user_by_id J), ([''users'', '':id'', ''policy'', '':policyId''], user_policy J),
        ([''names'', '':name''], name_page), ([''users'', '':id'', ''data''], user_data J), ([''health''], health J),
        ([''api'', ''info''], api_info J), ([''error''], error_page J)] (new_node x))"
  unfolding rest_root both_def
  by (elim disjE; simp add: child_at_insert_segments pat_seg_def del: insert_segments.simps insert_segments_Cons)

lemma parameterName_new_node [simp]: "parameterName (new_node (COLON # s)) = s"
  by (simp add: new_node_def)

lemmas rest_trie = reg_binds_def child_at_insert_segments pat_seg_def

lemma rest_binds:
  assumes "m = ''GET:'' \<or> m = ''HEAD:''"
  shows "reg_binds (rest_server J) [Lit m, Lit ''me'', Par] [m, a, v] = [(''id'', v)]"
    "reg_binds (rest_server J) [Lit m, Lit ''users'', Par] [m, a, v] = [(''id'', v)]"
    "reg_binds (rest_server J) [Lit m, Lit ''users'', Par, Lit ''policy'', Par] [m, a, v, b, u] =
       [(''id'', v), (''policyId'', u)]"
    "reg_binds (rest_server J) [Lit m, Lit ''names'', Par] [m, a, v] = [(''name'', v)]"
    "reg_binds (rest_server J) [Lit m, Lit ''users'', Par, Lit ''data''] [m, a, v, b] = [(''id'', v)]"
    "reg_binds (rest_server J) [Lit ''DELETE:'', Lit ''names'', Par] [''DELETE:'', a, v] = [(''name'', v)]"
    "reg_binds (rest_server J) [Lit ''POST:'', Lit ''users'', Par] [''POST:'', a, v] = [(''id'', v)]"
  by (simp_all add: rest_trie rest_verb_root [OF assms] del: insert_segments.simps insert_segments_Cons)
    (simp_all add: rest_root both_def child_at_insert_segments pat_seg_def del: insert_segments.simps insert_segments_Cons)

section \<open>What the pages say\<close>

text \<open>A page is sent as text, a value as JSON.\<close>

datatype 'j content = Page string | Value 'j

text \<open>
  The pages of the routes, by the method and the segments of the path, as the list of routes in \<open>main\<close>
  reads.
\<close>

definition reads :: "string \<Rightarrow> bool" where
  "reads m \<longleftrightarrow> m = ''GET'' \<or> m = ''HEAD''"

definition policy_json :: "'j json_lib \<Rightarrow> string \<Rightarrow> string \<Rightarrow> 'j" where
  "policy_json J v u = j_object J
     [(''userId'', j_string J v), (''policyId'', j_string J u), (''policyName'', j_string J ''Standard Policy''),
      (''permissions'', j_array J [j_string J ''read'', j_string J ''write'']), (''active'', j_bool J True)]"

definition greeting :: "string \<Rightarrow> string \<Rightarrow> string" where
  "greeting m name = ''<html><head><title>Hello '' @ name @ ''</title></head><body><h1>Welcome, '' @ name @
     ''!</h1><p>Method used: '' @ m @ ''</p></body></html>''"

definition deleted_json :: "'j json_lib \<Rightarrow> string \<Rightarrow> 'j" where
  "deleted_json J name = j_object J
     [(''deleted'', j_bool J True), (''name'', j_string J name),
      (''message'', j_string J (''Name '' @ CHR 0x27 # name @ CHR 0x27 # '' has been successfully deleted'')),
      (''timestamp'', j_string J ''2025-01-01T00:00:00Z'')]"

definition data_json :: "'j json_lib \<Rightarrow> string \<Rightarrow> 'j" where
  "data_json J v = j_object J
     [(''id'', j_string J v), (''data'', j_string J ''Some Data here''),
      (''profile'', j_object J (strings_json J
         [(''preferences'', ''dark_mode''), (''language'', ''en''), (''timezone'', ''UTC'')])),
      (''last_login'', j_string J ''2025-01-01T12:00:00Z'')]"

definition updated_json :: "'j json_lib \<Rightarrow> 'j http_body \<Rightarrow> string \<Rightarrow> 'j" where
  "updated_json J b v = j_object J
     [(''id'', j_string J v), (''status'', j_string J ''updated''),
      (''message'', j_string J ''User data updated successfully''),
      (''received_data'', if body_type b = JSON then json_data b else j_object J []),
      (''timestamp'', j_string J ''2025-01-01T00:00:00Z'')]"

definition users_json :: "'j json_lib \<Rightarrow> 'j" where
  "users_json J = j_array J (map (\<lambda>(name, i). j_object J [(''name'', j_string J name), (''id'', j_int J i)])
     [(''sozzer'', 1), (''ahmed'', 2), (''john'', 3)])"

definition health_json :: "'j json_lib \<Rightarrow> 'j" where
  "health_json J = j_object J (strings_json J
     [(''status'', ''healthy''), (''timestamp'', ''2025-01-01T00:00:00Z''),
      (''uptime'', ''24h 15m 32s''), (''version'', ''1.0.0'')])"

definition info_json :: "'j json_lib \<Rightarrow> 'j" where
  "info_json J = j_object J
     [(''name'', j_string J ''PlusWeb API''), (''version'', j_string J ''1.0.0''),
      (''description'', j_string J ''A modern C++ web framework''),
      (''endpoints'', j_array J (map (j_string J) [''/'', ''/users'', ''/users/:id'', ''/health'']))]"

definition echo_json :: "'j json_lib \<Rightarrow> 'j request \<Rightarrow> 'j" where
  "echo_json J r = (let b = req_body r in j_object J
     [(''method'', j_string J (req_method r)), (''path'', j_string J (req_path r)),
      (''headers'', j_object J []),
      (''body'', if body_type b = JSON then json_data b else j_string J (raw_data b)),
      (''timestamp'', j_string J ''2025-01-01T00:00:00Z'')])"

definition failure_json :: "'j json_lib \<Rightarrow> 'j" where
  "failure_json J = j_object J
     [(''error'', j_bool J True), (''message'', j_string J ''This is a test error''),
      (''code'', j_string J ''TEST_ERROR''), (''timestamp'', j_string J ''2025-01-01T00:00:00Z'')]"

definition page_of_words :: "'j json_lib \<Rightarrow> string list \<Rightarrow> (int \<times> 'j content) option" where
  "page_of_words J ws =
     (if ws = [] then Some (200, Page ''<html><body>HELLO</body></html>'')
      else if ws = [''api''] then Some (200, Page ''Authorized'')
      else if ws = [''users''] then Some (200, Value (users_json J))
      else if ws = [''health''] then Some (200, Value (health_json J))
      else if ws = [''api'', ''info''] then Some (200, Value (info_json J))
      else if ws = [''error''] then Some (500, Value (failure_json J))
      else None)"

fun param_page :: "'j json_lib \<Rightarrow> 'j request \<Rightarrow> string list \<Rightarrow> (int \<times> 'j content) option" where
  "param_page J r [a, v] =
     (if reads (req_method r) \<and> a = ''me''
        then Some (200, Value (j_object J (strings_json J [(''name'', ''ahmed''), (''id'', v)])))
      else if reads (req_method r) \<and> a = ''users'' then Some (200, Value (user_json J v))
      else if reads (req_method r) \<and> a = ''names'' then Some (200, Page (greeting (req_method r) v))
      else if req_method r = ''DELETE'' \<and> a = ''names'' then Some (200, Value (deleted_json J v))
      else if req_method r = ''POST'' \<and> a = ''users'' then Some (200, Value (updated_json J (req_body r) v))
      else None)"
| "param_page J r [a, v, b] =
     (if reads (req_method r) \<and> a = ''users'' \<and> b = ''data'' then Some (200, Value (data_json J v)) else None)"
| "param_page J r [a, v, b, u] =
     (if reads (req_method r) \<and> a = ''users'' \<and> b = ''policy'' then Some (200, Value (policy_json J v u)) else None)"
| "param_page J r ws = None"

definition rest_page :: "'j json_lib \<Rightarrow> 'j request \<Rightarrow> string list \<Rightarrow> (int \<times> 'j content) option" where
  "rest_page J r ws =
     (if reads (req_method r) \<and> page_of_words J ws \<noteq> None then page_of_words J ws
      else if req_method r = ''POST'' \<and> ws = [''echo''] then Some (200, Value (echo_json J r))
      else param_page J r ws)"

text \<open>What a handler does when it runs: what it prints aside, it sends the content with the status.\<close>

definition sends :: "'j json_lib \<Rightarrow> ('j, rest_world) act \<Rightarrow> 'j request \<Rightarrow> int \<times> 'j content \<Rightarrow> bool" where
  "sends J h r a \<longleftrightarrow>
     (\<forall>c. req c = r \<longrightarrow> (\<exists>c1. req_method (req c1) = req_method r \<and> res c1 = res c \<and>
        h c = (case snd a of Page t \<Rightarrow> reply_string (fst a) t c1 | Value j \<Rightarrow> reply_json J (fst a) j c1)))"

lemma sends_value:
  assumes "\<And>c. req c = r \<Longrightarrow> h c = reply_json J s j c"
  shows "sends J h r (s, Value j)"
  unfolding sends_def
proof (intro allI impI)
  fix c :: "('a, rest_world) ctx" assume "req c = r"
  with assms show "\<exists>c1. req_method (req c1) = req_method r \<and> res c1 = res c \<and>
      h c = (case snd (s, Value j) of Page t \<Rightarrow> reply_string (fst (s, Value j)) t c1 | Value j' \<Rightarrow> reply_json J (fst (s, Value j)) j' c1)"
    by (intro exI [of _ c]) simp
qed

lemma sends_text:
  assumes "\<And>c. req c = r \<Longrightarrow> h c = reply_string s t (f c) \<and> req (f c) = r \<and> res (f c) = res c"
  shows "sends J h r (s, Page t)"
  unfolding sends_def
proof (intro allI impI)
  fix c :: "('a, rest_world) ctx" assume "req c = r"
  with assms [of c] show "\<exists>c1. req_method (req c1) = req_method r \<and> res c1 = res c \<and>
      h c = (case snd (s, Page t) of Page t' \<Rightarrow> reply_string (fst (s, Page t)) t' c1 | Value j' \<Rightarrow> reply_json J (fst (s, Page t)) j' c1)"
    by (intro exI [of _ "f c"]) simp
qed

lemma reply_literal_string: "NUL \<notin> set t \<Longrightarrow> reply_literal s t = reply_string s t"
  by (simp add: reply_literal_def [abs_def] reply_string_def [abs_def] send_cstr_def send_text_def c_str_no_NUL)

lemma sends_json: "sends J (reply_json J s j) r (s, Value j)"
  by (rule sends_value) simp

lemma sends_handlers:
  "sends J home r (200, Page ''<html><body>HELLO</body></html>'')" "sends J api_home r (200, Page ''Authorized'')"
  "sends J (users J) r (200, Value (users_json J))" "sends J (health J) r (200, Value (health_json J))"
  "sends J (api_info J) r (200, Value (info_json J))" "sends J (error_page J) r (500, Value (failure_json J))"
  "sends J (echo J) r (200, Value (echo_json J r))"
proof -
  show "sends J home r (200, Page ''<html><body>HELLO</body></html>'')"
    by (rule sends_text [where f = "\<lambda>c. print_out (printRequestInfo (req c)) c"])
      (simp add: home_def reply_literal_string print_out_def)
  show "sends J api_home r (200, Page ''Authorized'')"
    by (rule sends_text [where f = "\<lambda>c. c"]) (simp add: api_home_def reply_literal_string)
  show "sends J (users J) r (200, Value (users_json J))"
    using sends_json [of J 200 "users_json J"] by (simp add: users_def users_json_def Let_def)
  show "sends J (health J) r (200, Value (health_json J))"
    using sends_json [of J 200 "health_json J"] by (simp add: health_def health_json_def)
  show "sends J (api_info J) r (200, Value (info_json J))"
    using sends_json [of J 200 "info_json J"] by (simp add: api_info_def info_json_def)
  show "sends J (error_page J) r (500, Value (failure_json J))"
    using sends_json [of J 500 "failure_json J"] by (simp add: error_page_def failure_json_def)
  show "sends J (echo J) r (200, Value (echo_json J r))"
    by (rule sends_value) (simp add: echo_def echo_json_def Let_def)
qed

lemma sends_with_id:
  assumes "params r = [(''id'', v)]"
  shows "sends J (me J) r (200, Value (j_object J (strings_json J [(''name'', ''ahmed''), (''id'', v)])))"
    "sends J (user_by_id J) r (200, Value (user_json J v))"
    "sends J (user_data J) r (200, Value (data_json J v))"
    "sends J (update_user J) r (200, Value (updated_json J (req_body r) v))"
proof -
  have p: "param ''id'' c = (v, c)" if "req c = r" for c :: "('a, rest_world) ctx"
    using that assms by (simp add: param_def smap_index_def smap_get_def)
  show "sends J (me J) r (200, Value (j_object J (strings_json J [(''name'', ''ahmed''), (''id'', v)])))"
    by (rule sends_value) (simp add: me_def p)
  show "sends J (user_by_id J) r (200, Value (user_json J v))"
    by (rule sends_value) (simp add: user_by_id_def p)
  show "sends J (user_data J) r (200, Value (data_json J v))"
    by (rule sends_value) (simp add: user_data_def data_json_def p)
  show "sends J (update_user J) r (200, Value (updated_json J (req_body r) v))"
    by (rule sends_value) (simp add: update_user_def updated_json_def p Let_def)
qed

lemma sends_with_name:
  assumes "params r = [(''name'', v)]"
  shows "sends J name_page r (200, Page (greeting (req_method r) v))"
    "sends J (delete_name J) r (200, Value (deleted_json J v))"
proof -
  have p: "param ''name'' c = (v, c)" if "req c = r" for c :: "('a, rest_world) ctx"
    using that assms by (simp add: param_def smap_index_def smap_get_def)
  show "sends J name_page r (200, Page (greeting (req_method r) v))"
    by (rule sends_text [where f = "\<lambda>c. c"]) (simp add: name_page_def greeting_def p)
  show "sends J (delete_name J) r (200, Value (deleted_json J v))"
    by (rule sends_value) (simp add: delete_name_def deleted_json_def p)
qed

lemma sends_policy:
  assumes "params r = [(''id'', v), (''policyId'', u)]"
  shows "sends J (user_policy J) r (200, Value (policy_json J v u))"
proof -
  have p: "param ''id'' c = (v, c)" "param ''policyId'' c = (u, c)" if "req c = r" for c :: "('a, rest_world) ctx"
    using that assms by (simp_all add: param_def smap_index_def smap_get_def)
  show ?thesis by (rule sends_value) (simp add: user_policy_def policy_json_def p)
qed

text \<open>The handler of the pattern that covers a request sends the page of the specification.\<close>

lemma covers_Cons: "covers (Lit x # p) ss \<longleftrightarrow> (\<exists>ws. ss = x # ws \<and> covers p ws)"
  "covers (Par # p) ss \<longleftrightarrow> (\<exists>v ws. ss = v # ws \<and> covers p ws)" "covers [] ss \<longleftrightarrow> ss = []"
  by (auto simp: covers_def list_all2_Cons1)

lemma smap_of_one: "smap_of [(k, v)] = [(k, v)]"
  by (simp add: smap_of_def)

lemma smap_of_policy: "smap_of [(''id'', v), (''policyId'', u)] = [(''id'', v), (''policyId'', u)]"
  by (simp add: smap_of_def)

lemma rest_page_words: "reads (req_method r) \<Longrightarrow> page_of_words J ws = Some a \<Longrightarrow> rest_page J r ws = Some a"
  by (simp add: rest_page_def Let_def)

lemma page_of_words_simps:
  "page_of_words J [] = Some (200, Page ''<html><body>HELLO</body></html>'')"
  "page_of_words J [''api''] = Some (200, Page ''Authorized'')"
  "page_of_words J [''users''] = Some (200, Value (users_json J))"
  "page_of_words J [''health''] = Some (200, Value (health_json J))"
  "page_of_words J [''api'', ''info''] = Some (200, Value (info_json J))"
  "page_of_words J [''error''] = Some (500, Value (failure_json J))"
  by (simp_all add: page_of_words_def)

lemma rest_page_two:
  assumes "reads (req_method r)"
  shows "rest_page J r [''me'', v] = Some (200, Value (j_object J (strings_json J [(''name'', ''ahmed''), (''id'', v)])))"
    "rest_page J r [''users'', v] = Some (200, Value (user_json J v))"
    "rest_page J r [''names'', v] = Some (200, Page (greeting (req_method r) v))"
    "rest_page J r [''users'', v, ''data''] = Some (200, Value (data_json J v))"
    "rest_page J r [''users'', v, ''policy'', u] = Some (200, Value (policy_json J v u))"
  using assms by (simp_all add: rest_page_def page_of_words_def Let_def)

lemma rest_read_hit:
  assumes "(q, h) \<in> set (read_entries J (m @ '':''))" and "covers q ((m @ '':'') # ws)" and "reads m"
    and "req_method r = m" and "params r = smap_of (reg_binds (rest_server J) q ((m @ '':'') # ws))"
  shows "\<exists>a. rest_page J r ws = Some a \<and> sends J h r a"
proof -
  have m: "m @ '':'' = ''GET:'' \<or> m @ '':'' = ''HEAD:''" using assms(3) by (auto simp: reads_def)
  note binds = rest_binds(1-5) [OF this, of J] 
  have r: "reads (req_method r)" using assms(3,4) by simp
  show ?thesis
    using assms(1,2,5) r unfolding read_entries_def list.set insert_iff empty_iff prod.inject
    by (elim disjE conjE; simp add: covers_Cons del: append_Cons append_Nil)
      (auto simp: binds smap_of_one smap_of_policy rest_page_two page_of_words_simps rest_page_words sends_handlers
        intro: sends_with_id sends_with_name sends_policy)
qed

lemma rest_page_writes:
  "req_method r = ''POST'' \<Longrightarrow> rest_page J r [''echo''] = Some (200, Value (echo_json J r))"
  "req_method r = ''DELETE'' \<Longrightarrow> rest_page J r [''names'', v] = Some (200, Value (deleted_json J v))"
  "req_method r = ''POST'' \<Longrightarrow> rest_page J r [''users'', v] = Some (200, Value (updated_json J (req_body r) v))"
  by (simp_all add: rest_page_def reads_def Let_def)

lemma rest_write_hit:
  assumes "(q, h) \<in> set (write_entries J)" and "covers q ((m @ '':'') # ws)"
    and "req_method r = m" and "params r = smap_of (reg_binds (rest_server J) q ((m @ '':'') # ws))"
  shows "\<exists>a. rest_page J r ws = Some a \<and> sends J h r a"
proof -
  note binds = rest_binds(6,7) [OF disjI1 [OF refl], of J]
  have colon: "m @ '':'' = x @ '':'' \<longleftrightarrow> m = x" for x by simp
  show ?thesis
    using assms colon [of "''POST''"] colon [of "''DELETE''"]
    unfolding write_entries_def list.set insert_iff empty_iff prod.inject
    by (elim disjE conjE; simp add: covers_Cons del: append_Cons append_Nil)
      (auto simp: binds smap_of_one rest_page_writes sends_handlers intro: sends_with_id sends_with_name)
qed

lemma rest_read_entries_method: "(q, h) \<in> set (read_entries J x) \<Longrightarrow> covers q (y # ws) \<Longrightarrow> x = y"
  by (auto simp: read_entries_def covers_Cons)

lemma rest_hit:
  assumes "best (table (rest_server J)) ((req_method r @ '':'') # ws) = Some q"
    and "table (rest_server J) q = Some h"
    and "params r = smap_of (reg_binds (rest_server J) q ((req_method r @ '':'') # ws))"
  shows "\<exists>a. rest_page J r ws = Some a \<and> sends J h r a"
proof -
  have cov: "covers q ((req_method r @ '':'') # ws)" using best_SomeD [OF assms(1)] by (simp add: candidates_covers del: candidates.simps)
  from rest_table_SomeD [OF assms(2)] show ?thesis
  proof (elim disjE)
    assume e: "(q, h) \<in> set (read_entries J ''GET:'')"
    from rest_read_entries_method [OF this cov] have "req_method r = ''GET''"
      using append_same_eq [of "''GET''" "'':''" "req_method r"] by simp
    with e rest_read_hit [OF _ cov _ refl assms(3)] show ?thesis by (simp add: reads_def)
  next
    assume e: "(q, h) \<in> set (read_entries J ''HEAD:'')"
    from rest_read_entries_method [OF this cov] have "req_method r = ''HEAD''"
      using append_same_eq [of "''HEAD''" "'':''" "req_method r"] by simp
    with e rest_read_hit [OF _ cov _ refl assms(3)] show ?thesis by (simp add: reads_def)
  next
    assume "(q, h) \<in> set (write_entries J)"
    from rest_write_hit [OF this cov refl assms(3)] show ?thesis .
  qed
qed

lemma rest_table_entries:
  "reads m \<Longrightarrow> (q, h) \<in> set (read_entries J (m @ '':'')) \<Longrightarrow> table (rest_server J) q \<noteq> None"
  "(q, h) \<in> set (write_entries J) \<Longrightarrow> table (rest_server J) q \<noteq> None"
  unfolding rest_table_eq by (auto simp: map_of_eq_None_iff reads_def image_iff intro: bexI [of _ "(q, h)"])

lemma rest_miss:
  assumes "best (table (rest_server J)) ((req_method r @ '':'') # ws) = None"
  shows "rest_page J r ws = None"
proof -
  let ?m = "req_method r"
  have none: "table (rest_server J) q = None" if "covers q ((?m @ '':'') # ws)" for q
    using assms that by (simp add: best_None_iff)
  have w: "\<forall>(q, h) \<in> set (write_entries J). \<not> covers q ((?m @ '':'') # ws)"
    using none rest_table_entries(2) by blast
  have writes: "?m = ''POST'' \<Longrightarrow> ws \<noteq> [''echo'']" "?m = ''POST'' \<Longrightarrow> ws \<noteq> [''users'', v]"
    "?m = ''DELETE'' \<Longrightarrow> ws \<noteq> [''names'', v]" for v
    using w by (auto simp: write_entries_def covers_Cons)
  have pages: "page_of_words J ws = None \<and> param_page J r ws = None" if "reads ?m"
  proof -
    have "\<forall>(q, h) \<in> set (read_entries J (?m @ '':'')). \<not> covers q ((?m @ '':'') # ws)"
      using none rest_table_entries(1) [OF that] by blast
    then have f: "ws \<noteq> []" "ws \<noteq> [''api'']" "ws \<noteq> [''users'']" "ws \<noteq> [''health'']" "ws \<noteq> [''api'', ''info'']"
      "ws \<noteq> [''error'']" "ws \<noteq> [''me'', v]" "ws \<noteq> [''users'', v]" "ws \<noteq> [''names'', v]"
      "ws \<noteq> [''users'', v, ''data'']" "ws \<noteq> [''users'', v, ''policy'', u]" for v u
      by (simp_all add: read_entries_def covers_Cons) (rule notI, simp)+
    then show ?thesis
      using that by (cases "(J, r, ws)" rule: param_page.cases) (auto simp: page_of_words_def reads_def)
  qed
  moreover have "param_page J r ws = None" if "\<not> reads ?m"
    using that writes by (cases "(J, r, ws)" rule: param_page.cases) auto
  ultimately show ?thesis using writes(1) by (auto simp: rest_page_def)
qed

end
