(* ===== verification/Rest_Site.thy ===== *)
theory Rest_Site
  imports Site_Apps Rest_Pages
begin

text \<open>
  The whole of \<open>examples/rest_api\<close> in its event loop: \<open>rest_answer\<close> says what a client gets for a
  request, in terms of its method, path, key and body alone, and every connection is answered so.
\<close>

section \<open>Answers\<close>

text \<open>The text of a content; \<open>dump\<close> may throw.\<close>

fun content_text :: "'j json_lib \<Rightarrow> 'j content \<Rightarrow> string + string" where
  "content_text J (Page t) = Inr t"
| "content_text J (Value j) = j_dump J j"

definition line_of :: "int \<Rightarrow> string" where
  "line_of s = ''HTTP/1.1 '' @ (if s = 401 then ''401 Unauthorized'' else if s = 404 then ''404 Not Found'' else if s = 500 then ''500 Internal Server Error'' else ''200 OK'')"

definition known :: "int \<Rightarrow> bool" where
  "known s \<longleftrightarrow> s \<in> {200, 401, 404, 500}"

lemma known_statuses [simp]: "known 200" "known 401" "known 404" "known 500"
  by (simp_all add: known_def)

definition body_for :: "'j request \<Rightarrow> string \<Rightarrow> string option" where
  "body_for r t = (if req_method r = ''HEAD'' then None else Some t)"

lemma status_line_of:
  assumes "status r = s" and "known s" and "res_protocol r = ''HTTP/1.1''"
  shows "status_line r = line_of s"
proof -
  have "int_to_string 200 = ''200''" "getResponseMessage 200 = ''OK''"
    "int_to_string 401 = ''401''" "getResponseMessage 401 = ''Unauthorized''"
    "int_to_string 404 = ''404''" "getResponseMessage 404 = ''Not Found''"
    "int_to_string 500 = ''500''" "getResponseMessage 500 = ''Internal Server Error''" by code_simp+
  with assms show ?thesis by (auto simp: status_line_def line_of_def known_def)
qed

lemma reply_of_sent:
  assumes "body_payload J (res_body (res c)) = Inr t" and "status (res c) = s" and "known s"
    and "res_protocol (res c) = ''HTTP/1.1''"
  shows "reply_of J c = (line_of s, body_for (req c) t)"
  using assms status_line_of [OF assms(2-4)] by (simp add: reply_of_def answer_of_def body_for_def)

text \<open>What a client gets for a content that is sent by itself, or with headers set before.\<close>

definition fresh :: "('j, 'w) ctx \<Rightarrow> bool" where
  "fresh c \<longleftrightarrow> headers_safe (res c) \<and> res_protocol (res c) = ''HTTP/1.1''"

lemma freshD: "fresh c \<Longrightarrow> headers_safe (res c)" "fresh c \<Longrightarrow> res_protocol (res c) = ''HTTP/1.1''"
  by (simp_all add: fresh_def)

definition replied :: "'j json_lib \<Rightarrow> 'j request \<Rightarrow> ('j, 'w) outcome \<Rightarrow> answer \<Rightarrow> bool" where
  "replied J r out a \<longleftrightarrow>
     (\<exists>c. out = Ret c \<and> framable J (res c) \<and> req_method (req c) = req_method r \<and> reply_of J c = a)"

lemma reply_string_replied:
  assumes "fresh c" and "req_method (req c) = req_method r" and "known s"
  shows "replied J r (reply_string s t c) (line_of s, body_for r t)"
proof -
  let ?c = "c\<lparr>res := send_text t (set_status s (res c))\<rparr>"
  have "framable J (res ?c)" using freshD [OF assms(1)] by (simp add: framable_send)
  moreover have "reply_of J ?c = (line_of s, body_for (req ?c) t)"
    using assms(2,3) freshD [OF assms(1)] by (intro reply_of_sent) simp_all
  moreover have "body_for (req c) t = body_for r t" using assms(2) by (simp add: body_for_def)
  ultimately show ?thesis using assms(2) by (simp add: replied_def reply_string_def)
qed

lemma reply_json_replied:
  assumes "fresh c" and "req_method (req c) = req_method r" and "known s" and "j_dump J j = Inr t"
  shows "replied J r (reply_json J s j c) (line_of s, body_for r t)"
proof -
  have safe: "headers_safe (set_status s (res c))" using freshD [OF assms(1)] by simp
  obtain r' where sent: "send_json J j (set_status s (res c)) = (None, r')" "status r' = s"
    "res_protocol r' = ''HTTP/1.1''" "body_payload J (res_body r') = Inr t" "framable J r'"
    using send_json_dump [OF assms(4), of "set_status s (res c)"] safe freshD(2) [OF assms(1)] by fastforce
  have "reply_of J (c\<lparr>res := r'\<rparr>) = (line_of s, body_for (req c) t)"
    using reply_of_sent [of J "c\<lparr>res := r'\<rparr>" t s] sent assms(3) by simp
  moreover have "body_for (req c) t = body_for r t" using assms(2) by (simp add: body_for_def)
  ultimately show ?thesis using sent assms(2) by (simp add: replied_def reply_json_def)
qed

lemma sends_replied:
  assumes "sends J h (req c) (s, x)" and "content_text J x = Inr t" and "fresh c"
    and "req_method (req c) = req_method r" and "known s"
  shows "replied J r (h c) (line_of s, body_for r t)"
proof -
  obtain c1 where c1: "req_method (req c1) = req_method r" "res c1 = res c"
    "h c = (case x of Page t \<Rightarrow> reply_string s t c1 | Value j \<Rightarrow> reply_json J s j c1)"
    using assms(1) unfolding sends_def fst_conv snd_conv assms(4) by blast
  then have "fresh c1" using assms(3) by (simp add: fresh_def)
  with c1 assms(2,5) show ?thesis
    by (cases x) (simp_all add: reply_string_replied reply_json_replied)
qed

section \<open>The pages of the router\<close>

lemma resolve_all_literal:
  assumes "\<And>q h. table reg q = Some h \<Longrightarrow> Par \<notin> set q"
  shows "resolve reg m p = table reg (map Lit (route_segments m p))"
proof (cases "table reg (map Lit (route_segments m p))")
  case None
  have "table reg q = None" if cov: "covers q (route_segments m p)" for q
  proof (rule ccontr)
    assume "table reg q \<noteq> None"
    with assms have "Par \<notin> set q" by auto
    with cov have "q = map Lit (route_segments m p)"
      by (intro nth_equalityI) (auto simp: covers_def list_all2_conv_all_nth, metis nth_mem)
    with None \<open>table reg q \<noteq> None\<close> show False by simp
  qed
  with None show ?thesis by (simp add: resolve_None_iff)
qed (simp add: resolve_literals)

definition below_router :: "string \<Rightarrow> bool" where
  "below_router p \<longleftrightarrow> p = ''/router'' \<or> prefix ''/router/'' p"

definition router_text :: "string list \<Rightarrow> string option" where
  "router_text ws =
     (if ws = [] then Some ''<html><body>BASE ROUTER - Authenticated!</body></html>''
      else if ws = [''profile''] then Some ''<html><body>User Profile</body></html>'' else None)"

lemma router_table:
  "table (rregistry (rest_store J 0)) =
     [[Lit ''GET:''] \<mapsto> router_home, [Lit ''HEAD:''] \<mapsto> router_home,
      [Lit ''GET:'', Lit ''profile''] \<mapsto> router_profile, [Lit ''HEAD:'', Lit ''profile''] \<mapsto> router_profile,
      [Lit ''GET:'', Lit ''file.txt''] \<mapsto> router_file J, [Lit ''HEAD:'', Lit ''file.txt''] \<mapsto> router_file J]"
  by (simp add: rest_store_def rest_router_def new_router_at_def rest_verbs segment_eval)

lemma router_resolve:
  "resolve (rregistry (rest_store J 0)) m p =
     (case route_segments m p of
        x # ws \<Rightarrow>
          if x = ''GET:'' \<or> x = ''HEAD:'' then
            (if ws = [] then Some router_home else if ws = [''profile''] then Some router_profile
             else if ws = [''file.txt''] then Some (router_file J) else None)
          else None
      | [] \<Rightarrow> None)"
proof -
  have "resolve (rregistry (rest_store J 0)) m p =
      table (rregistry (rest_store J 0)) (map Lit (route_segments m p))"
    by (rule resolve_all_literal) (auto simp: router_table split: if_splits)
  then show ?thesis
    by (cases "route_segments m p") (auto simp: router_table map_eq_Cons_conv)
qed

lemma router_path:
  "server_matches ''/router'' p \<longleftrightarrow> below_router p"
proof -
  have "below_router p" if "prefix ''/router'' p" "length p \<noteq> length ''/router'' \<longrightarrow> p ! length ''/router'' = SLASH"
  proof -
    obtain t where p: "p = ''/router'' @ t" using \<open>prefix ''/router'' p\<close> by (rule prefixE)
    with that(2) show ?thesis by (cases t) (auto simp: below_router_def)
  qed
  moreover have "server_matches ''/router'' p" if "below_router p"
    using that by (auto simp: below_router_def server_matches_def prefix_def)
  ultimately show ?thesis by (auto simp: server_matches_def)
qed

lemma router_segments:
  assumes "method_ok m" and "below_router p"
  shows "route_segments m (server_relative ''/router'' p) = (m @ '':'') # split (drop 7 p) ''/''"
proof -
  obtain t where p: "p = ''/router'' @ t" and t: "t = [] \<or> (\<exists>u. t = SLASH # u)"
    using assms(2) by (auto simp: below_router_def prefix_def)
  then have "server_relative ''/router'' p = (if t = [] then ''/'' else t)" "drop 7 p = t"
    by (auto simp: server_relative_def sub_relative_def)
  with t show ?thesis using route_segments_slash [OF assms(1)] split_slash by auto
qed

section \<open>The answer of every request\<close>

text \<open>
  The specification of the application, in the order in which a request meets its parts: the pages of
  the router, which is mounted before everything else, the guard, and the routes.
\<close>

definition router_page :: "'j request \<Rightarrow> string option" where
  "router_page r =
     (if reads (req_method r) \<and> below_router (req_path r) then router_text (split (drop 7 (req_path r)) ''/'') else None)"

definition rest_content :: "'j json_lib \<Rightarrow> 'j request \<Rightarrow> int \<times> 'j content" where
  "rest_content J r =
     (case router_page r of
        Some t \<Rightarrow> (200, Page t)
      | None \<Rightarrow>
          if prefix ''/api'' (req_path r) \<and> smap_get (req_headers r) ''X-API-Key'' \<noteq> Some ''Bearer token''
          then (401, Page ''Unauthorized'')
          else case rest_page J r (split (req_path r) ''/'') of
              Some a \<Rightarrow> a | None \<Rightarrow> (404, Value (not_found_json J r)))"

definition rest_answer :: "'j json_lib \<Rightarrow> 'j request \<Rightarrow> answer" where
  "rest_answer J r =
     (case rest_content J r of
        (s, x) \<Rightarrow> (line_of s, case content_text J x of Inl what \<Rightarrow> None | Inr t \<Rightarrow> body_for r t))"

text \<open>
  What is asked of a request: a method and a path as llhttp delivers them, and that the library can print
  the JSON of its answer. The page that shows a file is left out, since what it shows is on the disk.
\<close>

definition rest_asks :: "'j json_lib \<Rightarrow> 'j request \<Rightarrow> bool" where
  "rest_asks J r \<longleftrightarrow>
     method_ok (req_method r) \<and> req_path r \<noteq> [] \<and> hd (req_path r) = SLASH \<and>
     \<not> (reads (req_method r) \<and> below_router (req_path r) \<and> split (drop 7 (req_path r)) ''/'' = [''file.txt'']) \<and>
     (\<exists>t. content_text J (snd (rest_content J r)) = Inr t)"

lemma reads_colon: "reads m \<longleftrightarrow> m @ '':'' = ''GET:'' \<or> m @ '':'' = ''HEAD:''"
  using append_same_eq [of m "'':''" "''GET''"] append_same_eq [of m "'':''" "''HEAD''"] by (simp add: reads_def)

lemma router_literals:
  "router_home = reply_string 200 ''<html><body>BASE ROUTER - Authenticated!</body></html>''"
  "router_profile = reply_string 200 ''<html><body>User Profile</body></html>''"
  by (simp_all add: router_home_def router_profile_def reply_literal_string)

lemma router_serves:
  assumes "rest_asks J r"
  shows "(case router_page r of
      Some t \<Rightarrow> server_matches ''/router'' (req_path r) \<and>
        resolve (rregistry (rest_store J 0)) (req_method r) (server_relative ''/router'' (req_path r)) =
          Some (reply_string 200 t)
    | None \<Rightarrow> \<not> mount_serves (rest_store J) (''/router'', 0) (start_ctx J junk r w))"
proof (cases "below_router (req_path r)")
  case True
  have m: "method_ok (req_method r)" using assms by (simp add: rest_asks_def)
  let ?ws = "split (drop 7 (req_path r)) ''/''"
  have found: "resolve (rregistry (rest_store J 0)) (req_method r) (server_relative ''/router'' (req_path r)) =
      (if reads (req_method r) then
         (if ?ws = [] then Some router_home else if ?ws = [''profile''] then Some router_profile
          else if ?ws = [''file.txt''] then Some (router_file J) else None) else None)"
    unfolding router_resolve router_segments [OF m True] list.case reads_colon ..
  show ?thesis
    using assms True found by (auto simp: rest_asks_def router_page_def router_path router_text_def mount_serves_def router_literals)
qed (simp add: router_page_def mount_serves_def router_path)

section \<open>The application follows the specification\<close>

lemma fresh_start: "fresh (start_ctx J junk r w)"
  by (simp add: fresh_def)

lemma fresh_entered: "fresh (entered (start_ctx J junk r w))"
  by (simp add: fresh_def)

lemma replied_left: "replied J r out a \<Longrightarrow> replied J r (and_then out (\<lambda>c. Ret (left t c))) a"
  by (cases out) (auto simp: replied_def reply_of_def answer_of_def)

lemma page_of_words_known: "page_of_words J ws = Some a \<Longrightarrow> known (fst a)"
  by (auto simp: page_of_words_def split: if_splits)

lemma param_page_known: "param_page J r ws = Some a \<Longrightarrow> known (fst a)"
  by (induction J r ws rule: param_page.induct) (auto split: if_splits)

lemma rest_page_known: "rest_page J r ws = Some a \<Longrightarrow> known (fst a)"
  by (auto simp: rest_page_def split: if_splits dest: page_of_words_known param_page_known)

lemma param_page_params [simp]: "param_page J (r\<lparr>params := ps\<rparr>) ws = param_page J r ws"
  by (induction J r ws rule: param_page.induct) simp_all

lemma echo_json_params [simp]: "echo_json J (r\<lparr>params := ps\<rparr>) = echo_json J r"
  by (simp add: echo_json_def)

lemma rest_page_params [simp]: "rest_page J (r\<lparr>params := ps\<rparr>) ws = rest_page J r ws"
proof -
  have "req_method (r\<lparr>params := ps\<rparr>) = req_method r" by simp
  then show ?thesis unfolding rest_page_def param_page_params echo_json_params by (simp only:)
qed

lemma rest_route_replied:
  assumes "method_ok (req_method r)" and "req_path r \<noteq> []" and "hd (req_path r) = SLASH"
    and "content = (case rest_page J r (split (req_path r) ''/'') of Some a \<Rightarrow> a | None \<Rightarrow> (404, Value (not_found_json J r)))"
    and "content_text J (snd content) = Inr t"
  shows "replied J r (rest_rest J (start_ctx J junk r w)) (line_of (fst content), body_for r t)"
proof -
  let ?c = "entered (start_ctx J junk r w)"
  obtain path where path: "req_path r = SLASH # path" using assms(2,3) by (cases "req_path r") auto
  have segs: "route_segments (req_method r) (req_path r) = (req_method r @ '':'') # split (req_path r) ''/''"
    using route_segments_slash [OF assms(1)] unfolding path split_slash .
  have "replied J r (runRoute J (rest_server J) ?c) (line_of (fst content), body_for r t)"
  proof (cases "best (table (rest_server J)) (route_segments (req_method r) (req_path r))")
    case None
    then have "content = (404, Value (not_found_json J r))" using rest_miss [where J = J and r = r] assms(4) unfolding segs by simp
    moreover have "runRoute J (rest_server J) ?c = reply_json J 404 (not_found_json J r) ?c"
      using None by (simp add: runRoute_def getHandler_resolve resolve_def reply_json_def split: prod.splits option.splits)
    ultimately show ?thesis
      using reply_json_replied [OF fresh_entered [of J junk r w], of r 404 J "not_found_json J r" t] assms(5) by simp
  next
    case (Some q)
    then obtain h where h: "table (rest_server J) q = Some h" using best_SomeD [OF Some] by auto
    let ?r = "r\<lparr>params := bindings (rest_server J) (req_method r) (req_path r)\<rparr>"
    obtain a where a: "rest_page J ?r (split (req_path r) ''/'') = Some a" "sends J h ?r a"
      using rest_hit [of J ?r "split (req_path r) ''/''" q h] Some h bindings_best [OF Some] unfolding segs by auto
    have "resolve (rest_server J) (req_method (req ?c)) (cpath ?c) = Some h"
      using Some h by (simp add: resolve_def)
    then have "runRoute J (rest_server J) ?c = h (?c\<lparr>req := ?r\<rparr>)" by (simp add: runRoute_found)
    moreover have "content = a" using a(1) assms(4) by simp
    moreover have "fresh (?c\<lparr>req := ?r\<rparr>)" using fresh_entered [of J junk r w] by (simp add: fresh_def)
    ultimately show ?thesis
      using sends_replied [of J h "?c\<lparr>req := ?r\<rparr>" "fst a" "snd a" t r] a assms(5) rest_page_known [OF a(1)] by simp
  qed
  then show ?thesis unfolding rest_rest_eq by (rule replied_left)
qed

lemma guard_passes:
  assumes "prefix path (cpath c) \<longrightarrow> smap_get (req_headers (req c)) ''X-API-Key'' = Some ''Bearer token''"
  shows "run_scoped path authMiddleware nxt c = nxt c"
proof (cases "prefix path (cpath c)")
  case True
  with assms have "smap_index ''X-API-Key'' (req_headers (req c)) = (''Bearer token'', req_headers (req c))"
    by (intro smap_index_Some) simp
  then show ?thesis by (simp add: run_scoped_def authMiddleware_def)
qed (simp add: run_scoped_def)

text \<open>The guard, and what is behind it, answer a request that the router does not.\<close>

lemma guard_replies:
  assumes "prefix ''/api'' (req_path r)" and "smap_get (req_headers r) ''X-API-Key'' \<noteq> Some ''Bearer token''"
  shows "replied J r (run_scoped ''/api'' authMiddleware nxt (start_ctx J junk r w)) (line_of 401, body_for r ''Unauthorized'')"
proof -
  let ?c = "start_ctx J junk r w"
  obtain key hs where key: "smap_index ''X-API-Key'' (req_headers r) = (key, hs)" by fastforce
  then have "key \<noteq> ''Bearer token''"
    using assms(2) smap_index_fst [of "''X-API-Key''" "req_headers r"] by (auto split: option.splits)
  then have "run_scoped ''/api'' authMiddleware nxt ?c =
      reply_string 401 ''Unauthorized'' (?c\<lparr>req := r\<lparr>req_headers := hs\<rparr>\<rparr>)"
    using assms(1) key by (simp add: run_scoped_def authMiddleware_def reply_string_def send_cstr_def send_text_def)
      (simp add: c_str_def)
  moreover have "fresh (?c\<lparr>req := r'\<rparr>)" for r' using fresh_start [of J junk r w] by (simp add: fresh_def)
  ultimately show ?thesis by (simp add: reply_string_replied)
qed

lemma behind_router_replied:
  assumes "rest_asks J r" and "router_page r = None" and content: "rest_content J r = (s, x)" "content_text J x = Inr t"
  shows "replied J r (run_scoped ''/api'' authMiddleware (rest_rest J) (start_ctx J junk r w)) (line_of s, body_for r t)"
proof (cases "prefix ''/api'' (req_path r) \<and> smap_get (req_headers r) ''X-API-Key'' \<noteq> Some ''Bearer token''")
  case True
  then have "s = 401" "t = ''Unauthorized''" using assms(2) content by (auto simp: rest_content_def)
  with guard_replies [of r J "rest_rest J" junk w] True show ?thesis by simp
next
  case False
  let ?c = "start_ctx J junk r w"
  have through: "run_scoped ''/api'' authMiddleware (rest_rest J) ?c = rest_rest J ?c"
    using False by (intro guard_passes) simp
  have page: "(s, x) =
      (case rest_page J r (split (req_path r) ''/'') of Some a \<Rightarrow> a | None \<Rightarrow> (404, Value (not_found_json J r)))"
    using assms(2) False unfolding content(1) [symmetric] by (auto simp: rest_content_def)
  have "method_ok (req_method r)" "req_path r \<noteq> []" "hd (req_path r) = SLASH"
    using assms(1) by (simp_all add: rest_asks_def)
  then have "replied J r (rest_rest J ?c) (line_of (fst (s, x)), body_for r t)"
    by (rule rest_route_replied [OF _ _ _ page]) (simp add: content(2))
  with through show ?thesis by simp
qed

lemma router_replies:
  assumes "rest_asks J r" and "router_page r = Some u"
  shows "replied J r (run_chain J (rest_store J) (rest_server J) (start_ctx J junk r w)) (line_of 200, body_for r u)"
proof -
  let ?c = "start_ctx J junk r w"
  have "server_matches ''/router'' (cpath ?c)"
    and "resolve (rregistry (rest_store J 0)) (req_method (req ?c)) (server_relative ''/router'' (cpath ?c)) =
      Some (reply_string 200 u)"
    using router_serves [OF assms(1), of junk w] assms(2) by simp_all
  from run_mounted_routes [where \<sigma> = "rest_store J" and r = 0, OF this]
  obtain ps where "run_chain J (rest_store J) (rest_server J) ?c =
      reply_string 200 u (?c\<lparr>req := r\<lparr>req_path := server_relative ''/router'' (req_path r), params := ps\<rparr>\<rparr>)"
    unfolding run_chain_rest by simp
  moreover have "fresh (?c\<lparr>req := r'\<rparr>)" for r' using fresh_start [of J junk r w] by (simp add: fresh_def)
  ultimately show ?thesis by (simp add: reply_string_replied)
qed

lemma rest_serves:
  assumes "rest_asks J r"
  shows "replied J r (run_chain J (rest_store J) (rest_server J) (start_ctx J junk r w)) (rest_answer J r)"
proof -
  obtain s x t where content: "rest_content J r = (s, x)" "content_text J x = Inr t"
    using assms by (cases "rest_content J r") (auto simp: rest_asks_def)
  then have answer: "rest_answer J r = (line_of s, body_for r t)" by (simp add: rest_answer_def)
  show ?thesis
  proof (cases "router_page r")
    case (Some u)
    then have "s = 200" "t = u" using content by (auto simp: rest_content_def)
    with router_replies [OF assms Some] show ?thesis unfolding answer by simp
  next
    case None
    then have "run_chain J (rest_store J) (rest_server J) (start_ctx J junk r w) =
        run_scoped ''/api'' authMiddleware (rest_rest J) (start_ctx J junk r w)"
      using router_serves [OF assms, of junk w] by (simp add: rest_not_mounted)
    with behind_router_replied [OF assms None content] show ?thesis unfolding answer by simp
  qed
qed

section \<open>Properties\<close>

text \<open>
  C2: The whole example application, from the bytes of its clients to the bytes of its answers: on every
  connection, in every trace of its event loop, whatever the clock, the disk, \<open>stop\<close> and the
  other connections do and however the bytes are cut, a client reads for each of its requests, in order, the answer of the
  specification: the pages of the mounted router, 401 below \<open>/api\<close> without the key, the page of the route
  with the values of its path, or 404; of a HEAD request the head alone. The page that shows a file is the
  only one left out.
\<close>

theorem rest_api_conversation:
  assumes "loop_trace J L (rest_store J) (rest_server J) junk tr (init_loop w) = Some st"
    and "list_all (taken_by_uv c) tr"
    and "lex_chunks L (chunks_of c tr) (ll_init L) = Some (concat (map msg_events ms) @ tail, l)"
    and "\<forall>m \<in> set ms. msg_ok 16384 m" and "unfinished 16384 tail" and "map (request_of J) ms = map Inr rs"
    and "\<forall>r \<in> set rs. rest_asks J r"
  shows "read_answers (map req_method rs) (concat (map wire (sent_on c st)) @ rest) = Some (map (rest_answer J) rs, rest) \<and>
    (ms \<noteq> [] \<and> \<not> m_keep (last ms) \<longrightarrow> \<not> open_conn st c)"
proof (rule connection_talk [OF assms(1-6)])
  show "serves J (rest_store J) (rest_server J) (rest_answer J) (set rs)"
    using rest_serves assms(7) unfolding serves_def replied_def by blast
qed

text \<open>The example: HEAD for the page of a user, then \<open>/api\<close> without a key.\<close>

definition rest_msgs :: "msg list" where
  "rest_msgs = [(get_msg [''/users/42''] True)\<lparr>m_method := ''HEAD''\<rparr>, get_msg [''/api''] False]"

definition rest_ll :: "unit llhttp" where
  "rest_ll = script_ll (concat (map msg_events rest_msgs))"

lemma rest_requests:
  "\<exists>r1 r2. map (request_of text_json) rest_msgs = map Inr [r1, r2] \<and>
    req_method r1 = ''HEAD'' \<and> req_path r1 = ''/users/42'' \<and>
    req_method r2 = ''GET'' \<and> req_path r2 = ''/api'' \<and> smap_get (req_headers r2) ''X-API-Key'' = None"
proof -
  have "\<exists>r. request_of text_json ((get_msg [p] keep)\<lparr>m_method := m\<rparr>) = Inr r \<and> req_method r = m \<and> req_path r = p \<and>
      smap_get (req_headers r) ''X-API-Key'' = None"
    if "p = ''/users/42'' \<or> p = ''/api''" for p keep m
    using that by (auto simp: request_of_def build_request_def get_msg_def applyTarget_def strip_authority_def str_find_def Let_def
      smap_of_def join_headers_def smap_get_def)
  from this [where p = "''/users/42''" and keep = True and m = "''HEAD''"]
    this [where p = "''/api''" and keep = False and m = "''GET''"] show ?thesis
    by (simp add: rest_msgs_def get_msg_def) blast
qed

theorem rest_api_conversation_witness:
  "\<exists>st. loop_trace text_json rest_ll (rest_store text_json) (rest_server text_json) (\<lambda>n. 0) sample_trace
      (init_loop sample_rest_world) = Some st \<and>
    read_answers [''HEAD'', ''GET''] (concat (map wire (sent_on 7 st)) @ []) =
      Some ([(''HTTP/1.1 200 OK'', None), (''HTTP/1.1 401 Unauthorized'', Some ''Unauthorized'')], []) \<and>
    \<not> open_conn st 7"
proof -
  obtain st where st: "loop_trace text_json rest_ll (rest_store text_json) (rest_server text_json) (\<lambda>n. 0) sample_trace
      (init_loop sample_rest_world) = Some st"
    by (simp add: sample_trace_def init_loop_def onConnection_def stop_def open_conn_def conn_of_def
      new_conn_def Let_def)
  obtain r1 r2 where rs: "map (request_of text_json) rest_msgs = map Inr [r1, r2]"
    "req_method r1 = ''HEAD''" "req_path r1 = ''/users/42''" "req_method r2 = ''GET''" "req_path r2 = ''/api''"
    "smap_get (req_headers r2) ''X-API-Key'' = None"
    using rest_requests by blast
  have chunks: "lex_chunks rest_ll (chunks_of 7 sample_trace) (ll_init rest_ll) =
      Some (concat (map msg_events rest_msgs) @ [], ())"
    by (simp add: sample_trace_def chunks_of_def rest_ll_def script_ll_def)
  have ok: "\<forall>m \<in> set rest_msgs. msg_ok 16384 m"
    by (simp add: rest_msgs_def get_msg_def msg_ok_def headers_ok_def header_bytes_def)
  have taken: "list_all (taken_by_uv 7) sample_trace" by (simp add: sample_trace_def)
  have content: "rest_content text_json r1 = (200, Value (user_json text_json ''42''))"
    "rest_content text_json r2 = (401, Page ''Unauthorized'')"
    using rs(2-6) by (simp_all add: rest_content_def router_page_def below_router_def rest_page_def reads_def
        segment_eval page_of_words_def)
  have asks: "\<forall>r \<in> set [r1, r2]. rest_asks text_json r"
    using rs(2-5) content by (simp add: rest_asks_def below_router_def)
  have "unfinished 16384 []" by (simp add: unfinished_def)
  from rest_api_conversation [OF st taken chunks ok this rs(1) asks, of "[]"]
  have "read_answers (map req_method [r1, r2]) (concat (map wire (sent_on 7 st)) @ []) = Some (map (rest_answer text_json) [r1, r2], [])"
    "rest_msgs \<noteq> [] \<and> \<not> m_keep (last rest_msgs) \<longrightarrow> \<not> open_conn st 7" by simp_all
  moreover have "rest_msgs \<noteq> []" "\<not> m_keep (last rest_msgs)" by (simp_all add: rest_msgs_def get_msg_def)
  ultimately show ?thesis using st rs(2,4) content by (simp add: rest_answer_def body_for_def line_of_def)
qed

end
