(* ===== verification/Wasm_Routing.thy ===== *)
theory Wasm_Routing
  imports Wasm_Contract
begin

text \<open>
  The playground and the server. The WebAssembly module exists to show in a browser what the server
  would do with a request; both keep their routes in the same trie, the module with handlers that only
  report their number. A trie whose handlers are replaced (\<open>map_node\<close>) is built and searched alike, so
  the module and a server with the same routes answer alike.
\<close>

section \<open>Tries that differ in their handlers only\<close>

lemma AList_update_map:
  "map (map_prod id g) (AList.update k v xs) = AList.update k (g v) (map (map_prod id g) xs)"
  by (induction xs) auto

lemma map_new_node [simp]: "map_node f (new_node s) = new_node s" "map_node f empty_node = empty_node"
  by (simp_all add: new_node_def empty_node_def)

lemma map_insertChild:
  "(\<And>c. map_node f (k c) = k' (map_node f c)) \<Longrightarrow>
   map_node f (insertChild n s k) = insertChild (map_node f n) s k'"
  by (cases n) (auto simp: AList_update_map split: option.splits)

lemma map_insert_segments:
  "map_node f (insert_segments n ss h) = insert_segments (map_node f n) ss (map_option f h)"
proof (induction ss arbitrary: n)
  case Nil
  show ?case by (cases n) simp
next
  case (Cons s ss)
  then show ?case by (simp add: map_insertChild)
qed

lemma map_node_fields:
  "handler (map_node f n) = map_option f (handler n)"
  "children (map_node f n) = map (map_prod id (map_node f)) (children n)"
  "paramChild (map_node f n) = map_option (map_node f) (paramChild n)"
  "parameterName (map_node f n) = parameterName n"
  by (cases n; simp)+

lemma findFrom_map:
  "findFrom (map_node f n) ss ps =
     (map_option (map_node f) (fst (findFrom n ss ps)), snd (findFrom n ss ps))"
proof (induction n ss ps rule: findFrom.induct)
  case (1 node params)
  show ?case by (simp add: map_node_fields)
next
  case (2 node s ss params)
  let ?lit = "\<lambda>n. case map_of (children n) s of
      Some literal \<Rightarrow> findFrom literal ss params | None \<Rightarrow> (None, params)"
  obtain hit ps1 where lit: "?lit node = (hit, ps1)" by fastforce
  have "?lit (map_node f node) = (map_option (map_node f) (fst (?lit node)), snd (?lit node))"
    using 2(1) by (cases "map_of (children node) s") (simp_all add: map_node_fields)
  then have lit': "?lit (map_node f node) = (map_option (map_node f) hit, ps1)" by (simp add: lit)
  show ?case
  proof (cases "hit = None \<and> paramChild node \<noteq> None")
    case False
    with lit lit' show ?thesis by (cases hit) (simp_all add: map_node_fields)
  next
    case True
    then obtain child where child: "paramChild node = Some child" by auto
    let ?sub = "smap_set (parameterName child) s ps1"
    obtain h2 ps2 where sub: "findFrom child ss ?sub = (h2, ps2)" by fastforce
    have "findFrom (map_node f child) ss ?sub =
        (map_option (map_node f) (fst (findFrom child ss ?sub)), snd (findFrom child ss ?sub))"
      by (rule 2(2) [OF lit [symmetric] _ child refl refl]) (use True in simp)
    with sub have "findFrom (map_node f child) ss ?sub = (map_option (map_node f) h2, ps2)" by simp
    with True lit lit' child sub show ?thesis
      by (cases h2) (simp_all add: map_node_fields Let_def)
  qed
qed

lemma map_node_insert: "map_node f (node_insert n path h) = node_insert (map_node f n) path (map_option f h)"
  by (simp add: node_insert_def map_insert_segments)

lemma searchNode_map:
  "searchNode \<lparr>root = map_node f n\<rparr> path ps =
     (map_option (map_node f) (fst (node_find n path ps)), snd (node_find n path ps))"
  by (simp add: searchNode_def node_find_def findFrom_map)

section \<open>The same routes, numbered\<close>

text \<open>A route: its method, its path and its handler. The trie of a list of routes with their numbers as handlers.\<close>

type_synonym ('j, 'w) route = "string \<times> string \<times> ('j, 'w) act"

definition route_text :: "('j, 'w) route \<Rightarrow> string" where
  "route_text r = fst r @ '' '' @ fst (snd r)"

definition numbered :: "('j, 'w) route list \<Rightarrow> nat node" where
  "numbered rs =
     fold (\<lambda>i n. node_insert n (fst (rs ! i) @ '':'' @ fst (snd (rs ! i))) (Some i)) [0..<length rs] empty_node"

lemma numbered_snoc: "numbered (rs @ [r]) = node_insert (numbered rs) (fst r @ '':'' @ fst (snd r)) (Some (length rs))"
proof -
  have "fold (\<lambda>i n. node_insert n (fst ((rs @ [r]) ! i) @ '':'' @ fst (snd ((rs @ [r]) ! i))) (Some i))
      [0..<length rs] empty_node = numbered rs"
    unfolding numbered_def by (rule fold_cong) (simp_all add: nth_append)
  then show ?thesis by (simp add: numbered_def)
qed

lemma numbered_Nil [simp]: "numbered [] = empty_node"
  by (simp add: numbered_def)

text \<open>A server with these routes, on a registry that may already have middleware.\<close>

definition serve_routes :: "('j, 'w) route list \<Rightarrow> ('j, 'w) registry \<Rightarrow> ('j, 'w) registry" where
  "serve_routes rs reg = fold (\<lambda>(m, p, h) reg. Register reg m p (Some h)) rs reg"

text \<open>The calls that hand the same routes to the module, after a reset.\<close>

definition play_routes :: "'j json_lib \<Rightarrow> ('j, 'w) route list \<Rightarrow> 'j wasm \<Rightarrow> 'j wasm" where
  "play_routes J rs s =
     fold (\<lambda>(m, p, h) s. snd (pw_register_route J (Some m) (Some p) s)) rs (pw_reset s)"

definition playable :: "('j, 'w) route \<Rightarrow> bool" where
  "playable r \<longleftrightarrow> fst r \<noteq> [] \<and> NUL \<notin> set (fst r) \<and> fst (snd r) \<noteq> [] \<and> hd (fst (snd r)) = SLASH \<and>
     NUL \<notin> set (fst (snd r))"

lemma serve_routes_snoc [simp]:
  "serve_routes (rs @ [(m, p, h)]) reg = Register (serve_routes rs reg) m p (Some h)"
  by (simp add: serve_routes_def)

lemma serve_routes_trie:
  "trie reg = new_trie \<Longrightarrow> (\<forall>i < length rs. f i = snd (snd (rs ! i))) \<Longrightarrow>
   trie (serve_routes rs reg) = \<lparr>root = map_node f (numbered rs)\<rparr>"
proof (induction rs rule: rev_induct)
  case Nil
  then show ?case by (simp add: serve_routes_def new_trie_def)
next
  case (snoc r rs)
  have "\<forall>i < length rs. f i = snd (snd (rs ! i))" using snoc.prems(2) by (auto simp: nth_append split: if_splits)
  with snoc have "trie (serve_routes rs reg) = \<lparr>root = map_node f (numbered rs)\<rparr>" by simp
  moreover have "f (length rs) = snd (snd r)" using snoc.prems(2) by simp
  ultimately show ?case
    by (cases r) (simp add: numbered_snoc map_node_insert Register_def trie_insert_def)
qed

lemma play_routes_state:
  "(\<forall>r \<in> set rs. playable r) \<Longrightarrow> distinct (map route_text rs) \<Longrightarrow> length rs < 2 ^ 31 \<Longrightarrow>
   patterns (play_routes J rs s) = map route_text rs \<and>
   trie (wregistry (play_routes J rs s)) = \<lparr>root = map_node (\<lambda>i. stub_handler (int i)) (numbered rs)\<rparr>"
proof (induction rs rule: rev_induct)
  case Nil
  then show ?case by (simp add: play_routes_def pw_reset_def new_registry_def new_trie_def)
next
  case (snoc r rs)
  obtain m p h where r: "r = (m, p, h)" by (cases r)
  let ?s = "play_routes J rs s"
  have IH: "patterns ?s = map route_text rs"
    "trie (wregistry ?s) = \<lparr>root = map_node (\<lambda>i. stub_handler (int i)) (numbered rs)\<rparr>"
    using snoc by simp_all
  have "pw_register_route J (Some m) (Some p) ?s =
      hold J 1 (j_object J [(''routeId'', j_int J (int (length (patterns ?s))))]) (add_route m p ?s)"
    using snoc.prems
    by (intro pw_register_route_new)
       (auto simp: r IH playable_def route_text_def text_arg_def c_str_no_NUL)
  then show ?case
    using IH by (simp add: play_routes_def r add_route_def numbered_snoc map_node_insert Register_def
        trie_insert_def route_text_def)
qed

lemma routes_numbered: "routes (numbered rs) p = Some i \<Longrightarrow> i < length rs"
proof (induction rs arbitrary: p i rule: rev_induct)
  case Nil
  then show ?case by simp
next
  case (snoc r rs)
  then show ?case
    by (auto simp: numbered_snoc node_insert_def routes_insert_segments split: if_splits
        intro: less_SucI)
qed

lemma node_find_numbered:
  assumes "node_find (numbered rs) path [] = (Some n, ps)" and "handler n = Some i"
  shows "i < length rs"
proof -
  have "find_spec (numbered rs) (split path ''/'') [] = (Some n, ps)"
    using assms(1) searchNode_spec [of "[]" "\<lparr>root = numbered rs\<rparr>" path] by (simp add: searchNode_def)
  then obtain p where "node_at (numbered rs) p = Some n" by (auto simp: find_spec_def split: option.splits)
  with assms(2) show ?thesis by (intro routes_numbered [of rs p]) (simp add: routes_def)
qed

text \<open>Both look the request up in the numbered trie.\<close>

lemma getHandler_map:
  "trie reg = \<lparr>root = map_node f n\<rparr> \<Longrightarrow>
   getHandler reg r =
     (case node_find n (req_method r @ '':'' @ req_path r) [] of
        (Some node, ps) \<Rightarrow>
          (case handler node of None \<Rightarrow> (None, r) | Some i \<Rightarrow> (Some (f i), r\<lparr>params := ps\<rparr>))
      | (None, _) \<Rightarrow> (None, r))"
  by (simp add: getHandler_def searchNode_map map_node_fields split: prod.split option.split)

section \<open>Properties\<close>

text \<open>
  C3: The playground tells the truth about the server. Give the module, after a reset, the routes of
  a server (as C strings, no two spelled alike): whatever request is dispatched, the module says that
  nothing matches exactly when the server finds no handler, and otherwise it names the number and the
  spelling of a route whose handler is the one the server runs, with the parameters it is run with.
\<close>

theorem playground_agrees_with_server:
  assumes "\<forall>route \<in> set rs. playable route" and "distinct (map route_text rs)" and "length rs < 2 ^ 31"
    and "trie reg = new_trie" and "NUL \<notin> set (req_method r)" and "NUL \<notin> set (req_path r)"
  shows "case getHandler (serve_routes rs reg) r of
      (None, r') \<Rightarrow> r' = r \<and>
        pw_dispatch J ms junk (Some (req_method r)) (Some (req_path r)) (play_routes J rs s) =
          hold J 2 (j_object J [(''matched'', j_bool J False), (''routeId'', j_int J (-1)),
            (''params'', j_object J []), (''ms'', ms)]) ((play_routes J rs s)\<lparr>lastRouteId := -1\<rparr>)
    | (Some h, r') \<Rightarrow> \<exists>i < length rs. snd (snd (rs ! i)) = h \<and>
        pw_dispatch J ms junk (Some (req_method r)) (Some (req_path r)) (play_routes J rs s) =
          hold J 2 (j_object J
            [(''matched'', j_bool J True), (''routeId'', j_int J (int i)),
             (''params'', params_json J (params r')), (''ms'', ms),
             (''pattern'', j_string J (route_text (rs ! i)))]) ((play_routes J rs s)\<lparr>lastRouteId := int i\<rparr>)"
proof -
  let ?s = "play_routes J rs s"
  let ?q = "dispatch_request J (Some (req_method r)) (Some (req_path r))"
  have arg: "text_arg (Some (req_method r)) = req_method r" "text_arg (Some (req_path r)) = req_path r"
    using assms(5,6) by (simp_all add: text_arg_def c_str_no_NUL)
  have pats: "patterns ?s = map route_text rs"
    and mod: "trie (wregistry ?s) = \<lparr>root = map_node (\<lambda>i. stub_handler (int i)) (numbered rs)\<rparr>"
    using play_routes_state [OF assms(1-3), of J s] by simp_all
  have srv: "trie (serve_routes rs reg) = \<lparr>root = map_node (\<lambda>i. snd (snd (rs ! i))) (numbered rs)\<rparr>"
    using assms(4) by (intro serve_routes_trie) simp_all
  obtain on ps where find: "node_find (numbered rs) (req_method r @ '':'' @ req_path r) [] = (on, ps)"
    by fastforce
  show ?thesis
  proof (cases "Option.bind on handler")
    case None
    then show ?thesis
      using find arg unfolding pw_dispatch_def Let_def dispatch_request_def [symmetric]
      by (cases on) (simp_all add: getHandler_map [OF srv] getHandler_map [OF mod])
  next
    case (Some i)
    then obtain n where n: "on = Some n" "handler n = Some i" by (cases on) auto
    have i: "i < length rs" using node_find_numbered [of rs _ n ps i] find n by blast
    moreover have "getHandler (serve_routes rs reg) r = (Some (snd (snd (rs ! i))), r\<lparr>params := ps\<rparr>)"
      using find n by (simp add: getHandler_map [OF srv])
    moreover have "pw_dispatch J ms junk (Some (req_method r)) (Some (req_path r)) ?s =
          hold J 2 (j_object J
            [(''matched'', j_bool J True), (''routeId'', j_int J (int i)),
             (''params'', params_json J ps), (''ms'', ms),
             (''pattern'', j_string J (route_text (rs ! i)))]) (?s\<lparr>lastRouteId := int i\<rparr>)"
      using find n i arg pats assms(3)
      unfolding pw_dispatch_def Let_def dispatch_request_def [symmetric]
      by (simp add: getHandler_map [OF mod] stub_handler_def)
    ultimately show ?thesis by auto
  qed
qed

definition two_routes :: "(string, unit) route list" where
  "two_routes = [(''GET'', ''/users/:id'', Ret), (''GET'', ''/users/new'', Exc (Std ''unavailable''))]"

theorem playground_agrees_with_server_witness:
  "pw_dispatch text_json [] 0 (Some ''GET'') (Some ''/users/42'') (play_routes text_json two_routes init_wasm) =
     hold text_json 2 (j_object text_json
       [(''matched'', j_bool text_json True), (''routeId'', j_int text_json 0),
        (''params'', params_json text_json [(''id'', ''42'')]), (''ms'', []),
        (''pattern'', j_string text_json ''GET /users/:id'')])
       ((play_routes text_json two_routes init_wasm)\<lparr>lastRouteId := 0\<rparr>)"
proof -
  let ?r = "(new_request text_json)\<lparr>req_method := ''GET'', req_path := ''/users/42''\<rparr>"
  have hit: "getHandler (serve_routes two_routes new_registry) ?r = (Some Ret, ?r\<lparr>params := [(''id'', ''42'')]\<rparr>)"
    by (simp add: two_routes_def serve_routes_def getHandler_def Register_def trie_insert_def
        new_registry_def new_trie_def empty_node_def node_insert_def searchNode_def node_find_def
        segment_eval new_node_def)
  have other: "Exc (Std ''unavailable'') \<noteq> Ret" by (simp add: fun_eq_iff)
  have "\<forall>route \<in> set two_routes. playable route" "distinct (map route_text two_routes)" "length two_routes < 2 ^ 31"
    by (simp_all add: two_routes_def playable_def route_text_def)
  note agree = playground_agrees_with_server [OF this, of new_registry ?r text_json "[]" 0 init_wasm,
      unfolded hit option.case prod.case]
  have "trie new_registry = new_trie" "NUL \<notin> set (req_method ?r)" "NUL \<notin> set (req_path ?r)"
    by (simp_all add: new_registry_def)
  from agree [OF this] obtain i where "i < length two_routes" "snd (snd (two_routes ! i)) = Ret"
    "pw_dispatch text_json [] 0 (Some ''GET'') (Some ''/users/42'') (play_routes text_json two_routes init_wasm) =
     hold text_json 2 (j_object text_json
       [(''matched'', j_bool text_json True), (''routeId'', j_int text_json (int i)),
        (''params'', params_json text_json [(''id'', ''42'')]), (''ms'', []),
        (''pattern'', j_string text_json (route_text (two_routes ! i)))])
       ((play_routes text_json two_routes init_wasm)\<lparr>lastRouteId := int i\<rparr>)"
    by auto
  moreover have "i = 0"
    using calculation(1,2) other by (cases i) (auto simp: two_routes_def less_Suc_eq)
  ultimately show ?thesis by (simp add: two_routes_def route_text_def)
qed

end
