(* ===== verification/Serve.thy ===== *)
theory Serve
  imports Event_Loop
begin

text \<open>
  \<open>HttpServer::serve\<close> as a whole: the refusal after \<open>stop\<close>, the callback that announces the server,
  the run of the loop until no handle is left, and the flag \<open>isRunning\<close> reads.
\<close>

section \<open>serve\<close>

text \<open>
  \<open>onListening\<close>, as a function of the world: what it throws, if it does, whether it calls \<open>stop()\<close>, and
  the world afterwards.
\<close>

type_synonym 'w on_listening = "'w \<Rightarrow> exn option \<times> bool \<times> 'w"

definition call_listening :: "'w on_listening \<Rightarrow> ('l, 'w) loop_state \<Rightarrow> exn option \<times> ('l, 'w) loop_state" where
  "call_listening f st =
     (case f (loop_world st) of
        (thrown, stops, w) \<Rightarrow> (thrown, (if stops then stop else id) (st\<lparr>loop_world := w\<rparr>)))"

datatype start = Refused | Thrown exn | Entered

definition serve_begin :: "'w on_listening option \<Rightarrow> ('l, 'w) loop_state \<Rightarrow> start \<times> ('l, 'w) loop_state" where
  "serve_begin onListening st =
     (if stopRequested st then (Refused, st)
      else
        let st1 = st\<lparr>running := True\<rparr> in
        case onListening of
          None \<Rightarrow> (Entered, st1)
        | Some f \<Rightarrow>
            (case call_listening f st1 of
               (None, st2) \<Rightarrow> (Entered, st2) | (Some e, st2) \<Rightarrow> (Thrown e, st2)))"

definition serve_end :: "('l, 'w) loop_state \<Rightarrow> ('l, 'w) loop_state" where
  "serve_end st = st\<lparr>running := False\<rparr>"

definition isRunning :: "('l, 'w) loop_state \<Rightarrow> bool" where
  "isRunning st = running st"

text \<open>
  The call: \<open>uv_run\<close> makes callbacks, with calls of \<open>stop\<close> from other threads in between, until no handle
  is left. The result is what was thrown.
\<close>

inductive serve ::
  "'j json_lib \<Rightarrow> 'l llhttp \<Rightarrow> ('j, 'w) store \<Rightarrow> ('j, 'w) registry \<Rightarrow> (nat \<Rightarrow> int) \<Rightarrow> 'w on_listening option \<Rightarrow>
   ('l, 'w) loop_state \<Rightarrow> exn option \<Rightarrow> ('l, 'w) loop_state \<Rightarrow> bool"
  for J L \<sigma> reg junk onListening where
  refused: "serve_begin onListening st = (Refused, st1) \<Longrightarrow> serve J L \<sigma> reg junk onListening st None st1"
| thrown: "serve_begin onListening st = (Thrown e, st1) \<Longrightarrow> serve J L \<sigma> reg junk onListening st (Some e) st1"
| ran: "\<lbrakk>serve_begin onListening st = (Entered, st1); (loop_step J L \<sigma> reg junk)\<^sup>*\<^sup>* st1 st2; \<not> crashed st2;
     \<not> loop_alive st2\<rbrakk> \<Longrightarrow> serve J L \<sigma> reg junk onListening st None (serve_end st2)"

inductive_cases serveE: "serve J L \<sigma> reg junk onListening st out st'"

section \<open>The flags\<close>

text \<open>
  Handles are closed, and the async handle is signalled, only when \<open>stop\<close> was called; and a call of \<open>stop\<close>
  is not forgotten.
\<close>

definition stop_inv :: "('l, 'w) loop_state \<Rightarrow> bool" where
  "stop_inv st \<longleftrightarrow>
     loop_inv st \<and> (async_sent st \<or> server_closing st \<or> stopper_closing st \<longrightarrow> stopRequested st) \<and>
     (stopRequested st \<longrightarrow> async_sent st \<or> stopper_closing st) \<and> (server_closing st \<longleftrightarrow> stopper_closing st)"

definition flags :: "('l, 'w) loop_state \<Rightarrow> bool list" where
  "flags st = [async_sent st, stopRequested st, server_closing st, stopper_closing st]"

lemma stopRequested_send [simp]: "stopRequested (send c ok hb st) = stopRequested st"
  by (simp add: send_def Let_def)

lemma stopRequested_send_all [simp]: "stopRequested (send_all c oks hbs st) = stopRequested st"
  by (induction hbs arbitrary: oks st) simp_all

lemma flags_send_all [simp]: "flags (send_all c oks hbs st) = flags st"
  by (induction hbs arbitrary: oks st) (simp_all add: flags_def)

lemma flags_simps [simp]:
  "flags (closeConn c st) = flags st" "flags (upd_conn c f st) = flags st"
  "flags (st\<lparr>loop_world := w\<rparr>) = flags st" "flags (st\<lparr>crashed := b\<rparr>) = flags st"
  by (simp_all add: flags_def)

lemma flags_callbacks:
  "flags (onRead J L \<sigma> reg junk c data oks st) = flags st"
  "flags (onConnection L c ok1 ok2 st) = flags st" "flags (onWrite c ok st) = flags st"
  "flags (onConnClosed c st) = flags st"
  by (auto simp: onRead_def onConnection_def onWrite_def onConnClosed_def Let_def flags_def
      split: option.split sum.split prod.split)

lemma stop_inv_iff:
  "stop_inv st \<longleftrightarrow> loop_inv st \<and>
     flags st \<in> {[False, False, False, False], [True, True, False, False], [True, True, True, True], [False, True, True, True]}"
  by (auto simp: stop_inv_def flags_def)

lemma stop_inv_init: "stop_inv (init_loop w)"
  using loop_inv_init [of w] by (simp add: stop_inv_iff flags_def init_loop_def)

lemma flags_onStop: "stop_inv st \<Longrightarrow> async_sent st \<Longrightarrow> flags (onStop (st\<lparr>async_sent := False\<rparr>)) = [False, True, True, True]"
proof -
  assume a: "stop_inv st" "async_sent st"
  have "flags (fold closeConn cs s) = flags s" for cs and s :: "('a, 'b) loop_state"
    by (induction cs arbitrary: s) simp_all
  from this [of "map fst (conns st)" "st\<lparr>async_sent := False\<rparr>"] a show ?thesis
    by (simp add: flags_def onStop_def stop_inv_def)
qed

lemma stop_inv_stop: "stop_inv st \<Longrightarrow> stop_inv (stop st)"
proof -
  assume inv: "stop_inv st"
  then have "loop_inv (stop st)" using loop_step_inv [OF loop_step.stopped] by (simp add: stop_inv_def)
  with inv show ?thesis by (auto simp: stop_inv_def stop_def)
qed

lemma stop_inv_step: "loop_step J L \<sigma> reg junk st st' \<Longrightarrow> stop_inv st \<Longrightarrow> stop_inv st'"
proof -
  assume step: "loop_step J L \<sigma> reg junk st st'" and inv: "stop_inv st"
  have "loop_inv st'" using loop_step_inv [OF step] inv by (simp add: stop_inv_def)
  from step show ?thesis
  proof (cases rule: loop_step.cases)
    case call
    with \<open>loop_inv st'\<close> inv show ?thesis
      by (auto elim!: uv_callback.cases simp: stop_inv_iff flags_callbacks)
        (simp_all add: flags_onStop stop_inv_iff)
  qed (use inv in \<open>simp add: stop_inv_stop\<close>)
qed

interpretation stop_sys: inv_system "init_loop w" "loop_step J L \<sigma> reg junk" stop_inv
  for w J L \<sigma> reg junk
  by unfold_locales (auto simp: stop_inv_init stop_inv_step)

lemma stop_inv_other [simp]:
  "stop_inv (st\<lparr>running := b\<rparr>) = stop_inv st" "stop_inv (st\<lparr>loop_world := w\<rparr>) = stop_inv st"
  by (simp_all add: stop_inv_def loop_inv_def flying_def conn_of_def)

lemma call_listening_inv: "call_listening f st = (x, st1) \<Longrightarrow> stop_inv st \<Longrightarrow> stop_inv st1"
  by (auto simp: call_listening_def stop_inv_stop split: prod.splits if_splits)

lemma stop_inv_begin:
  assumes "stop_inv st" and "serve_begin onListening st = (s, st1)"
  shows "stop_inv st1"
  using assms
  by (auto simp: serve_begin_def Let_def split: if_splits option.splits prod.splits dest: call_listening_inv)

text \<open>A state without handles is one the server was stopped in, with nothing left.\<close>

lemma not_alive_stopped:
  assumes "stop_inv st" and "\<not> loop_alive st"
  shows "stopRequested st \<and> conns st = [] \<and> wr_new st = wr_deleted st \<and> set (uv_closes st) = set (deleted st)"
  using assms by (auto simp: stop_inv_def loop_alive_def loop_inv_def flying_def conn_of_def)

text \<open>From every state with a pending \<open>stop\<close> the loop can run to the end.\<close>

lemma stopped_can_finish:
  assumes "stop_inv st" and "stopRequested st" and "\<not> crashed st"
  shows "\<exists>st'. (uv_callback J L \<sigma> reg junk)\<^sup>*\<^sup>* st st' \<and> \<not> crashed st' \<and> \<not> loop_alive st'"
proof -
  have "\<exists>s. (uv_callback J L \<sigma> reg junk)\<^sup>*\<^sup>* st s \<and> draining s"
  proof (cases "stopper_closing st")
    case True
    with assms have "draining st" by (auto simp: draining_def stop_inv_def loop_inv_def)
    then show ?thesis by blast
  next
    case False
    with assms have "uv_callback J L \<sigma> reg junk st (onStop (st\<lparr>async_sent := False\<rparr>))"
      by (intro uv_callback.async) (auto simp: stop_inv_def)
    moreover have "draining (onStop (st\<lparr>async_sent := False\<rparr>))"
      using assms(1,3) by (intro draining_onStop) (simp_all add: stop_inv_def loop_inv_def flying_def conn_of_def)
    ultimately show ?thesis by blast
  qed
  then obtain s where s: "(uv_callback J L \<sigma> reg junk)\<^sup>*\<^sup>* st s" "draining s" by blast
  obtain st' where st': "(uv_callback J L \<sigma> reg junk)\<^sup>*\<^sup>* s st'" "\<not> loop_alive st'"
    using drain.reaches_final [OF s(2), of J L \<sigma> reg junk] by blast
  have "draining st'" using st'(1) s(2)
    by (induction rule: rtranclp_induct) (auto simp: drain_callback)
  with s(1) st' show ?thesis unfolding draining_def by (meson rtranclp_trans)
qed

text \<open>What holds in every state of a call of \<open>serve\<close>.\<close>

lemma wild_begin: "serve_begin f st = (s, st1) \<Longrightarrow> wild st1 = wild st"
  by (auto simp: serve_begin_def call_listening_def stop_def Let_def split: if_splits option.splits prod.splits)

lemma serve_begin_refused: "serve_begin f st = (Refused, st1) \<Longrightarrow> stopRequested st"
  by (auto simp: serve_begin_def Let_def split: if_splits option.splits prod.splits)

lemma serve_run_inv:
  assumes "loop_reachable J L \<sigma> reg junk w st" and "serve_begin f st = (Entered, st1)"
    and "(loop_step J L \<sigma> reg junk)\<^sup>*\<^sup>* st1 st2"
  shows "stop_inv st2 \<and> \<not> wild st2"
proof -
  have "stop_inv st" using stop_sys.inv_reachable assms(1) unfolding loop_reachable_def .
  then have "stop_inv st1" using assms(2) by (rule stop_inv_begin)
  with assms(3) have "stop_inv st2" by (rule stop_sys.inv_steps)
  moreover have "\<not> wild st" using wild_sys.inv_reachable assms(1) unfolding loop_reachable_def .
  then have "\<not> wild st1" using wild_begin [OF assms(2)] by simp
  with assms(3) have "\<not> wild st2" by (rule wild_sys.inv_steps)
  ultimately show ?thesis by simp
qed

section \<open>Properties\<close>

text \<open>
  C1: The life of a server in \<open>serve()\<close>. Every return of the call, entered on a server that was not
  stopped, comes after a call of \<open>stop\<close>, when every connection is deleted and every write request
  freed, and leaves \<open>isRunning\<close> false; from then on \<open>serve\<close> returns at once and changes nothing. And
  from every state the call can be in once \<open>stop\<close> was called, by \<open>onListening\<close>, a handler or another
  thread, the callbacks of the loop alone can bring it to its return.
\<close>

theorem serve_returns_on_stop:
  assumes "loop_reachable J L \<sigma> reg junk w st" and "\<not> stopRequested st"
  shows "(\<forall>st'. serve J L \<sigma> reg junk f st None st' \<longrightarrow>
      stopRequested st' \<and> \<not> isRunning st' \<and> conns st' = [] \<and> wr_new st' = wr_deleted st' \<and>
      set (uv_closes st') = set (deleted st') \<and> \<not> wild st' \<and>
      (\<forall>g out st''. serve J L \<sigma> reg junk g st' out st'' \<longleftrightarrow> out = None \<and> st'' = st')) \<and>
    (\<forall>st1 st2. serve_begin f st = (Entered, st1) \<and> (loop_step J L \<sigma> reg junk)\<^sup>*\<^sup>* st1 st2 \<and>
        \<not> crashed st2 \<and> stopRequested st2 \<longrightarrow>
      (\<exists>st3. (uv_callback J L \<sigma> reg junk)\<^sup>*\<^sup>* st2 st3 \<and> \<not> loop_alive st3 \<and>
        serve J L \<sigma> reg junk f st None (serve_end st3)))"
proof (intro conjI allI impI)
  fix st1 st2
  assume run: "serve_begin f st = (Entered, st1) \<and> (loop_step J L \<sigma> reg junk)\<^sup>*\<^sup>* st1 st2 \<and>
        \<not> crashed st2 \<and> stopRequested st2"
  have "stop_inv st2" using serve_run_inv [OF assms(1)] run by blast
  then obtain st3 where st3: "(uv_callback J L \<sigma> reg junk)\<^sup>*\<^sup>* st2 st3" "\<not> crashed st3" "\<not> loop_alive st3"
    using run stopped_can_finish by blast
  have "(loop_step J L \<sigma> reg junk)\<^sup>*\<^sup>* st2 st3"
    using st3(1) by (rule rtranclp_mono [THEN predicate2D, rotated]) (auto intro: loop_step.call)
  with run have "(loop_step J L \<sigma> reg junk)\<^sup>*\<^sup>* st1 st3" by (meson rtranclp_trans)
  with run st3 show "\<exists>st3. (uv_callback J L \<sigma> reg junk)\<^sup>*\<^sup>* st2 st3 \<and> \<not> loop_alive st3 \<and>
      serve J L \<sigma> reg junk f st None (serve_end st3)"
    by (meson serve.ran)
next
  fix st' assume "serve J L \<sigma> reg junk f st None st'"
  with assms(2) obtain st1 st2 where run: "serve_begin f st = (Entered, st1)"
    "(loop_step J L \<sigma> reg junk)\<^sup>*\<^sup>* st1 st2" "\<not> loop_alive st2" "st' = serve_end st2"
    by (elim serveE) (auto dest: serve_begin_refused)
  have inv: "stop_inv st2" "\<not> wild st2" using serve_run_inv [OF assms(1) run(1,2)] by simp_all
  from not_alive_stopped [OF inv(1) run(3)] inv(2)
  show "stopRequested st'" "\<not> isRunning st'" "conns st' = []" "wr_new st' = wr_deleted st'"
    "set (uv_closes st') = set (deleted st')" "\<not> wild st'"
    by (simp_all add: run(4) serve_end_def isRunning_def)
  then show "serve J L \<sigma> reg junk g st' out st'' \<longleftrightarrow> out = None \<and> st'' = st'" for g out st''
    by (auto simp: serve_begin_def elim!: serveE intro: serve.refused)
qed

text \<open>
  The example: a connection is accepted, another thread calls \<open>stop\<close>, \<open>onStop\<close> closes the connection and
  its close callback deletes it; then \<open>serve\<close> returns.
\<close>

definition stopped_run :: "(unit, unit) loop_state list" where
  "stopped_run =
     (let s0 = (init_loop ())\<lparr>running := True\<rparr>; s1 = onConnection url_ll 7 True True s0; s2 = stop s1;
          s3 = onStop (s2\<lparr>async_sent := False\<rparr>) in [s0, s1, s2, s3, onConnClosed 7 s3])"

lemma stopped_run_serves:
  "serve text_json url_ll (\<lambda>r. new_router) new_registry (\<lambda>n. 0) None (init_loop ()) None
     (serve_end (last stopped_run))"
proof -
  let ?U = "uv_callback text_json url_ll (\<lambda>r. new_router) new_registry (\<lambda>n. 0)"
  let ?step = "loop_step text_json url_ll (\<lambda>r. new_router) new_registry (\<lambda>n. 0)"
  define s0 :: "(unit, unit) loop_state" where "s0 = (init_loop ())\<lparr>running := True\<rparr>"
  define s1 where "s1 = onConnection url_ll 7 True True s0"
  define s3 where "s3 = onStop ((stop s1)\<lparr>async_sent := False\<rparr>)"
  have s1: "s1 = s0\<lparr>conns := [(7, new_conn url_ll)], used_ids := [7]\<rparr>"
    by (simp add: s1_def s0_def onConnection_def init_loop_def Let_def)
  have c: "conn_of s1 7 = Some (new_conn url_ll)" by (simp add: s1 conn_of_def)
  have s3: "conn_of s3 7 = Some ((new_conn url_ll)\<lparr>closing := True\<rparr>)"
  proof -
    let ?s = "(stop s1)\<lparr>async_sent := False\<rparr>"
    have "conn_of ?s 7 = Some (new_conn url_ll)" "map fst (conns ?s) = [7]"
      using c by (simp_all add: stop_def s1)
    then show ?thesis unfolding s3_def onStop_def by (simp add: conn_of_fold_closeConn)
  qed
  have keys: "map fst (conns s3) = [7]" unfolding s3_def onStop_def by (simp add: stop_def s1)
  have "?U s0 s1" unfolding s1_def by (rule uv_callback.connection) (simp_all add: s0_def init_loop_def)
  moreover have "?step s1 (stop s1)" by (rule loop_step.stopped)
  moreover have "?U (stop s1) s3" unfolding s3_def by (rule uv_callback.async) (simp_all add: stop_def s1 s0_def init_loop_def)
  moreover have "\<not> crashed s3" by (simp add: s3_def onStop_def stop_def s1 s0_def init_loop_def)
  then have "?U s3 (onConnClosed 7 s3)"
    by (rule uv_callback.closed [OF _ s3]) (simp_all add: new_conn_def)
  ultimately have "?step\<^sup>*\<^sup>* s0 (onConnClosed 7 s3)"
    by (meson loop_step.call rtranclp.rtrancl_refl rtranclp.rtrancl_into_rtrancl)
  moreover have "serve_begin None (init_loop ()) = (Entered, s0)"
    by (simp add: serve_begin_def s0_def init_loop_def)
  moreover have "\<not> crashed (onConnClosed 7 s3)" using \<open>\<not> crashed s3\<close> by (simp add: onConnClosed_def)
  moreover have "filter (\<lambda>(i, k). i \<noteq> 7) (conns s3) = []"
    using keys by (auto simp: filter_empty_conv)
  then have "\<not> loop_alive (onConnClosed 7 s3)"
    by (simp add: loop_alive_def onConnClosed_def s3_def onStop_def)
  ultimately show ?thesis
    unfolding stopped_run_def s0_def [symmetric] Let_def last.simps
    by (simp add: s1_def [symmetric] s3_def [symmetric] serve.ran)
qed

theorem serve_returns_on_stop_witness:
  "conns (serve_end (last stopped_run)) = [] \<and> \<not> isRunning (serve_end (last stopped_run)) \<and>
   serve text_json url_ll (\<lambda>r. new_router) new_registry (\<lambda>n. 0) None (serve_end (last stopped_run)) None
     (serve_end (last stopped_run))"
proof -
  have "loop_reachable text_json url_ll (\<lambda>r. new_router) new_registry (\<lambda>n. 0) () (init_loop ())"
    by (simp add: loop_reachable_def)
  moreover have "\<not> stopRequested (init_loop () :: (unit, unit) loop_state)" by (simp add: init_loop_def)
  ultimately show ?thesis
    using serve_returns_on_stop [THEN conjunct1, rule_format, OF _ _ stopped_run_serves] by blast
qed

text \<open>
  When \<open>onListening\<close> throws, the exception leaves \<open>serve\<close> past the line that resets the flag: the loop does
  not run and \<open>isRunning\<close> says that it does.
\<close>

theorem throwing_listener_leaves_running:
  assumes "\<not> stopRequested st" and "f (loop_world st) = (Some e, stops, w)"
  shows "\<exists>st'. serve J L \<sigma> reg junk (Some f) st (Some e) st' \<and> isRunning st'"
proof -
  obtain st' where "serve_begin (Some f) st = (Thrown e, st')" "running st'"
    using assms by (auto simp: serve_begin_def call_listening_def stop_def Let_def)
  then show ?thesis unfolding isRunning_def by (blast intro: serve.thrown)
qed

theorem throwing_listener_leaves_running_witness:
  "\<exists>st'. serve text_json url_ll (\<lambda>r. new_router) new_registry (\<lambda>n. 0) (Some (\<lambda>w. (Some (Std ''no log file''), False, w)))
    (init_loop ()) (Some (Std ''no log file'')) st' \<and> isRunning st'"
  by (rule throwing_listener_leaves_running [where stops = False]) (simp_all add: init_loop_def)

end
