(* ===== verification/Spec2Isabelle.thy ===== *)
theory Spec2Isabelle
  imports Wasm_Contract Bench_App Trie_Heap Closed_Server Closed_Control Load_Report Micro_Rows Lookup_Cost Rest_Site Wasm_Routing Serve
begin

text \<open>
  A model of PlusWeb, a small HTTP/1.1 server framework in C++ (\<open>src/include/PlusWeb\<close>, \<open>src/src\<close>,
  \<open>src/wasm\<close>), of its example applications (\<open>src/examples\<close>) and of the programs it is measured with
  (\<open>src/bench\<close>), and the theorems that make it correct.

  \<^bold>\<open>The program.\<close> libuv reads bytes from a connection and calls \<open>Loop::onRead\<close>
  (\<open>HttpServer.cpp\<close>). The bytes go to the connection's \<open>HttpParser\<close>, which lets llhttp cut them
  into callbacks, assembles requests under a header budget, and hands each complete request to
  \<open>HttpServer::handleRequest\<close>. That runs the middleware chain of the server's \<open>RouteRegistry\<close>,
  mounted \<open>Router\<close>s included, and at its end the route found in the routing trie; the handlers
  fill an \<open>HttpResponse\<close>, which is serialised and written. The WebAssembly module exposes the
  trie and the parser through a C interface.

  \<^bold>\<open>The theories\<close>, in the order of their imports:

  \<^item> \<open>Prelude\<close>: C strings, searching in strings, decimal numbers; the locales \<open>inv_system\<close> (an
    invariant of a step relation) and \<open>draining_system\<close> (a step relation bounded by a measure that
    is never stuck before its goal).
  \<^item> \<open>Std_Map\<close>: \<open>std::map\<close> as sorted association lists; the locales \<open>kv_store\<close> and
    \<open>kv_store_canonical\<close> state its laws, interpreted on \<open>smap_get\<close>, \<open>smap_set\<close>, \<open>smap_erase\<close>.
  \<^item> \<open>Utils\<close> (\<open>utils.h\<close>, \<open>utils.cpp\<close>): \<open>split\<close> equals a one-pass tokenizer and inverts joining;
    \<open>url_decode\<close> inverts \<open>urlEncode\<close> (locale \<open>codec\<close>); MIME types; files.
  \<^item> \<open>Routing_Trie\<close> (\<open>trie.h\<close>, \<open>trie.cpp\<close>): insertion refines the update of a map from patterns
    to handlers, the backtracking search returns the least matching pattern, the node graph stays
    well formed.
  \<^item> \<open>Trie_Heap\<close> (\<open>trie.h\<close>, \<open>trie.cpp\<close>): the same trie as nodes on a heap that point to each other,
    with \<open>delete\<close>; \<open>atree\<close> is a tree that knows its addresses, \<open>intact\<close> that the heap holds it, \<open>grows\<close>
    what an insertion may change. The pointer operations refine those of \<open>Routing_Trie\<close> and are
    memory safe.
  \<^item> \<open>Lookup_Cost\<close> (\<open>trie.cpp\<close>): the search with a counter of its calls, the exact cost of a miss, and
    tables on which the claim of the README (one step per segment) holds and fails.
  \<^item> \<open>Http_Message\<close> (\<open>HttpBody\<close>, \<open>HttpRequest\<close>, \<open>HttpResponse\<close>): the state of messages, the setters
    and \<open>send\<close> overloads, serialisation, and a client's reader that serialisation round-trips with.
  \<^item> \<open>Registry\<close> (\<open>RouteRegistry\<close>, \<open>RoutingBase\<close>): registration, lookup, the verbs, the middleware
    chain; the locale \<open>route_table\<close> is what the verbs rely on.
  \<^item> \<open>Routers\<close> (\<open>Router.cpp\<close>, \<open>HttpServer::use\<close>): routers in a store, mounting, sub-routers; the
    locale \<open>mount_family\<close> (a mount that does not serve is invisible) is interpreted on server
    mounts, sub-routers and path-scoped middleware.
  \<^item> \<open>Http_Parser\<close> (\<open>HttpParser.h\<close>, \<open>HttpParser.cpp\<close>): callbacks, header budget on 64-bit sizes,
    \<open>execute\<close>; independence of how the input was cut, bounds on memory, targets.
  \<^item> \<open>Http_Server\<close> (\<open>handleRequest\<close>, \<open>errorResponse\<close>, the data branch of \<open>onRead\<close>): framing of
    answers, errors, pipelining, the stream a client reads off a pipeline.
  \<^item> \<open>App_Routing\<close> (\<open>HttpServer::use\<close>, \<open>Router::use\<close>): whole applications of mounted routers with
    sub-routers; \<open>app_target\<close> specifies which route answers, and what the sources build from closures is
    shown to follow it.
  \<^item> \<open>Event_Loop\<close> (\<open>HttpServer::Loop\<close>, constructor, \<open>stop\<close>, destructor): callbacks as
    functions on the loop's state, \<open>uv_callback\<close> and \<open>loop_step\<close> for what may happen next; the life
    of connections and write requests, draining after \<open>stop\<close>, absence of crashes. \<open>crashed\<close> says that an
    exception left a callback, \<open>wild\<close> that a callback followed a pointer to a deleted connection or write
    request.
  \<^item> \<open>Serve\<close> (\<open>HttpServer::serve\<close>): the call as a whole, with \<open>onListening\<close> and the flag \<open>isRunning\<close> reads.
  \<^item> \<open>Wasm_Contract\<close> (\<open>plusweb_wasm.cpp\<close>): the calls on the module's state and their invariant.
  \<^item> \<open>Connection\<close>: the labelled steps of the loop, traces of callbacks, and the conversation on one
    connection: what its reads carried, what was answered, in what order, until it is freed; every
    trace of the loop is taken apart into the life of each connection.
  \<^item> \<open>Route_Params\<close>: the parameter names of a table with many routes (\<open>trie.cpp\<close>).
  \<^item> \<open>Framing\<close>: what \<open>send\<close> does to the framing of a response, from the context a chain returns to
    what a client reads; header values that end the head, a length sent twice.
  \<^item> \<open>Chain_Invariant\<close>: what routing keeps of a context and which exceptions it lets out, the locale
    \<open>chain_invariant\<close>, interpreted on the exceptions the parser catches (\<open>throws_std\<close>).
  \<^item> \<open>Rest_Api\<close> (\<open>examples/rest_api\<close>, \<open>examples/hello_world\<close>): the applications with their middleware,
    handlers and tables; the world of their handlers is standard output, files and the clock.
  \<^item> \<open>Load_Generator\<close> (\<open>bench/loadgen.cpp\<close>): the reader of responses and the closed loop over the
    connections, with the kernel and the clock as arbitrary functions; its books and its end.
  \<^item> \<open>Reference_Server\<close> (\<open>bench/refserver.cpp\<close>): the control server, event by event, with what each
    \<open>send\<close> returns.
  \<^item> \<open>Closed_Loop\<close>: the load generator and a server at the two ends of the same connections, with the
    bytes in between; \<open>closed_ok\<close> is the invariant of the steps, with a measure that bounds the steps
    between two answers. The locale \<open>answering_server\<close> is what is asked of the server; \<open>Closed_Server\<close>
    interprets it on PlusWeb (\<open>Connection\<close>), \<open>Closed_Control\<close> on the control server. In its steps no call
    fails and \<open>send\<close> takes at least a byte; where a call fails is in \<open>Load_Generator\<close>.
  \<^item> \<open>Load_Report\<close> (\<open>bench/loadgen.cpp\<close>): the command line, the percentiles and the printed line; \<open>ieee\<close> is
    what the percentiles need of the arithmetic of \<open>double\<close>, and real numbers have it.
  \<^item> \<open>Micro_Bench\<close> (\<open>bench/microbench.cpp\<close>): the allocation counters, the measuring loop, the route
    tables of the lookup rows, and the full cycle compared with \<open>handleRequest\<close>.
  \<^item> \<open>Micro_Rows\<close> (\<open>bench/microbench.cpp\<close>): the code of every row, which may end the program, and \<open>main\<close>
    as the list of what it prints and measures, shown to print its report in full.
  \<^item> \<open>Bench_App\<close> (\<open>bench/benchserver.cpp\<close>): the server under test and its backtracking probe.
  \<^item> \<open>Text_Pages\<close>: handlers that answer a text, and requests for plain paths.
  \<^item> \<open>Site\<close>: a whole site in its event loop (\<open>Connection\<close> with \<open>App_Routing\<close>): \<open>site_answer\<close> specifies
    the answer of a request by the routing alone, \<open>passes\<close> the middleware that leaves it alone, and every
    connection is answered as specified.
  \<^item> \<open>Site_Apps\<close>: \<open>hello_world\<close> as such a site, and middleware of \<open>rest_api\<close> that passes requests on.
  \<^item> \<open>Rest_Pages\<close>, \<open>Rest_Site\<close>: the pages of \<open>rest_api\<close> by method and path segments, and the whole
    application as a site: every connection is answered as \<open>rest_answer\<close> says.
  \<^item> \<open>Wasm_Routing\<close>: a trie with other handlers is built and searched alike, so the module answers a
    dispatch as a server with the same routes resolves the request.
  \<^item> This theory: single requests end to end, from the bytes of a read to the bytes of the answer.

  \<^bold>\<open>State and effects.\<close> Classes are records, mutation is a changed record that is returned. An
  exception is the left side of a sum or, for handlers, the outcome \<^term>\<open>Exc\<close> with the context at
  that moment: \<^term>\<open>Std\<close> with its text when it derives from \<open>std::exception\<close>, which the parser catches, and
  \<^term>\<open>Foreign\<close> for any other, which passes the parser and leaves the callback of the loop. Handlers and middleware are arbitrary functions on a context of request, response
  and world, so the theorems hold for every application; \<open>next\<close> is the rest of the chain as such a
  function. Header sizes are 64-bit words, route ids 32-bit integers, bytes 8-bit words; a response
  whose status was never set carries an arbitrary integer (\<open>junk\<close>).

  \<^bold>\<open>What is outside.\<close> \<open>nlohmann::json\<close> is the record \<open>json_lib\<close> of the operations the sources call
  (\<open>dump\<close> and \<open>parse\<close> may throw); llhttp is the record \<open>llhttp\<close>: for a state and a chunk, the
  callbacks it makes while they succeed, its next state and its code. libuv is the freedom of the
  step relation: no read after \<open>uv_close\<close>, one callback for every accepted write, the close
  callback last, as its documentation says. Theorems that need more of a library name it as a hypothesis, and their witnesses
  instantiate it (\<open>text_json\<close>, \<open>script_ll\<close>, \<open>url_ll\<close>). \<open>double\<close> is a parameter type with the operations
  used, a measured time an argument. Not modelled: socket options, buffer allocation, log output, and
  of the benchmarks the listening sockets and the resolution of host names.

  \<^bold>\<open>Bounds.\<close> All loops of the sources are structural or have a termination proof. Fuel is used in
  three places: \<open>spin\<close>, whose 64 rounds are those of the destructor; \<open>run_loop\<close>, the rounds of the load
  generator, of which enough exist for every clock that reaches the deadline
  (\<open>load_run_ends_with_books\<close>, \<open>loadgen_program_ends\<close>); and \<open>delete_node\<close>, the depth of the destructor,
  for which the number of cells is enough (\<open>trie_memory_safe\<close>). The budget theorems assume
  that one piece of input is shorter than the distance of the limit from \<open>2^64\<close>, and the
  WebAssembly invariant that fewer than \<open>2^31\<close> routes are registered.

  \<^bold>\<open>Behaviour that differs from its documentation or purpose\<close> is stated as theorems too: a scheme
  separator in a query reroutes the request (\<open>scheme_in_query_reroutes\<close>), targets are decoded
  before they are split (\<open>decoded_before_split\<close>), form bodies are announced and not written
  (\<open>form_body_not_written\<close>), sub-routers ignore segment boundaries and middleware
  (\<open>sub_router_ignores_boundary\<close>, \<open>sub_router_middleware_ignored\<close>), a mount leaves the relative
  path behind (\<open>mount_leaves_relative_path\<close>), a throwing handler is answered 400
  (\<open>throwing_handler_is_answered_400\<close>), one that throws what is no \<open>std::exception\<close> ends the server
  (\<open>foreign_exception_ends_server\<close>), a request line longer than the limit on it is served
  (\<open>long_request_line_served\<close>), a parameter keeps the name of the first route through its place
  (\<open>params_in_full_table\<close>), a length set as \<open>content-length\<close> goes out beside the server's own
  (\<open>length_header_sent_twice\<close>), a respelled route shadows the first one in the WebAssembly
  module (\<open>respelled_route_shadows_first\<close>), a doubled slash walks around middleware that guards a path
  (\<open>doubled_slash_evades_scoped_middleware\<close>, and on the example application
  \<open>doubled_slash_needs_no_key\<close>, \<open>router_page_needs_no_key\<close>), a header value with a blank line ends
  the head (\<open>header_value_ends_head\<close>), a lookup can cost more than a scan of all routes
  (\<open>lookup_can_cost_more_than_a_scan\<close>), the middleware rows of the full-cycle benchmark run no
  middleware (\<open>middleware_rows_run_no_middleware\<close>), and a throwing \<open>onListening\<close> leaves a server that says
  it is running (\<open>throwing_listener_leaves_running\<close>).

  \<^bold>\<open>Not modelled\<close>, with the reason: the closed loop (\<open>Closed_Loop\<close>) has one load generator that keeps its
  connections; with \<open>--close\<close> the load generator is modelled by itself (\<open>Load_Generator\<close>, where its books
  are kept in that mode too), since every answer then ends a connection and the bytes in between belong to a
  connection that is gone. The JavaScript wrapper, the benchmark scripts and the build are in other languages;
  the tests and \<open>wasm/test_contract.cpp\<close> call what is modelled. The page of \<open>rest_api\<close> that shows a file is a
  handler of the model, and left out of the theorem on its conversations only, because what it shows is not a
  function of the request.
\<close>

section \<open>Properties\<close>

text \<open>
  A GET route end to end. On a server without middleware, a request for a literal route that
  answers a text, however it was cut by the network and whatever else is registered, makes the
  read write one message, from which a client reads status 200 and exactly that text; the
  connection is kept or closed as the request asked.
\<close>

theorem get_route_end_to_end:
  assumes "ll_execute L (lex p) data = (msg_events msg, l, HPE_OK, reason)"
    and "at_start (impl p)" and "msg_ok (limit (impl p)) msg"
    and "path_message ''GET'' path msg" and "plain_path path" and "queue reg = []"
  shows "\<exists>p1 hb hs. read_data J L \<sigma> (GET reg path (Some (text_handler t))) junk data p w =
      Inr (p1, \<lparr>io_world = w, io_close = \<not> m_keep msg, io_writes = [hb]\<rparr>) \<and>
    read_message (wire hb @ rest) = Some (''HTTP/1.1 200 OK'', hs, t, rest)"
proof -
  let ?reg = "GET reg path (Some (text_handler t))"
  obtain r where r: "request_of J msg = Inr r" "req_method r = ''GET''" "req_path r = path"
    using request_of_path_message [OF assms(4,5)] by blast
  have path: "literal_path path" "hd path = SLASH" "path \<noteq> []"
    using assms(5) by (auto simp: plain_path_def literal_path_def)
  have "route_key ''GET'' path \<noteq> route_key ''HEAD'' path"
    using rt.key_verb [of "''GET''" "''HEAD''" path path] by auto
  then have res: "resolve ?reg ''GET'' path = Some (text_handler t)"
    using path by (intro resolve_literal_route) (simp_all add: GET_def)
  have "queue ?reg = []" using assms(6) by (simp add: GET_def)
  then obtain c where c: "run_chain J \<sigma> ?reg (start_ctx J (junk 0) r w) = Ret c"
    "res c = text_response J (junk 0) t" "world c = w" "req_method (req c) = ''GET''"
    using run_chain_text [of ?reg r t J \<sigma> "junk 0" w] res r by auto
  from text_answer_end_to_end [where junk = junk, OF assms(1-3) r(1) this] show ?thesis .
qed

definition sample_msg :: "string \<Rightarrow> string \<Rightarrow> msg" where
  "sample_msg m path = (get_msg [urlEncode path] True)\<lparr>m_method := m\<rparr>"

lemma sample_msg_ok:
  "path_message m path (sample_msg m path)"
  "length (urlEncode path) \<le> 100 \<Longrightarrow> msg_ok 16384 (sample_msg m path)"
  by (simp_all add: path_message_def sample_msg_def get_msg_def msg_ok_def headers_ok_def header_bytes_def)

lemma sample_plain_path: "plain_path ''/hello''" "plain_path ''/api/hello''" "plain_path ''/api/more/items''"
  by (simp_all add: plain_path_def literal_path_def segment_eval sublist_def Cons_eq_append_conv)

lemma sample_encoded: "urlEncode ''/hello'' = ''%2Fhello''" "urlEncode ''/api/hello'' = ''%2Fapi%2Fhello''"
  "urlEncode ''/api/more/items'' = ''%2Fapi%2Fmore%2Fitems''"
  by code_simp+

theorem get_route_end_to_end_witness:
  "\<exists>p1 hb hs. read_data text_json (script_ll (msg_events (sample_msg ''GET'' ''/hello''))) (\<lambda>r. new_router)
      (GET new_registry ''/hello'' (Some (text_handler ''hi''))) (\<lambda>n. 7) ''...''
      (new_parser (script_ll (msg_events (sample_msg ''GET'' ''/hello''))) kMaxHeaderBytes) () =
    Inr (p1, \<lparr>io_world = (), io_close = False, io_writes = [hb]\<rparr>) \<and>
    read_message (wire hb @ []) = Some (''HTTP/1.1 200 OK'', hs, ''hi'', [])"
proof -
  let ?m = "sample_msg ''GET'' ''/hello''"
  let ?L = "script_ll (msg_events ?m)"
  have "msg_ok (limit (impl (new_parser ?L kMaxHeaderBytes))) ?m"
    using sample_msg_ok(2) [of "''/hello''" "''GET''"] sample_encoded by (simp add: new_parser_def)
  moreover have "m_keep ?m" by (simp add: sample_msg_def get_msg_def)
  ultimately show ?thesis
    using get_route_end_to_end [of ?L "new_parser ?L kMaxHeaderBytes" "''...''" ?m "()" "[]" "''/hello''"
        new_registry text_json "\<lambda>r. new_router" "''hi''" "\<lambda>n. 7" "()" "[]"]
      sample_msg_ok(1) [of "''GET''" "''/hello''"] sample_plain_path
    by (simp add: script_ll_def new_parser_def)
qed

text \<open>
  The same route answers HEAD with a head from which a client reads the same status line and
  the same headers, Content-Length included, and with nothing behind it.
\<close>

theorem head_request_end_to_end:
  assumes "ll_execute L (lex p) data = (msg_events msg, l, HPE_OK, reason)"
    and "at_start (impl p)" and "msg_ok (limit (impl p)) msg"
    and "path_message ''HEAD'' path msg" and "plain_path path" and "queue reg = []"
  shows "\<exists>p1 h hs. read_data J L \<sigma> (GET reg path (Some (text_handler t))) junk data p w =
      Inr (p1, \<lparr>io_world = w, io_close = \<not> m_keep msg, io_writes = [(h, [])]\<rparr>) \<and>
    read_head (h @ rest) = Some (''HTTP/1.1 200 OK'', hs, rest) \<and>
    map_of hs ''Content-Length'' = Some (nat_to_string (length t)) \<and>
    map_of hs ''Content-Type'' = Some ''text/html; charset=utf-8''"
proof -
  let ?reg = "GET reg path (Some (text_handler t))"
  let ?res = "finish_response (\<not> m_keep msg) (text_response J (junk 0) t)"
  obtain r where r: "request_of J msg = Inr r" "req_method r = ''HEAD''" "req_path r = path"
    using request_of_path_message [OF assms(4,5)] by blast
  have path: "literal_path path" "hd path = SLASH" "path \<noteq> []"
    using assms(5) by (auto simp: plain_path_def literal_path_def)
  have res: "resolve ?reg ''HEAD'' path = Some (text_handler t)"
    using path by (intro resolve_literal_route) (simp_all add: GET_def)
  have "queue ?reg = []" using assms(6) by (simp add: GET_def)
  then obtain c where c: "run_chain J \<sigma> ?reg (start_ctx J (junk 0) r w) = Ret c"
    "res c = text_response J (junk 0) t" "world c = w" "req_method (req c) = ''HEAD''"
    using run_chain_text [of ?reg r t J \<sigma> "junk 0" w] res r by auto
  have h: "handleRequest J \<sigma> ?reg (junk 0) r (m_keep msg) False w =
      \<lparr>h_exc = None, h_close = \<not> m_keep msg, h_head = head_text ?res, h_body = [], h_world = w\<rparr>"
    using handleRequest_HEAD [OF c(1,4), of "m_keep msg" False] c(2,3) by simp
  have "read_head (head_text ?res @ rest) = Some (status_line ?res, res_headers ?res, rest)"
    using framable_text_response [of J "junk 0" t]
    by (intro read_head_back header_safe_finish) (simp_all add: framable_def)
  moreover have "map_of (res_headers ?res) ''Content-Length'' = Some (nat_to_string (length t))"
    using finish_headers_map_of(2) [of "\<not> m_keep msg" "text_response J (junk 0) t"]
    by (simp add: text_response_eq body_length_def setText_def)
  moreover have "map_of (res_headers ?res) ''Content-Type'' = Some ''text/html; charset=utf-8''"
    by (simp add: finish_response_def text_response_eq)
  ultimately show ?thesis
    using read_one_request [where junk = junk, OF assms(1-3) r(1) h]
    by (auto simp: status_line_text_response)
qed

theorem head_request_end_to_end_witness:
  "\<exists>p1 h hs. read_data text_json (script_ll (msg_events (sample_msg ''HEAD'' ''/hello''))) (\<lambda>r. new_router)
      (GET new_registry ''/hello'' (Some (text_handler ''hi''))) (\<lambda>n. 7) ''...''
      (new_parser (script_ll (msg_events (sample_msg ''HEAD'' ''/hello''))) kMaxHeaderBytes) () =
    Inr (p1, \<lparr>io_world = (), io_close = False, io_writes = [(h, [])]\<rparr>) \<and>
    read_head (h @ []) = Some (''HTTP/1.1 200 OK'', hs, [])"
proof -
  let ?m = "sample_msg ''HEAD'' ''/hello''"
  let ?L = "script_ll (msg_events ?m)"
  have "msg_ok (limit (impl (new_parser ?L kMaxHeaderBytes))) ?m"
    using sample_msg_ok(2) [of "''/hello''" "''HEAD''"] sample_encoded by (simp add: new_parser_def)
  moreover have "m_keep ?m" by (simp add: sample_msg_def get_msg_def)
  ultimately show ?thesis
    using head_request_end_to_end [of ?L "new_parser ?L kMaxHeaderBytes" "''...''" ?m "()" "[]" "''/hello''"
        new_registry text_json "\<lambda>r. new_router" "''hi''" "\<lambda>n. 7" "()" "[]"]
      sample_msg_ok(1) [of "''HEAD''" "''/hello''"] sample_plain_path
    by (auto simp: script_ll_def new_parser_def)
qed

text \<open>
  A mounted router end to end: a request below the mount point reaches the router's route for
  the rest of the path, and the client reads that route's text, whatever routes the server itself
  has.
\<close>

theorem mounted_route_end_to_end:
  assumes "ll_execute L (lex p) data = (msg_events msg, l, HPE_OK, reason)"
    and "at_start (impl p)" and "msg_ok (limit (impl p)) msg"
    and "path_message ''GET'' (server_normalize mount @ path) msg"
    and "plain_path (server_normalize mount @ path)" and "literal_path path"
    and "server_normalize mount \<noteq> ''/''" and "queue reg = []" and "queue (rregistry (\<sigma> r)) = []"
    and "table (rregistry (\<sigma> r)) (route_key ''GET'' path) = Some (text_handler t)"
  shows "\<exists>p1 hb hs. read_data J L \<sigma> (server_use \<sigma> reg mount r) junk data p w =
      Inr (p1, \<lparr>io_world = w, io_close = \<not> m_keep msg, io_writes = [hb]\<rparr>) \<and>
    read_message (wire hb @ rest) = Some (''HTTP/1.1 200 OK'', hs, t, rest)"
proof -
  let ?np = "server_normalize mount"
  let ?reg = "server_use \<sigma> reg mount r"
  obtain rq where rq: "request_of J msg = Inr rq" "req_method rq = ''GET''" "req_path rq = ?np @ path"
    using request_of_path_message [OF assms(4,5)] by blast
  let ?c = "start_ctx J (junk 0) rq w"
  have path: "path \<noteq> []" "hd path = SLASH" using assms(6) by (auto simp: literal_path_def)
  have start: "cpath ?c = ?np @ path" "req_method (req ?c) = ''GET''" using rq by (simp_all add: start_ctx_def)
  have rel: "server_matches ?np (cpath ?c)" "server_relative ?np (cpath ?c) = path"
    unfolding start using path assms(7) by (simp_all add: server_matches_append server_relative_append)
  have "resolve (rregistry (\<sigma> r)) ''GET'' path = Some (text_handler t)"
    using assms(6,10) path by (intro resolve_literal_route) simp_all
  then have "resolve (rregistry (\<sigma> r)) (req_method (req ?c)) (server_relative ?np (cpath ?c)) =
      Some (text_handler t)" unfolding start rel [unfolded start] .
  from run_mounted_routes [where \<sigma> = \<sigma> and r = r, OF rel(1) this]
  have mounted: "run_mw \<sigma> (MountedRouter ?np [RouterRoutes r]) nxt ?c =
      text_handler t (?c\<lparr>req := (req ?c)\<lparr>req_path := path,
         params := bindings (rregistry (\<sigma> r)) ''GET'' path\<rparr>\<rparr>)" for nxt
    unfolding start rel [unfolded start] .
  have "queue ?reg = [MountedRouter ?np [RouterRoutes r]]"
    using assms(8,9) by (simp add: server_use_def getMiddlewares_def getMiddleWares_def)
  then have chain: "run_chain J \<sigma> ?reg ?c =
      text_handler t (?c\<lparr>req := (req ?c)\<lparr>req_path := path,
         params := bindings (rregistry (\<sigma> r)) ''GET'' path\<rparr>\<rparr>)"
    unfolding run_chain_eq using mounted by simp
  then obtain c where c: "run_chain J \<sigma> ?reg ?c = Ret c" "res c = text_response J (junk 0) t"
    "world c = w" "req_method (req c) = ''GET''"
    using rq(2) by (simp add: text_handler_def start_ctx_def text_response_def)
  from text_answer_end_to_end [where junk = junk, OF assms(1-3) rq(1) this] show ?thesis .
qed

definition api_store :: "(string, unit) store" where
  "api_store = (\<lambda>r. \<lparr>mountPath = [],
     rregistry = Register new_registry ''GET'' ''/hello'' (Some (text_handler ''hi''))\<rparr>)"

theorem mounted_route_end_to_end_witness:
  "\<exists>p1 hb hs. read_data text_json (script_ll (msg_events (sample_msg ''GET'' ''/api/hello''))) api_store
      (server_use api_store new_registry ''api/'' 3) (\<lambda>n. 7) ''...''
      (new_parser (script_ll (msg_events (sample_msg ''GET'' ''/api/hello''))) kMaxHeaderBytes) () =
    Inr (p1, \<lparr>io_world = (), io_close = False, io_writes = [hb]\<rparr>) \<and>
    read_message (wire hb @ []) = Some (''HTTP/1.1 200 OK'', hs, ''hi'', [])"
proof -
  let ?m = "sample_msg ''GET'' ''/api/hello''"
  let ?L = "script_ll (msg_events ?m)"
  have np: "server_normalize ''api/'' = ''/api''" by (simp add: server_normalize_def)
  have "msg_ok (limit (impl (new_parser ?L kMaxHeaderBytes))) ?m"
    using sample_msg_ok(2) [of "''/api/hello''" "''GET''"] sample_encoded by (simp add: new_parser_def)
  moreover have "m_keep ?m" by (simp add: sample_msg_def get_msg_def)
  moreover have "literal_path ''/hello''" using sample_plain_path by (simp add: plain_path_def)
  moreover have "table (rregistry (api_store 3)) (route_key ''GET'' ''/hello'') = Some (text_handler ''hi'')"
    "queue (rregistry (api_store 3)) = []" by (simp_all add: api_store_def)
  ultimately show ?thesis
    using mounted_route_end_to_end [of ?L "new_parser ?L kMaxHeaderBytes" "''...''" ?m "()" "[]" "''api/''"
        "''/hello''" new_registry api_store 3 "''hi''" text_json "\<lambda>n. 7" "()" "[]"]
      sample_msg_ok(1) [of "''GET''" "''/api/hello''"] sample_plain_path
    by (simp add: np script_ll_def new_parser_def)
qed


text \<open>
  An application end to end, with any number of mounted routers and sub-routers: when the
  specification of its routing picks a text, from a mount or from the server's own routes, the client
  reads status 200 and exactly that text, however the request was cut.
\<close>

theorem application_end_to_end:
  assumes "ll_execute L (lex p) data = (msg_events msg, l, HPE_OK, reason)"
    and "at_start (impl p)" and "msg_ok (limit (impl p)) msg"
    and "path_message ''GET'' path msg" and "plain_path path" and "queue reg = []"
    and "\<forall>(q, r) \<in> set mounts. subs_of (queue (rregistry (\<sigma> r))) \<noteq> None"
    and "(case app_target \<sigma>1 ''GET'' path (map (mount_of \<sigma>) mounts) of
        Some (h, _) \<Rightarrow> Some h | None \<Rightarrow> resolve reg ''GET'' path) = Some (text_handler t)"
  shows "\<exists>p1 hb hs. read_data J L \<sigma>1 (use_routers \<sigma> mounts reg) junk data p w =
      Inr (p1, \<lparr>io_world = w, io_close = \<not> m_keep msg, io_writes = [hb]\<rparr>) \<and>
    read_message (wire hb @ rest) = Some (''HTTP/1.1 200 OK'', hs, t, rest)"
proof -
  obtain r where r: "request_of J msg = Inr r" "req_method r = ''GET''" "req_path r = path"
    using request_of_path_message [OF assms(4,5)] by blast
  let ?c = "start_ctx J (junk 0) r w"
  have start: "req_method (req ?c) = ''GET''" "cpath ?c = path" using r by (simp_all add: start_ctx_def)
  have "\<exists>c. dispatch_app \<sigma>1 (map (mount_of \<sigma>) mounts) (runRoute J reg) ?c = Ret c \<and>
      res c = text_response J (junk 0) t \<and> world c = w \<and> req_method (req c) = ''GET''"
  proof (cases "app_target \<sigma>1 ''GET'' path (map (mount_of \<sigma>) mounts)")
    case None
    with assms(8) have "resolve reg (req_method (req ?c)) (cpath ?c) = Some (text_handler t)" unfolding start by simp
    from runRoute_found [OF this, of J] None r(2) show ?thesis
      unfolding dispatch_app_def start by (simp add: text_handler_def start_ctx_def text_response_def)
  next
    case (Some target)
    with assms(8) obtain q ps b where "target = (text_handler t, q, ps, b)" by (cases target) auto
    with Some r(2) show ?thesis unfolding dispatch_app_def start
      by (cases b) (simp_all add: serve_target_def text_handler_def start_ctx_def text_response_def set_path_def)
  qed
  then obtain c where "run_chain J \<sigma>1 (use_routers \<sigma> mounts reg) ?c = Ret c"
    "res c = text_response J (junk 0) t" "world c = w" "req_method (req c) = ''GET''"
    unfolding application_routing [OF assms(7)] assms(6) by auto
  from text_answer_end_to_end [where junk = junk, OF assms(1-3) r(1) this] show ?thesis .
qed

theorem application_end_to_end_witness:
  "\<exists>p1 hb hs. read_data text_json (script_ll (msg_events (sample_msg ''GET'' ''/api/more/items'')))
      (sample_app_store (text_handler ''hi''))
      (use_routers (sample_app_store (text_handler ''hi'')) sample_mounts new_registry) (\<lambda>n. 7) ''...''
      (new_parser (script_ll (msg_events (sample_msg ''GET'' ''/api/more/items''))) kMaxHeaderBytes) () =
    Inr (p1, \<lparr>io_world = (), io_close = False, io_writes = [hb]\<rparr>) \<and>
    read_message (wire hb @ []) = Some (''HTTP/1.1 200 OK'', hs, ''hi'', [])"
proof -
  let ?m = "sample_msg ''GET'' ''/api/more/items''" and ?\<sigma> = "sample_app_store (text_handler ''hi'')"
  let ?L = "script_ll (msg_events ?m)"
  have "msg_ok (limit (impl (new_parser ?L kMaxHeaderBytes))) ?m"
    using sample_msg_ok(2) [of "''/api/more/items''" "''GET''"] sample_encoded by (simp add: new_parser_def)
  moreover have "m_keep ?m" by (simp add: sample_msg_def get_msg_def)
  moreover have "\<forall>(q, r) \<in> set sample_mounts. subs_of (queue (rregistry (?\<sigma> r))) \<noteq> None"
    by (simp add: sample_mounts_def sample_queues)
  moreover have "(case app_target ?\<sigma> ''GET'' ''/api/more/items'' (map (mount_of ?\<sigma>) sample_mounts) of
      Some (h, _) \<Rightarrow> Some h | None \<Rightarrow> resolve new_registry ''GET'' ''/api/more/items'') = Some (text_handler ''hi'')"
    by (simp add: sample_mounts_of sample_app_target del: app_target.simps)
  ultimately show ?thesis
    using application_end_to_end [of ?L "new_parser ?L kMaxHeaderBytes" "''...''" ?m "()" "[]" "''/api/more/items''"
        new_registry sample_mounts ?\<sigma> ?\<sigma> "''hi''" text_json "\<lambda>n. 7" "()" "[]"]
      sample_msg_ok(1) [of "''GET''" "''/api/more/items''"] sample_plain_path
    by (simp add: script_ll_def new_parser_def del: app_target.simps)
qed

end
